(* ===== verification/Prelude.thy ===== *)
theory Prelude
  imports
    Main
    "HOL-Library.Word"
    "HOL-Library.AList"
    "HOL-Library.List_Lexorder"
    "HOL-Library.Multiset"
begin

section \<open>Shared types, conversions and list lemmas\<close>

text \<open>
  What every component of the model uses: the Go scalar types and conversions, points in
  time, and the two list functions that serve as specifications of the group counts
  (\<open>occs\<close>, how often a list is an index-subsequence of another; \<open>combs\<close>, the sub-lists of
  one length in index order).

  Conventions. A Go \<open>int\<close> is an \<open>int\<close>; the numbers the service handles come from
  PostgreSQL \<open>INTEGER\<close> columns and protobuf \<open>int32\<close> fields, so 64-bit arithmetic on them does
  not overflow. Conversions to a narrower type are written out (\<open>int32\<close>), and where a product can
  leave the 64-bit range it is wrapped (\<open>int64\<close>). A Go error return is the sum type
  \<open>error + 'a\<close>; a run-time panic (index out of range, negative \<open>make\<close> size) is \<open>None\<close>.
\<close>

named_theorems go_simps \<open>unfolding rules of the model's straight-line definitions\<close>

subsection \<open>Scalars\<close>

text \<open>The conversions \<open>int32(x)\<close> and the result of an \<open>int\<close> operation: two's complement.\<close>

definition int32 :: "int \<Rightarrow> int" where
  "int32 x = signed_take_bit 31 x"

definition int64 :: "int \<Rightarrow> int" where
  "int64 x = signed_take_bit 63 x"

lemma int32_id: "- (2 ^ 31) \<le> x \<Longrightarrow> x < 2 ^ 31 \<Longrightarrow> int32 x = x"
  by (simp add: int32_def signed_take_bit_int_eq_self)

lemma int64_id: "- (2 ^ 63) \<le> x \<Longrightarrow> x < 2 ^ 63 \<Longrightarrow> int64 x = x"
  by (simp add: int64_def signed_take_bit_int_eq_self)

text \<open>Go's integer division truncates towards zero.\<close>

definition go_div :: "int \<Rightarrow> int \<Rightarrow> int" where
  "go_div a b = sgn a * sgn b * (\<bar>a\<bar> div \<bar>b\<bar>)"

lemma go_div_nonneg: "0 \<le> a \<Longrightarrow> 0 < b \<Longrightarrow> go_div a b = a div b"
  by (cases "a = 0") (auto simp: go_div_def)

text \<open>
  A \<open>time.Time\<close> is its number of nanoseconds since the zero time (1 January of year 1, UTC), so
  \<open>IsZero\<close> is equality with 0 and \<open>Before\<close>, \<open>After\<close> are the order. Every time the service
  handles is in UTC.
\<close>

type_synonym time = int

definition IsZero :: "time \<Rightarrow> bool" where
  [go_simps]: "IsZero t \<longleftrightarrow> t = 0"

text \<open>\<open>make([]T, n)\<close> panics on a negative length and otherwise gives \<open>n\<close> zero values.\<close>

definition make_slice :: "int \<Rightarrow> 'a \<Rightarrow> 'a list option" where
  "make_slice n z = (if n < 0 then None else Some (replicate (nat n) z))"

subsection \<open>Counting index-subsequences\<close>

text \<open>
  \<open>occs p xs\<close> is the number of ways to choose increasing positions of \<open>xs\<close> that read \<open>p\<close>.
\<close>

fun occs :: "'a list \<Rightarrow> 'a list \<Rightarrow> nat" where
  "occs [] xs = 1"
| "occs (y # q) [] = 0"
| "occs (y # q) (x # xs) = (if x = y then occs q xs else 0) + occs (y # q) xs"

lemma occs_Cons_drop:
  "i < length xs \<Longrightarrow>
   occs (y # q) (drop i xs) =
     (if xs ! i = y then occs q (drop (Suc i) xs) else 0) + occs (y # q) (drop (Suc i) xs)"
  by (simp add: Cons_nth_drop_Suc [symmetric])

lemma occs_pos_iff: "0 < occs p xs \<longleftrightarrow> p \<in> set (subseqs xs)"
proof (induction p xs rule: occs.induct)
  case (1 xs)
  have "[] \<in> set (subseqs xs)" by (induction xs) (auto simp: Let_def)
  then show ?case by simp
next
  case (2 y q)
  then show ?case by simp
next
  case (3 y q x xs)
  then show ?case by (auto simp: Let_def)
qed

lemma occs_count_subseqs: "occs p xs = count_list (subseqs xs) p"
proof -
  have inj: "count_list (map ((#) x) xss) (y # q) = (if x = y then count_list xss q else 0)"
    for x y :: 'a and q xss by (induction xss) auto
  have nil: "count_list (map ((#) x) xss) [] = 0" for x :: 'a and xss by (induction xss) auto
  have "count_list (subseqs xs) [] = 1" for xs :: "'a list"
    by (induction xs) (auto simp: Let_def nil)
  then show ?thesis
    by (induction p xs rule: occs.induct) (auto simp: Let_def inj)
qed

lemma occs_notin: "y \<notin> set xs \<Longrightarrow> occs (y # q) xs = 0"
  by (induction xs) auto

lemma occs_distinct: "distinct xs \<Longrightarrow> occs p xs \<le> 1"
proof (induction p xs rule: occs.induct)
  case (3 y q x xs)
  then show ?case by (auto simp: occs_notin)
qed auto

text \<open>On strictly ascending lists choosing a subsequence is choosing a subset.\<close>

lemma occs_ascending:
  assumes "sorted_wrt (<) xs" and "sorted_wrt (<) p"
  shows "occs p (xs :: 'a::linorder list) = (if set p \<subseteq> set xs then 1 else 0)"
  using assms
proof (induction p xs rule: occs.induct)
  case (3 y q x xs)
  show ?case
  proof (cases "x = y")
    case True
    then have y: "y \<notin> set xs" "y \<notin> set q" using "3.prems" by auto
    then have "set q \<subseteq> insert y (set xs) \<longleftrightarrow> set q \<subseteq> set xs" by auto
    then show ?thesis using 3 True y by (simp add: occs_notin)
  next
    case False
    show ?thesis
    proof (cases "x < y")
      case True
      then have "x \<notin> set (y # q)" using "3.prems"(2) by auto
      then have "set (y # q) \<subseteq> set (x # xs) \<longleftrightarrow> set (y # q) \<subseteq> set xs" by auto
      then show ?thesis using 3 False by simp
    next
      case ge: False
      then have "y \<notin> set (x # xs)" using False "3.prems"(1) by fastforce
      then show ?thesis using False by (simp add: occs_notin)
    qed
  qed
qed auto

subsection \<open>Sub-lists of one length\<close>

fun combs :: "nat \<Rightarrow> 'a list \<Rightarrow> 'a list list" where
  "combs 0 xs = [[]]"
| "combs (Suc k) [] = []"
| "combs (Suc k) (x # xs) = map ((#) x) (combs k xs) @ combs (Suc k) xs"

lemma combs_length: "c \<in> set (combs k xs) \<Longrightarrow> length c = k"
  by (induction k xs arbitrary: c rule: combs.induct) auto

lemma length_combs: "length (combs k xs) = length xs choose k"
  by (induction k xs rule: combs.induct) auto

lemma combs_set: "c \<in> set (combs k xs) \<Longrightarrow> set c \<subseteq> set xs"
  by (induction k xs arbitrary: c rule: combs.induct) fastforce+

lemma count_combs: "count_list (combs k xs) p = (if length p = k then occs p xs else 0)"
proof -
  have inj: "count_list (map ((#) x) xss) (y # q) = (if x = y then count_list xss q else 0)"
    for x y :: 'a and q xss by (induction xss) auto
  have nil: "count_list (map ((#) x) xss) [] = 0" for x :: 'a and xss by (induction xss) auto
  show ?thesis
  proof (induction k xs arbitrary: p rule: combs.induct)
    case (2 k)
    then show ?case by (cases p) auto
  next
    case (3 k x xs)
    then show ?case by (cases p) (auto simp: inj nil)
  qed auto
qed

lemma set_combs: "set (combs k xs) = {p. p \<in> set (subseqs xs) \<and> length p = k}"
proof -
  have "p \<in> set (combs k xs) \<longleftrightarrow> p \<in> set (subseqs xs) \<and> length p = k" for p
    using count_combs [of k xs p] occs_pos_iff [of p xs]
      count_list_0_iff [of "combs k xs" p]
    by (metis bot_nat_0.not_eq_extremum less_numeral_extra(3))
  then show ?thesis by blast
qed

lemma combs_sorted: "sorted_wrt R xs \<Longrightarrow> c \<in> set (combs k xs) \<Longrightarrow> sorted_wrt R c"
proof (induction k xs arbitrary: c rule: combs.induct)
  case (3 k x xs)
  from "3.prems"(2) consider q where "c = x # q" "q \<in> set (combs k xs)" | "c \<in> set (combs (Suc k) xs)"
    by auto
  then show ?case
  proof cases
    case (1 q)
    then show ?thesis using "3.IH"(1) [of q] "3.prems"(1) combs_set [OF 1(2)] by auto
  next
    case 2
    then show ?thesis using "3.IH"(2) [of c] "3.prems"(1) by simp
  qed
qed auto

lemma combs_distinct_elem: "distinct xs \<Longrightarrow> c \<in> set (combs k xs) \<Longrightarrow> distinct c"
proof (induction k xs arbitrary: c rule: combs.induct)
  case (3 k x xs)
  from "3.prems"(2) consider q where "c = x # q" "q \<in> set (combs k xs)" | "c \<in> set (combs (Suc k) xs)"
    by auto
  then show ?case
  proof cases
    case (1 q)
    then show ?thesis using "3.IH"(1) [of q] "3.prems"(1) combs_set [OF 1(2)] by auto
  next
    case 2
    then show ?thesis using "3.IH"(2) [of c] "3.prems"(1) by simp
  qed
qed auto

lemma combs_eq_Nil: "length xs < k \<Longrightarrow> combs k xs = []"
  by (metis length_combs binomial_eq_0 length_0_conv)

lemma combs_full: "combs (length xs) xs = [xs]"
  by (induction xs) (auto simp: combs_eq_Nil)

lemma combs_map: "combs k (map f xs) = map (map f) (combs k xs)"
  by (induction k xs rule: combs.induct) auto

lemma combs_nth: "combs k xs = map (map ((!) xs)) (combs k [0..<length xs])"
  using combs_map [of k "(!) xs" "[0..<length xs]"] by (simp add: map_nth)

text \<open>The sub-lists within a set are the sub-lists of the elements in the set.\<close>

lemma filter_combs_subset:
  "filter (\<lambda>q. set q \<subseteq> S) (combs k xs) = combs k (filter (\<lambda>x. x \<in> S) xs)"
proof (induction k xs rule: combs.induct)
  case (3 k x xs)
  then show ?case by (simp add: filter_map comp_def)
qed auto

lemma sum_list_sort_key:
  "sum_list (map f (sort_key k xs)) = (sum_list (map f xs) :: 'a::comm_monoid_add)"
  by (metis mset_map mset_sort sum_mset_sum_list)

text \<open>On a strictly ascending list the enumeration is in lexicographic order.\<close>

lemma combs_lex:
  "sorted_wrt (<) (xs :: 'a::linorder list) \<Longrightarrow> sorted_wrt (<) (combs k xs)"
proof (induction k xs rule: combs.induct)
  case (3 k x xs)
  have 1: "sorted_wrt (<) (map ((#) x) (combs k xs))"
    using 3 by (simp add: sorted_wrt_map)
  have 2: "a < b" if a: "a \<in> set (map ((#) x) (combs k xs))" and b: "b \<in> set (combs (Suc k) xs)"
    for a b
  proof -
    obtain y q where "b = y # q" using combs_length [OF b] by (cases b) auto
    moreover then have "x < y" using combs_set [OF b] "3.prems" by auto
    moreover obtain p where "a = x # p" using a by auto
    ultimately show ?thesis by simp
  qed
  show ?case using 1 2 3 by (simp add: sorted_wrt_append)
qed auto

end
