(* ===== verification/Lo_Node.thy ===== *)
theory Lo_Node
  imports Prelude
begin

section \<open>The tree node (node.go)\<close>

text \<open>
  \<open>internal/lottery-tree/node.go\<close>: the node of the prefix tree, its constructors and the
  recursive \<open>Build\<close> that records one draw. A node is a value: the slot list \<open>Next\<close> holds
  \<open>None\<close> for a nil pointer. The field \<open>Prev\<close> (the pointer to the parent) is written by the
  constructors and read nowhere, so it is left out; every node has one parent, so nothing is
  shared. \<open>Build\<close> mutates nodes in place; here it returns the new node, and \<open>None\<close> is the
  panic of \<open>make\<close> with a negative size.

  The main lemma, \<open>Build_count\<close>, says what a draw adds to the count at every path: the number of
  ways the path occurs in the draw as an index-subsequence, for the paths the tree can hold.
\<close>

subsection \<open>Nodes\<close>

datatype LoNode =
  LoNode (Piece: "int list") (Num: int) (Count: int) (Next: "LoNode option list")

definition nextSize :: "int \<Rightarrow> int \<Rightarrow> int" where
  "nextSize n lottery = (if lottery = 3 then lottery else lottery - n)"

definition NewLoNode :: "int \<Rightarrow> int \<Rightarrow> LoNode option" where
  "NewLoNode n lottery =
     Option.bind (make_slice (nextSize n lottery) None) (\<lambda>next. Some (LoNode [] n 1 next))"

definition NewLoNodeWithParent :: "int \<Rightarrow> int \<Rightarrow> LoNode option" where
  "NewLoNodeWithParent n lottery =
     Option.bind (make_slice (nextSize n lottery) None) (\<lambda>next. Some (LoNode [] n 1 next))"

definition set_Next :: "LoNode \<Rightarrow> int \<Rightarrow> LoNode \<Rightarrow> LoNode" where
  "set_Next n i c = LoNode (Piece n) (Num n) (Count n) ((Next n)[nat i := Some c])"

text \<open>The child a draw number leads to: a new node, or the present one with its count raised.\<close>

definition enter_child :: "LoNode \<Rightarrow> int \<Rightarrow> int \<Rightarrow> LoNode option" where
  "enter_child n treeIndex f =
     (case Next n ! nat treeIndex of
        None \<Rightarrow> NewLoNodeWithParent f (int (length (Next n)) + Num n)
      | Some c \<Rightarrow> Some (LoNode (Piece c) (Num c) (Count c + 1) (Next c)))"

function Build :: "LoNode \<Rightarrow> int list \<Rightarrow> nat \<Rightarrow> int \<Rightarrow> LoNode option"
  and buildLoop :: "LoNode \<Rightarrow> int list \<Rightarrow> nat \<Rightarrow> int \<Rightarrow> LoNode option" where
  "Build n form current howMany =
     (if howMany = 0 then Some n else buildLoop n form current howMany)"
| "buildLoop n form i howMany =
     (if i < length form then
        let treeIndex = form ! i - Num n - 1 in
        if 0 \<le> treeIndex \<and> treeIndex < int (length (Next n)) then
          Option.bind (enter_child n treeIndex (form ! i)) (\<lambda>c.
          Option.bind (Build c form (Suc i) (howMany - 1)) (\<lambda>c'.
          buildLoop (set_Next n treeIndex c') form (Suc i) howMany))
        else buildLoop n form (Suc i) howMany
      else Some n)"
  by pat_completeness auto
termination
  by (relation "measure (\<lambda>x. case x of
        Inl (n, form, i, h) \<Rightarrow> 2 * (length form - i) + 1
      | Inr (n, form, i, h) \<Rightarrow> 2 * (length form - i))") auto

declare Build.simps [simp del] buildLoop.simps [simp del]

lemma buildLoop_done: "\<not> i < length form \<Longrightarrow> buildLoop n form i h = Some n"
  by (simp add: buildLoop.simps)

lemma buildLoop_skip:
  assumes "i < length form" and "\<not> (0 \<le> form ! i - Num n - 1 \<and> form ! i - Num n - 1 < int (length (Next n)))"
  shows "buildLoop n form i h = buildLoop n form (Suc i) h"
  using assms by (subst buildLoop.simps) (simp only: Let_def if_True if_False simp_thms)

lemma buildLoop_enter:
  assumes "i < length form" and "0 \<le> form ! i - Num n - 1 \<and> form ! i - Num n - 1 < int (length (Next n))"
    and "enter_child n (form ! i - Num n - 1) (form ! i) = Some c"
    and "Build c form (Suc i) (h - 1) = Some c'"
  shows "buildLoop n form i h = buildLoop (set_Next n (form ! i - Num n - 1) c') form (Suc i) h"
  using assms by (subst buildLoop.simps) (simp only: Let_def if_True simp_thms bind.bind_lunit)

subsection \<open>Well-formed nodes and the count at a path\<close>

text \<open>
  Slot \<open>i\<close> of a node with number \<open>n\<close> is for the number \<open>n + i + 1\<close>, and the slots run up to the
  lottery's highest number \<open>L\<close>.
\<close>

inductive wf_node :: "int \<Rightarrow> LoNode \<Rightarrow> bool" where
  wf_nodeI: "num + int (length next) = L \<Longrightarrow>
    (\<forall>i c. i < length next \<longrightarrow> next ! i = Some c \<longrightarrow>
       Num c = num + int i + 1 \<and> 1 \<le> Count c \<and> wf_node L c) \<Longrightarrow>
    wf_node L (LoNode pc num cnt next)"

inductive_simps wf_node_iff: "wf_node L (LoNode pc num cnt next)"

lemma wf_node_len: "wf_node L n \<Longrightarrow> Num n + int (length (Next n)) = L"
  by (cases n) (simp add: wf_node_iff)

lemma wf_node_child:
  "wf_node L n \<Longrightarrow> i < length (Next n) \<Longrightarrow> Next n ! i = Some c \<Longrightarrow>
   Num c = Num n + int i + 1 \<and> 1 \<le> Count c \<and> wf_node L c"
  by (cases n) (simp add: wf_node_iff)

text \<open>The child for the number \<open>y\<close>, and the node at the end of a path of numbers.\<close>

definition child_at :: "LoNode \<Rightarrow> int \<Rightarrow> LoNode option" where
  "child_at n y = (let k = y - Num n - 1 in
     if 0 \<le> k \<and> k < int (length (Next n)) then Next n ! nat k else None)"

fun node_at :: "LoNode \<Rightarrow> int list \<Rightarrow> LoNode option" where
  "node_at n [] = Some n"
| "node_at n (y # q) = (case child_at n y of None \<Rightarrow> None | Some c \<Rightarrow> node_at c q)"

definition count_at :: "LoNode \<Rightarrow> int list \<Rightarrow> int" where
  "count_at n p = (case node_at n p of None \<Rightarrow> 0 | Some m \<Rightarrow> Count m)"

text \<open>The paths a tree of range \<open>L\<close> and depth \<open>h\<close> can hold below a node with number \<open>n\<close>.\<close>

fun fits :: "int \<Rightarrow> int \<Rightarrow> int \<Rightarrow> int list \<Rightarrow> bool" where
  "fits L n h [] = True"
| "fits L n h (y # q) = (h \<noteq> 0 \<and> n < y \<and> y \<le> L \<and> fits L y (h - 1) q)"

lemma fits_iff:
  "fits L n h p \<longleftrightarrow>
     sorted_wrt (<) p \<and> (\<forall>y \<in> set p. n < y \<and> y \<le> L) \<and> (h < 0 \<or> int (length p) \<le> h)"
proof (induction L n h p rule: fits.induct)
  case (2 L n h y q)
  have "n < z" if "z \<in> set q" "n < y" "\<forall>z \<in> set q. y < z \<and> z \<le> L" for z
    using that by (blast intro: less_trans)
  with 2 show ?case by auto
qed auto

lemma child_at_wf:
  "wf_node L n \<Longrightarrow> child_at n y = Some c \<Longrightarrow>
   Num n < y \<and> y \<le> L \<and> Num c = y \<and> 1 \<le> Count c \<and> wf_node L c"
  using wf_node_len [of L n] wf_node_child [of L n "nat (y - Num n - 1)" c]
  by (auto simp: child_at_def Let_def split: if_splits)

lemma count_at_Nil [simp]: "count_at n [] = Count n"
  by (simp add: count_at_def)

lemma count_at_Cons:
  "count_at n (y # q) = (case child_at n y of None \<Rightarrow> 0 | Some c \<Rightarrow> count_at c q)"
  by (simp add: count_at_def split: option.splits)

subsection \<open>One draw\<close>

text \<open>A present or new child never panics: the slot index in range makes its size non-negative.\<close>

lemma enter_child_wf:
  assumes wf: "wf_node L n" and L: "L \<noteq> 3"
    and k: "0 \<le> f - Num n - 1" "f - Num n - 1 < int (length (Next n))"
  shows "\<exists>c. enter_child n (f - Num n - 1) f = Some c \<and> wf_node L c \<and> Num c = f \<and>
    (case child_at n f of
       None \<Rightarrow> Count c = 1 \<and> (\<forall>y q. count_at c (y # q) = 0)
     | Some d \<Rightarrow> Count c = Count d + 1 \<and> (\<forall>y q. count_at c (y # q) = count_at d (y # q)))"
proof (cases "Next n ! nat (f - Num n - 1)")
  case None
  have "f \<le> L" using wf_node_len [OF wf] k by simp
  with None L k wf_node_len [OF wf] show ?thesis
    by (auto simp: enter_child_def NewLoNodeWithParent_def nextSize_def make_slice_def
        child_at_def wf_node_iff count_at_Cons Let_def split: option.splits)
next
  case (Some d)
  have at: "child_at n f = Some d" using Some k by (simp add: child_at_def)
  note d = child_at_wf [OF wf at]
  have "wf_node L (LoNode (Piece d) (Num d) (Count d + 1) (Next d))"
    using d by (cases d) (simp add: wf_node_iff)
  with Some at d show ?thesis
    by (auto simp: enter_child_def count_at_Cons child_at_def Let_def)
qed

lemma set_Next_wf:
  assumes "wf_node L n" and "0 \<le> k" "k < int (length (Next n))"
    and "wf_node L c" "Num c = Num n + k + 1" "1 \<le> Count c"
  shows "wf_node L (set_Next n k c)"
  using assms by (cases n) (auto simp: set_Next_def wf_node_iff nth_list_update)

lemma set_Next_sel [simp]:
  "Num (set_Next n k c) = Num n" "Count (set_Next n k c) = Count n"
  "length (Next (set_Next n k c)) = length (Next n)"
  by (simp_all add: set_Next_def)

lemma child_at_set_Next:
  assumes "0 \<le> f - Num n - 1" "f - Num n - 1 < int (length (Next n))"
  shows "child_at (set_Next n (f - Num n - 1) c) y = (if y = f then Some c else child_at n y)"
  using assms by (auto simp: child_at_def Let_def set_Next_def nth_list_update)

text \<open>
  What \<open>Build\<close> adds: at a path that fits, the number of its occurrences in the rest of the draw;
  at any other path nothing.
\<close>

definition gain :: "int \<Rightarrow> int \<Rightarrow> int \<Rightarrow> int list \<Rightarrow> int list \<Rightarrow> int" where
  "gain L n h xs p = (if fits L n h p then int (occs p xs) else 0)"

lemma gain_Cons:
  "gain L n h xs (y # q) =
     (if h \<noteq> 0 \<and> n < y \<and> y \<le> L \<and> fits L y (h - 1) q then int (occs (y # q) xs) else 0)"
  by (simp add: gain_def)

lemma Build_count_aux:
  "wf_node L n \<Longrightarrow> L \<noteq> 3 \<Longrightarrow>
   \<exists>n'. Build n form i h = Some n' \<and> wf_node L n' \<and> Num n' = Num n \<and> Count n' = Count n \<and>
     (\<forall>y q. count_at n' (y # q) = count_at n (y # q) + gain L (Num n) h (drop i form) (y # q))"
  "wf_node L n \<Longrightarrow> L \<noteq> 3 \<Longrightarrow> h \<noteq> 0 \<Longrightarrow>
   \<exists>n'. buildLoop n form i h = Some n' \<and> wf_node L n' \<and> Num n' = Num n \<and> Count n' = Count n \<and>
     (\<forall>y q. count_at n' (y # q) = count_at n (y # q) + gain L (Num n) h (drop i form) (y # q))"
proof (induction n form i h and n form i h rule: Build_buildLoop.induct)
  case (1 n form i h)
  then show ?case by (cases "h = 0") (auto simp: Build.simps gain_Cons)
next
  case (2 n form i h)
  show ?case
  proof (cases "i < length form")
    case False
    then show ?thesis using "2.prems" by (simp add: buildLoop_done gain_Cons)
  next
    case lt: True
    let ?f = "form ! i" and ?k = "form ! i - Num n - 1"
    show ?thesis
    proof (cases "0 \<le> ?k \<and> ?k < int (length (Next n))")
      case False
      then have out: "\<not> (Num n < ?f \<and> ?f \<le> L)" using wf_node_len [OF "2.prems"(1)] by auto
      have "gain L (Num n) h (drop i form) (y # q) = gain L (Num n) h (drop (Suc i) form) (y # q)"
        for y q using out by (auto simp: gain_Cons occs_Cons_drop [OF lt])
      then show ?thesis
        using "2.IH"(3) [OF lt refl False "2.prems"] by (simp add: buildLoop_skip [OF lt False])
    next
      case True
      then have k: "0 \<le> ?k" "?k < int (length (Next n))" by auto
      then have f: "Num n < ?f" "?f \<le> L" using wf_node_len [OF "2.prems"(1)] by auto
      obtain c where c: "enter_child n ?k ?f = Some c" "wf_node L c" "Num c = ?f"
        and cc: "case child_at n ?f of
           None \<Rightarrow> Count c = 1 \<and> (\<forall>y q. count_at c (y # q) = 0)
         | Some d \<Rightarrow> Count c = Count d + 1 \<and> (\<forall>y q. count_at c (y # q) = count_at d (y # q))"
        using enter_child_wf [OF "2.prems"(1,2) k] by blast
      obtain c' where c': "Build c form (Suc i) (h - 1) = Some c'" "wf_node L c'"
          "Num c' = ?f" "Count c' = Count c"
        and g: "\<forall>y q. count_at c' (y # q) = count_at c (y # q) +
                  gain L ?f (h - 1) (drop (Suc i) form) (y # q)"
        using "2.IH"(1) [OF lt refl True, of c] c "2.prems"(2) by auto
      have pos: "1 \<le> Count c'"
        using cc c'(4) child_at_wf [OF "2.prems"(1), of ?f] by (cases "child_at n ?f") auto
      have below: "count_at c' q = count_at n (?f # q) +
          (if fits L ?f (h - 1) q then int (occs q (drop (Suc i) form)) else 0)" for q
        using cc c'(4) g by (cases q) (auto simp: count_at_Cons [of n] gain_def split: option.splits)
      let ?n = "set_Next n ?k c'"
      have wf': "wf_node L ?n"
        using set_Next_wf [OF "2.prems"(1) k c'(2)] c'(3) pos by simp
      obtain n' where n': "buildLoop ?n form (Suc i) h = Some n'" "wf_node L n'"
          "Num n' = Num n" "Count n' = Count n"
        and g': "\<forall>y q. count_at n' (y # q) = count_at ?n (y # q) +
                  gain L (Num n) h (drop (Suc i) form) (y # q)"
        using "2.IH"(2) [OF lt refl True c(1) c'(1) wf' "2.prems"(2,3)] by auto
      have "count_at n' (y # q) = count_at n (y # q) + gain L (Num n) h (drop i form) (y # q)" for y q
      proof -
        have "count_at ?n (y # q) = count_at n (y # q) +
            (if y = ?f \<and> fits L ?f (h - 1) q then int (occs q (drop (Suc i) form)) else 0)"
          using below [of q] child_at_set_Next [OF k] by (simp add: count_at_Cons)
        then show ?thesis
          using g' f "2.prems"(3) by (auto simp: gain_Cons occs_Cons_drop [OF lt])
      qed
      then show ?thesis
        using n' by (simp add: buildLoop_enter [OF lt True c(1) c'(1)])
    qed
  qed
qed

lemma Build_count:
  assumes "wf_node L n" and "L \<noteq> 3"
  obtains n' where "Build n form i h = Some n'" "wf_node L n'" "Num n' = Num n" "Count n' = Count n"
    "\<And>y q. count_at n' (y # q) = count_at n (y # q) + gain L (Num n) h (drop i form) (y # q)"
  using Build_count_aux(1) [OF assms] by blast

end
