(* ===== verification/Lo_Tree.thy ===== *)
theory Lo_Tree
  imports Lo_Node
begin

section \<open>The prefix tree of group frequencies (types.go, tree.go)\<close>

text \<open>
  \<open>internal/lottery-tree/types.go\<close> and \<open>tree.go\<close>: the mode and game constants, the tree,
  building it from the draws, and \<open>CollectNodes\<close>, which lists every group of one size with its
  count, ordered by count. The predicate \<open>tree_of\<close> is what the rest of the development knows about
  a built tree: the count at a path is the number of occurrences of the path in the draws
  (\<open>group_count\<close>). \<open>CollectNodes_spec\<close> characterises the result list of \<open>CollectNodes\<close> completely.
\<close>

subsection \<open>Constants\<close>

type_synonym Common = string

definition Strong :: Common where "Strong = ''strong''"
definition Weak :: Common where "Weak = ''weak''"
definition Random :: Common where "Random = ''random''"

type_synonym LotteryType = string

definition Lottery :: LotteryType where "Lottery = ''lottery''"
definition TripleSeven :: LotteryType where "TripleSeven = ''777''"
definition OneTwoThree :: LotteryType where "OneTwoThree = ''123''"

subsection \<open>Building\<close>

record LoTree =
  Anchor :: "LoNode option"
  t_Size :: int
  t_Lottery :: int
  BuildCalls :: int

definition NewLoTree :: "int \<Rightarrow> LoTree option" where
  "NewLoTree lottery = Option.bind (NewLoNode 0 lottery) (\<lambda>a.
     Some \<lparr>Anchor = Some a, t_Size = 0, t_Lottery = lottery, BuildCalls = 0\<rparr>)"

text \<open>
  The loop of \<open>LoTree.Build\<close> over the draws. A nil anchor is dereferenced unless there is nothing
  to do for the draw; \<open>NewLoTree\<close> never leaves one.
\<close>

fun buildDraws :: "LoNode option \<Rightarrow> int list list \<Rightarrow> int \<Rightarrow> LoNode option option" where
  "buildDraws anchor [] howMany = Some anchor"
| "buildDraws None (d # ds) howMany =
     (if howMany = 0 \<or> d = [] then buildDraws None ds howMany else None)"
| "buildDraws (Some a) (d # ds) howMany =
     Option.bind (Build a d 0 howMany) (\<lambda>a'. buildDraws (Some a') ds howMany)"

definition BuildTree :: "LoTree \<Rightarrow> int list list \<Rightarrow> int \<Rightarrow> LoTree option" where
  "BuildTree t data howMany = Option.bind (buildDraws (Anchor t) data howMany) (\<lambda>anchor.
     Some (t\<lparr>Anchor := anchor, BuildCalls := int (length data)\<rparr>))"

definition group_count :: "int list list \<Rightarrow> int list \<Rightarrow> int" where
  "group_count data p = (\<Sum>d\<leftarrow>data. int (occs p d))"

lemma group_count_nonneg: "0 \<le> group_count data p"
  by (auto simp: group_count_def intro!: sum_list_nonneg)

text \<open>What a tree of range \<open>L\<close> built to depth \<open>h\<close> from \<open>data\<close> answers at every path.\<close>

definition tree_of :: "int \<Rightarrow> int \<Rightarrow> int list list \<Rightarrow> LoTree \<Rightarrow> bool" where
  "tree_of L h data t \<longleftrightarrow>
     (\<exists>a. Anchor t = Some a \<and> wf_node L a \<and> Num a = 0 \<and>
        (\<forall>y q. count_at a (y # q) =
           (if fits L 0 h (y # q) then group_count data (y # q) else 0))) \<and>
     BuildCalls t = int (length data)"

lemma NewLoNode_wf:
  assumes "0 \<le> L" and "L \<noteq> 3"
  shows "\<exists>a. NewLoNode 0 L = Some a \<and> wf_node L a \<and> Num a = 0 \<and> (\<forall>y q. count_at a (y # q) = 0)"
  using assms by (auto simp: NewLoNode_def make_slice_def nextSize_def wf_node_iff count_at_Cons
      child_at_def Let_def split: option.splits)

lemma buildDraws_count:
  assumes "wf_node L a" and "L \<noteq> 3" and "Num a = 0"
  shows "\<exists>a'. buildDraws (Some a) data h = Some (Some a') \<and> wf_node L a' \<and> Num a' = 0 \<and>
    (\<forall>y q. count_at a' (y # q) = count_at a (y # q) +
       (if fits L 0 h (y # q) then group_count data (y # q) else 0))"
  using assms
proof (induction data arbitrary: a)
  case Nil
  then show ?case by (simp add: group_count_def)
next
  case (Cons d ds)
  obtain b where b: "Build a d 0 h = Some b" "wf_node L b" "Num b = Num a"
    and g: "\<And>y q. count_at b (y # q) = count_at a (y # q) + gain L (Num a) h (drop 0 d) (y # q)"
    using Build_count [OF Cons.prems(1,2)] by metis
  obtain a' where "buildDraws (Some b) ds h = Some (Some a')" "wf_node L a'" "Num a' = 0"
    "\<forall>y q. count_at a' (y # q) = count_at b (y # q) +
       (if fits L 0 h (y # q) then group_count ds (y # q) else 0)"
    using Cons.IH [OF b(2) Cons.prems(2)] b(3) Cons.prems(3) by auto
  then show ?case using b(1) g Cons.prems(3) by (auto simp: gain_def group_count_def)
qed

lemma tree_of_Build:
  assumes "0 \<le> L" and "L \<noteq> 3"
  shows "\<exists>t. Option.bind (NewLoTree L) (\<lambda>t. BuildTree t data h) = Some t \<and> tree_of L h data t \<and>
    t_Lottery t = L"
proof -
  obtain a where a: "NewLoNode 0 L = Some a" "wf_node L a" "Num a = 0"
      "\<forall>y q. count_at a (y # q) = 0"
    using NewLoNode_wf [OF assms] by blast
  obtain b where "buildDraws (Some a) data h = Some (Some b)" "wf_node L b" "Num b = 0"
    "\<forall>y q. count_at b (y # q) = count_at a (y # q) +
       (if fits L 0 h (y # q) then group_count data (y # q) else 0)"
    using buildDraws_count [OF a(2) assms(2) a(3)] by blast
  with a show ?thesis by (simp add: NewLoTree_def BuildTree_def tree_of_def)
qed

lemma tree_of_anchor:
  assumes "tree_of L h data t"
  obtains a where "Anchor t = Some a" "wf_node L a" "Num a = 0"
    "\<And>p. p \<noteq> [] \<Longrightarrow> count_at a p = (if fits L 0 h p then group_count data p else 0)"
proof -
  obtain a where "Anchor t = Some a" "wf_node L a" "Num a = 0"
    and c: "\<forall>y q. count_at a (y # q) =
           (if fits L 0 h (y # q) then group_count data (y # q) else 0)"
    using assms by (auto simp: tree_of_def)
  moreover have "count_at a p = (if fits L 0 h p then group_count data p else 0)" if "p \<noteq> []" for p
    using c that by (cases p) auto
  ultimately show thesis using that by blast
qed

subsection \<open>Collecting the groups of one size\<close>

record NodeEntry =
  e_Numbers :: "int list"
  e_Count :: int

function collectNodes :: "LoNode \<Rightarrow> int \<Rightarrow> int list \<Rightarrow> NodeEntry list \<Rightarrow> NodeEntry list"
  and collectChildren :: "LoNode option list \<Rightarrow> int \<Rightarrow> int list \<Rightarrow> NodeEntry list \<Rightarrow> NodeEntry list"
where
  "collectNodes (LoNode pc num cnt next) remaining prefix out =
     (let numbers = prefix @ [num] in
      if remaining = 0 then out @ [\<lparr>e_Numbers = numbers, e_Count = cnt\<rparr>]
      else collectChildren next (remaining - 1) numbers out)"
| "collectChildren [] remaining prefix out = out"
| "collectChildren (None # cs) remaining prefix out = collectChildren cs remaining prefix out"
| "collectChildren (Some c # cs) remaining prefix out =
     collectChildren cs remaining prefix (collectNodes c remaining prefix out)"
  by pat_completeness auto
termination
  by (relation "measure (\<lambda>x. case x of
        Inl (n, _) \<Rightarrow> size n
      | Inr (cs, _) \<Rightarrow> size_list (size_option size) cs)") auto

text \<open>\<open>sort.SliceStable\<close> by count: a stable sort, ascending for mode \<open>weak\<close> and descending else.\<close>

definition sortEntries :: "string \<Rightarrow> NodeEntry list \<Rightarrow> NodeEntry list" where
  "sortEntries mode = sort_key (\<lambda>e. if mode = Weak then e_Count e else - e_Count e)"

definition CollectNodes :: "LoTree \<Rightarrow> int \<Rightarrow> string \<Rightarrow> NodeEntry list" where
  "CollectNodes t gsize mode =
     (case Anchor t of
        None \<Rightarrow> []
      | Some a \<Rightarrow>
          if gsize \<le> 0 then []
          else sortEntries mode (collectChildren (Next a) (gsize - 1) [] []))"

lemma collect_append_aux:
  "collectNodes n r pre (out' @ out) = out' @ collectNodes n r pre out"
  "collectChildren cs r pre (out' @ out) = out' @ collectChildren cs r pre out"
  by (induction n r pre out and cs r pre out rule: collectNodes_collectChildren.induct)
    (auto simp: Let_def)

lemma collectChildren_Some:
  "collectChildren (Some c # cs) r pre [] = collectNodes c r pre [] @ collectChildren cs r pre []"
  using collect_append_aux(2) [of cs r pre "collectNodes c r pre []" "[]"] by simp

text \<open>
  The entries below a node, in the order the walk appends them: they are in strictly ascending
  lexicographic order, and they are the nodes at the given depth.
\<close>

definition ascending_entries :: "NodeEntry list \<Rightarrow> bool" where
  "ascending_entries es \<longleftrightarrow> sorted_wrt (\<lambda>a b. e_Numbers a < e_Numbers b) es"

definition slots_wf :: "int \<Rightarrow> int \<Rightarrow> LoNode option list \<Rightarrow> bool" where
  "slots_wf L b cs \<longleftrightarrow> (\<forall>i c. i < length cs \<longrightarrow> cs ! i = Some c \<longrightarrow> Num c = b + int i + 1 \<and> wf_node L c)"

lemma slots_wf_Cons:
  "slots_wf L b (s # cs) \<longleftrightarrow>
     (\<forall>c. s = Some c \<longrightarrow> Num c = b + 1 \<and> wf_node L c) \<and> slots_wf L (b + 1) cs"
  by (auto simp: slots_wf_def nth_Cons split: nat.splits)

lemma slots_wf_Next: "wf_node L n \<Longrightarrow> slots_wf L (Num n) (Next n)"
  using wf_node_child [of L n] by (auto simp: slots_wf_def)

text \<open>
  \<open>walk_spec\<close> says it for the walk of one node; the children's walk follows slot by slot.
\<close>

definition walk_spec :: "LoNode \<Rightarrow> bool" where
  "walk_spec n \<longleftrightarrow> (\<forall>r pre. 0 \<le> r \<longrightarrow>
     ascending_entries (collectNodes n r pre []) \<and>
     set (collectNodes n r pre []) =
       {\<lparr>e_Numbers = pre @ Num n # q, e_Count = Count m\<rparr> | q m.
          int (length q) = r \<and> node_at n q = Some m})"

lemma ascending_entries_append:
  "ascending_entries (es @ fs) \<longleftrightarrow> ascending_entries es \<and> ascending_entries fs \<and>
     (\<forall>e \<in> set es. \<forall>f \<in> set fs. e_Numbers e < e_Numbers f)"
  by (auto simp: ascending_entries_def sorted_wrt_append)

lemma less_append_Cons: "(x::int) < y \<Longrightarrow> pre @ x # p < pre @ y # q"
  by (induction pre) auto

lemma collectChildren_spec:
  assumes "0 \<le> r" and "slots_wf L b cs" and "\<And>c. Some c \<in> set cs \<Longrightarrow> walk_spec c"
  shows "ascending_entries (collectChildren cs r pre []) \<and>
     set (collectChildren cs r pre []) =
       {\<lparr>e_Numbers = pre @ Num c # q, e_Count = Count m\<rparr> | c q m.
          Some c \<in> set cs \<and> int (length q) = r \<and> node_at c q = Some m}"
  using assms(2,3)
proof (induction cs arbitrary: b)
  case Nil
  then show ?case by (simp add: ascending_entries_def)
next
  case (Cons s cs)
  have IH: "ascending_entries (collectChildren cs r pre [])"
    "set (collectChildren cs r pre []) =
       {\<lparr>e_Numbers = pre @ Num c # q, e_Count = Count m\<rparr> | c q m.
          Some c \<in> set cs \<and> int (length q) = r \<and> node_at c q = Some m}"
    using Cons.IH [of "b + 1"] Cons.prems by (simp_all add: slots_wf_Cons)
  show ?case
  proof (cases s)
    case None
    then show ?thesis using IH by simp
  next
    case (Some c)
    have c: "ascending_entries (collectNodes c r pre [])"
      "set (collectNodes c r pre []) =
         {\<lparr>e_Numbers = pre @ Num c # q, e_Count = Count m\<rparr> | q m.
            int (length q) = r \<and> node_at c q = Some m}"
      using Cons.prems(2) [of c] assms(1) Some by (auto simp: walk_spec_def)
    have "Num c < Num d" if "Some d \<in> set cs" for d
      using Cons.prems(1) that Some unfolding slots_wf_Cons
      by (auto simp: slots_wf_def in_set_conv_nth)
    then have "e_Numbers e < e_Numbers f"
      if "e \<in> set (collectNodes c r pre [])" "f \<in> set (collectChildren cs r pre [])" for e f
      using that unfolding c(2) IH(2) by (auto intro!: less_append_Cons)
    then have "ascending_entries (collectChildren (s # cs) r pre [])"
      using IH(1) c(1) Some by (simp only: collectChildren_Some ascending_entries_append) blast
    moreover have "set (collectChildren (s # cs) r pre []) =
       {\<lparr>e_Numbers = pre @ Num c # q, e_Count = Count m\<rparr> | c q m.
          Some c \<in> set (s # cs) \<and> int (length q) = r \<and> node_at c q = Some m}"
      unfolding Some collectChildren_Some set_append IH(2) c(2) by auto
    ultimately show ?thesis ..
  qed
qed

lemma child_at_mem:
  assumes "wf_node L n"
  shows "child_at n y = Some c \<longleftrightarrow> Some c \<in> set (Next n) \<and> Num c = y"
proof
  assume at: "child_at n y = Some c"
  then have "nat (y - Num n - 1) < length (Next n)" "Next n ! nat (y - Num n - 1) = Some c"
    by (auto simp: child_at_def Let_def split: if_splits)
  then have "Some c \<in> set (Next n)" by (metis nth_mem)
  then show "Some c \<in> set (Next n) \<and> Num c = y"
    using child_at_wf [OF assms at] by blast
next
  assume "Some c \<in> set (Next n) \<and> Num c = y"
  then obtain i where "i < length (Next n)" "Next n ! i = Some c" "Num c = y"
    by (auto simp: in_set_conv_nth)
  moreover then have "y - Num n - 1 = int i" using wf_node_child [OF assms, of i c] by simp
  ultimately show "child_at n y = Some c" by (simp add: child_at_def)
qed

lemma node_at_Cons_iff:
  assumes "wf_node L n"
  shows "node_at n (y # q) = Some m \<longleftrightarrow>
     (\<exists>c. Some c \<in> set (Next n) \<and> Num c = y \<and> node_at c q = Some m)"
proof -
  have "node_at n (y # q) = Some m \<longleftrightarrow> (\<exists>c. child_at n y = Some c \<and> node_at c q = Some m)"
    by (simp split: option.splits)
  then show ?thesis by (simp add: child_at_mem [OF assms])
qed

lemma walk_spec_wf: "wf_node L n \<Longrightarrow> walk_spec n"
proof (induction n)
  case (LoNode pc num cnt nx)
  let ?n = "LoNode pc num cnt nx"
  have kids: "walk_spec c" if "Some c \<in> set nx" for c
  proof -
    have "wf_node L c" using LoNode.prems that by (auto simp: wf_node_iff in_set_conv_nth)
    then show ?thesis using LoNode.IH [OF that] by simp
  qed
  have "ascending_entries (collectNodes ?n r pre []) \<and>
      set (collectNodes ?n r pre []) =
       {\<lparr>e_Numbers = pre @ Num ?n # q, e_Count = Count m\<rparr> | q m.
          int (length q) = r \<and> node_at ?n q = Some m}" if r: "0 \<le> r" for r pre
  proof (cases "r = 0")
    case True
    then show ?thesis by (auto simp: ascending_entries_def)
  next
    case False
    have walk: "collectNodes ?n r pre [] = collectChildren nx (r - 1) (pre @ [num]) []"
      using False by simp
    have c: "ascending_entries (collectChildren nx (r - 1) (pre @ [num]) []) \<and>
      set (collectChildren nx (r - 1) (pre @ [num]) []) =
       {\<lparr>e_Numbers = (pre @ [num]) @ Num c # q, e_Count = Count m\<rparr> | c q m.
          Some c \<in> set nx \<and> int (length q) = r - 1 \<and> node_at c q = Some m}"
      using r False kids slots_wf_Next [OF LoNode.prems]
      by (intro collectChildren_spec [where L = L and b = num]) auto
    have step: "int (length q) = r \<and> node_at ?n q = Some m \<longleftrightarrow>
        (\<exists>c p. q = Num c # p \<and> Some c \<in> set nx \<and> int (length p) = r - 1 \<and> node_at c p = Some m)"
      for q m
    proof (cases q)
      case (Cons y p)
      then show ?thesis using node_at_Cons_iff [OF LoNode.prems, of y p m] by auto
    qed (use False in auto)
    have "{\<lparr>e_Numbers = pre @ Num ?n # q, e_Count = Count m\<rparr> | q m.
          int (length q) = r \<and> node_at ?n q = Some m} =
       {\<lparr>e_Numbers = (pre @ [num]) @ Num c # q, e_Count = Count m\<rparr> | c q m.
          Some c \<in> set nx \<and> int (length q) = r - 1 \<and> node_at c q = Some m}"
      unfolding step by auto
    with c walk show ?thesis by metis
  qed
  then show ?case by (simp only: walk_spec_def) blast
qed

lemma collectChildren_wf:
  assumes "0 \<le> r" and "wf_node L n"
  shows "ascending_entries (collectChildren (Next n) r pre [])"
    and "set (collectChildren (Next n) r pre []) =
       {\<lparr>e_Numbers = pre @ q, e_Count = Count m\<rparr> | q m.
          int (length q) = r + 1 \<and> node_at n q = Some m}"
proof -
  have kids: "walk_spec c" if "Some c \<in> set (Next n)" for c
    using that wf_node_child [OF assms(2)] walk_spec_wf by (auto simp: in_set_conv_nth)
  note c = collectChildren_spec [OF assms(1) slots_wf_Next [OF assms(2)] kids, of pre]
  show "ascending_entries (collectChildren (Next n) r pre [])" using c by blast
  have "int (length q) = r + 1 \<and> node_at n q = Some m \<longleftrightarrow>
      (\<exists>c p. q = Num c # p \<and> Some c \<in> set (Next n) \<and> int (length p) = r \<and> node_at c p = Some m)"
    for q m using node_at_Cons_iff [OF assms(2)] assms(1) by (cases q) auto
  then show "set (collectChildren (Next n) r pre []) =
       {\<lparr>e_Numbers = pre @ q, e_Count = Count m\<rparr> | q m.
          int (length q) = r + 1 \<and> node_at n q = Some m}"
    using c by auto
qed

text \<open>A present node has a positive count, so presence is positivity of the count.\<close>

lemma node_at_pos: "wf_node L n \<Longrightarrow> p \<noteq> [] \<Longrightarrow> node_at n p = Some m \<Longrightarrow> 1 \<le> Count m"
proof (induction p arbitrary: n)
  case (Cons y q)
  then obtain c where c: "child_at n y = Some c" "node_at c q = Some m"
    by (auto split: option.splits)
  then show ?case using child_at_wf [OF Cons.prems(1) c(1)] Cons.IH [of c] by (cases q) auto
qed simp

lemma node_at_iff:
  "wf_node L n \<Longrightarrow> p \<noteq> [] \<Longrightarrow> (\<exists>m. node_at n p = Some m \<and> c = Count m) \<longleftrightarrow> c = count_at n p \<and> 0 < c"
  using node_at_pos [of L n p] by (fastforce simp: count_at_def split: option.splits)

subsection \<open>The order of the result\<close>

text \<open>
  Stable sorting of a list whose tie-break order is already right gives the lexicographic order of
  key and tie-break.
\<close>

lemma sort_key_stable_wrt:
  assumes "sorted_wrt R xs"
  shows "sorted_wrt (\<lambda>a b. f a < f b \<or> f a = f b \<and> R a b) (sort_key (f :: 'a \<Rightarrow> int) xs)"
  using assms
proof (induction xs)
  case (Cons x xs)
  let ?Q = "\<lambda>a b. f a < f b \<or> f a = f b \<and> R a b"
  have ins: "sorted_wrt ?Q (insort_key f x ys)"
    if "sorted_wrt ?Q ys" "\<forall>y \<in> set ys. R x y" for ys
    using that
  proof (induction ys)
    case (Cons y ys)
    then show ?case by (auto simp: set_insort_key)
  qed simp
  show ?case using Cons by (simp add: ins)
qed simp

definition entry_before :: "string \<Rightarrow> NodeEntry \<Rightarrow> NodeEntry \<Rightarrow> bool" where
  "entry_before mode a b \<longleftrightarrow>
     (if mode = Weak then e_Count a < e_Count b else e_Count b < e_Count a) \<or>
     e_Count a = e_Count b \<and> e_Numbers a < e_Numbers b"

lemma sortEntries_order:
  "ascending_entries es \<Longrightarrow> sorted_wrt (entry_before mode) (sortEntries mode es)"
  unfolding sortEntries_def ascending_entries_def
  by (drule sort_key_stable_wrt [where f = "\<lambda>e. if mode = Weak then e_Count e else - e_Count e"])
    (auto simp: entry_before_def elim!: sorted_wrt_mono_rel [rotated])

lemma set_sortEntries [simp]: "set (sortEntries mode es) = set es"
  and length_sortEntries [simp]: "length (sortEntries mode es) = length es"
  by (simp_all add: sortEntries_def)

text \<open>
  The complete functional description: the groups of the requested size with a positive count, each
  once with its count, by count and, among equal counts, in lexicographic order.
\<close>

definition groups_of :: "int \<Rightarrow> int list list \<Rightarrow> int \<Rightarrow> NodeEntry set" where
  "groups_of L data k =
     {e. int (length (e_Numbers e)) = k \<and> sorted_wrt (<) (e_Numbers e) \<and>
        set (e_Numbers e) \<subseteq> {1..L} \<and> 0 < e_Count e \<and> e_Count e = group_count data (e_Numbers e)}"

lemma CollectNodes_spec:
  assumes t: "tree_of L h data t" and k: "0 < k" "h < 0 \<or> k \<le> h"
  shows "sorted_wrt (entry_before mode) (CollectNodes t k mode)"
    and "set (CollectNodes t k mode) = groups_of L data k"
proof -
  obtain a where a: "Anchor t = Some a" "wf_node L a" "Num a = 0"
    and cnt: "\<And>p. p \<noteq> [] \<Longrightarrow> count_at a p = (if fits L 0 h p then group_count data p else 0)"
    using tree_of_anchor [OF t] by metis
  have eq: "CollectNodes t k mode = sortEntries mode (collectChildren (Next a) (k - 1) [] [])"
    using a(1) k(1) by (simp add: CollectNodes_def)
  show "sorted_wrt (entry_before mode) (CollectNodes t k mode)"
    unfolding eq using collectChildren_wf(1) [OF _ a(2)] k(1) by (simp add: sortEntries_order)
  have mem: "(\<exists>q m. e = \<lparr>e_Numbers = [] @ q, e_Count = Count m\<rparr> \<and> int (length q) = k - 1 + 1 \<and>
        node_at a q = Some m) \<longleftrightarrow> e \<in> groups_of L data k" for e
  proof -
    let ?p = "e_Numbers e"
    have ne: "?p \<noteq> []" if "int (length ?p) = k" using that k(1) by auto
    have "(\<exists>q m. e = \<lparr>e_Numbers = [] @ q, e_Count = Count m\<rparr> \<and> int (length q) = k - 1 + 1 \<and>
        node_at a q = Some m) \<longleftrightarrow>
        int (length ?p) = k \<and> (\<exists>m. node_at a ?p = Some m \<and> e_Count e = Count m)"
      by (cases e) auto
    also have "\<dots> \<longleftrightarrow> int (length ?p) = k \<and> e_Count e = count_at a ?p \<and> 0 < e_Count e"
      using node_at_iff [OF a(2), of ?p "e_Count e"] ne by blast
    also have "\<dots> \<longleftrightarrow> e \<in> groups_of L data k"
    proof (cases "int (length ?p) = k")
      case True
      then have "fits L 0 h ?p \<longleftrightarrow> sorted_wrt (<) ?p \<and> set ?p \<subseteq> {1..L}"
        using k(2) by (simp add: fits_iff subset_iff int_one_le_iff_zero_less Ball_def)
      then show ?thesis using True cnt [of ?p] ne by (auto simp: groups_of_def)
    qed (simp add: groups_of_def)
    finally show ?thesis .
  qed
  then show "set (CollectNodes t k mode) = groups_of L data k"
    unfolding eq set_sortEntries collectChildren_wf(2) [OF _ a(2), of "k - 1" "[]"] using k(1)
    by (subst collectChildren_wf(2) [OF _ a(2)]) auto
qed

lemma CollectNodes_distinct:
  assumes "tree_of L h data t" and "0 < k" "h < 0 \<or> k \<le> h"
  shows "distinct (CollectNodes t k mode)"
proof -
  have "\<not> entry_before mode e e" for e by (simp add: entry_before_def)
  then show ?thesis
    using CollectNodes_spec(1) [OF assms, of mode]
    by (metis (no_types, lifting) distinct_conv_nth nat_neq_iff sorted_wrt_nth_less)
qed

text \<open>On draws in strictly ascending order a group's count is the number of draws that contain it.\<close>

lemma group_count_ascending:
  assumes "\<forall>d \<in> set data. sorted_wrt (<) d" and "sorted_wrt (<) p"
  shows "group_count data p = int (length (filter (\<lambda>d. set p \<subseteq> set d) data))"
  using assms by (induction data) (auto simp: group_count_def occs_ascending)

end
