(* ===== verification/Combos.thy ===== *)
theory Combos
  imports Prelude
begin

unbundle bit_operations_syntax

section \<open>Combination masks, enumeration and binomial coefficients\<close>

text \<open>
  The set-valued helpers of \<open>internal/lottery-tree/lottery_archive.go\<close> (\<open>ComboMask\<close>,
  \<open>GenerateCombinations\<close>, \<open>binomialCount\<close>, \<open>Binomial\<close>) and the second copy of the enumeration
  in \<open>internal/services/simulate.go\<close> (\<open>generateCombinations\<close>). Both enumerations run the same
  endless loop over an index vector; \<open>combLoop\<close> is that loop, with \<open>None\<close> for not returning.
  \<open>combLoop_combs\<close> shows that it returns and yields \<open>combs\<close>. \<open>binomialCount\<close> is computed in
  64-bit arithmetic and equals the binomial coefficient while no product overflows.
\<close>

subsection \<open>ComboMask\<close>

fun maskLoop :: "int list \<Rightarrow> 64 word \<Rightarrow> 64 word" where
  "maskLoop [] m = m"
| "maskLoop (n # ns) m =
     maskLoop ns (if 0 < n \<and> n < 64 then m OR push_bit (nat n) 1 else m)"

definition ComboMask :: "int list \<Rightarrow> 64 word" where
  "ComboMask nums = maskLoop nums 0"

lemma bit_maskLoop:
  "bit (maskLoop ns m) i \<longleftrightarrow> bit m i \<or> (0 < i \<and> i < 64 \<and> int i \<in> set ns)"
proof (induction ns arbitrary: m)
  case (Cons n ns)
  have one: "bit (2 ^ nat n :: 64 word) i \<longleftrightarrow> int i = n" if "0 < n" "n < 64"
  proof -
    have "bit (2 ^ nat n :: 64 word) i \<longleftrightarrow> i < 64 \<and> nat n = i"
      by (simp add: bit_exp_iff possible_bit_word) auto
    with that show ?thesis by linarith
  qed
  show ?case
    by (cases "0 < n \<and> n < 64") (auto simp: bit_or_iff Cons.IH one)
qed simp

lemma bit_ComboMask: "bit (ComboMask ns) i \<longleftrightarrow> 0 < i \<and> i < 64 \<and> int i \<in> set ns"
  by (simp add: ComboMask_def bit_maskLoop)

text \<open>Two masks are equal exactly when the lists hold the same numbers among 1..63.\<close>

lemma ComboMask_eq_iff: "ComboMask a = ComboMask b \<longleftrightarrow> set a \<inter> {1..63} = set b \<inter> {1..63}"
proof
  assume eq: "ComboMask a = ComboMask b"
  have "n \<in> set a \<longleftrightarrow> n \<in> set b" if "1 \<le> n" "n \<le> 63" for n
  proof -
    from that have "0 < nat n" "nat n < 64" "int (nat n) = n" by linarith+
    then show ?thesis using bit_ComboMask [of a "nat n"] bit_ComboMask [of b "nat n"] eq by simp
  qed
  then show "set a \<inter> {1..63} = set b \<inter> {1..63}" by auto
next
  assume eq: "set a \<inter> {1..63} = set b \<inter> {1..63}"
  have "bit (ComboMask a) i \<longleftrightarrow> bit (ComboMask b) i" for i
  proof (cases "0 < i \<and> i < 64")
    case True
    then have "int i \<in> {1..63}" by auto
    with eq have "int i \<in> set a \<longleftrightarrow> int i \<in> set b" by blast
    then show ?thesis by (simp add: bit_ComboMask)
  qed (auto simp: bit_ComboMask)
  then show "ComboMask a = ComboMask b" by (simp add: bit_eq_iff)
qed

lemma ComboMask_set: "set a = set b \<Longrightarrow> ComboMask a = ComboMask b"
  by (simp add: ComboMask_eq_iff)

lemma ComboMask_inj:
  "set a \<subseteq> {1..63} \<Longrightarrow> set b \<subseteq> {1..63} \<Longrightarrow> ComboMask a = ComboMask b \<longleftrightarrow> set a = set b"
  by (simp add: ComboMask_eq_iff inf.absorb1)

subsection \<open>The enumeration loop\<close>

text \<open>The scan \<open>for i >= 0 && indices[i] == n-k+i\<close>; its counter is one above the source's.\<close>

fun scanBack :: "nat list \<Rightarrow> nat \<Rightarrow> nat \<Rightarrow> nat \<Rightarrow> nat option" where
  "scanBack indices n k 0 = None"
| "scanBack indices n k (Suc i) =
     (if indices ! i = n - k + i then scanBack indices n k i else Some i)"

function fillFrom :: "nat list \<Rightarrow> nat \<Rightarrow> nat \<Rightarrow> nat list" where
  "fillFrom indices j k =
     (if j < k then fillFrom (indices[j := indices ! (j - 1) + 1]) (Suc j) k else indices)"
  by pat_completeness auto
termination
  by (relation "measure (\<lambda>(_, j, k). k - j)") auto

declare fillFrom.simps [simp del]

definition advance :: "nat list \<Rightarrow> nat \<Rightarrow> nat \<Rightarrow> nat list option" where
  "advance indices n k =
     (case scanBack indices n k k of
        None \<Rightarrow> None
      | Some i \<Rightarrow> Some (fillFrom (indices[i := indices ! i + 1]) (Suc i) k))"

partial_function (option) combLoop ::
  "'a list \<Rightarrow> nat \<Rightarrow> nat \<Rightarrow> nat list \<Rightarrow> 'a list list \<Rightarrow> 'a list list option" where
  "combLoop numbers n k indices result =
     (case advance indices n k of
        None \<Rightarrow> Some (result @ [map ((!) numbers) indices])
      | Some indices' \<Rightarrow>
          combLoop numbers n k indices' (result @ [map ((!) numbers) indices]))"

subsection \<open>The loop enumerates \<open>combs\<close>\<close>

declare upt_Suc [simp del]

text \<open>The same step by recursion over the vector.\<close>

fun succ_comb :: "nat \<Rightarrow> nat list \<Rightarrow> nat list option" where
  "succ_comb n [] = None"
| "succ_comb n (x # v) =
     (case succ_comb n v of
        Some w \<Rightarrow> Some (x # w)
      | None \<Rightarrow>
          if x = n - Suc (length v) then None else Some [Suc x..<Suc x + Suc (length v)])"

lemma fillFrom_eq:
  "j \<le> k \<Longrightarrow> length v = k \<Longrightarrow> j = Suc i \<Longrightarrow>
   fillFrom v j k = take j v @ [Suc (v ! i)..<Suc (v ! i) + (k - j)]"
proof (induction v j k arbitrary: i rule: fillFrom.induct)
  case (1 v j k)
  show ?case
  proof (cases "j < k")
    case True
    let ?v = "v[j := v ! (j - 1) + 1]"
    have "fillFrom v j k = fillFrom ?v (Suc j) k"
      using True by (subst fillFrom.simps) simp
    also have "\<dots> = take (Suc j) ?v @ [Suc (?v ! j)..<Suc (?v ! j) + (k - Suc j)]"
      using "1.IH" [OF True _ _ refl] "1.prems" True by simp
    also have "\<dots> = take j v @ Suc (v ! i) # [Suc (Suc (v ! i))..<Suc (Suc (v ! i)) + (k - Suc j)]"
      using True "1.prems" by (simp add: take_Suc_conv_app_nth)
    also have "Suc (v ! i) # [Suc (Suc (v ! i))..<Suc (Suc (v ! i)) + (k - Suc j)] =
        [Suc (v ! i)..<Suc (v ! i) + (k - j)]"
      using True by (subst upt_rec [of "Suc (v ! i)"]) (simp add: Suc_diff_Suc)
    finally show ?thesis .
  next
    case False
    then show ?thesis using "1.prems" by (subst fillFrom.simps) simp
  qed
qed

lemma scanBack_Cons:
  "Suc k \<le> n \<Longrightarrow> i \<le> k \<Longrightarrow>
   scanBack (x # v) n (Suc k) (Suc i) =
     (case scanBack v n k i of
        Some j \<Rightarrow> Some (Suc j)
      | None \<Rightarrow> if x = n - Suc k then None else Some 0)"
proof (induction i)
  case (Suc i)
  then have "n - Suc k + Suc i = n - k + i" by simp
  with Suc show ?case by (auto simp del: add_Suc_right)
qed simp

lemma scanBack_less: "scanBack v n k i = Some j \<Longrightarrow> j < i"
  by (induction v n k i rule: scanBack.induct) (auto split: if_splits intro: less_SucI)

lemma advance_succ: "length v = k \<Longrightarrow> k \<le> n \<Longrightarrow> advance v n k = succ_comb n v"
proof (induction v arbitrary: k)
  case (Cons x v)
  let ?k = "length v"
  have IH: "advance v n ?k = succ_comb n v" using Cons by simp
  have k: "k = Suc ?k" "Suc ?k \<le> n" using Cons.prems by auto
  show ?case
  proof (cases "scanBack v n ?k ?k")
    case None
    then have "succ_comb n v = None" using IH by (simp add: advance_def)
    then show ?thesis using None k
      by (auto simp: advance_def scanBack_Cons fillFrom_eq upt_conv_Cons simp del: scanBack.simps)
  next
    case (Some j)
    then have j: "j < ?k" by (rule scanBack_less)
    from Some IH have "succ_comb n v = Some (fillFrom (v[j := v ! j + 1]) (Suc j) ?k)"
      by (simp add: advance_def)
    then show ?thesis using Some j k
      by (simp add: advance_def scanBack_Cons fillFrom_eq del: scanBack.simps)
  qed
qed (simp add: advance_def)

fun chain :: "nat \<Rightarrow> nat list list \<Rightarrow> bool" where
  "chain n [] = False"
| "chain n [v] = (succ_comb n v = None)"
| "chain n (v # w # L) = (succ_comb n v = Some w \<and> chain n (w # L))"

lemma chain_map_append:
  assumes "chain n L" and "\<forall>v \<in> set L. length v = k" and "a \<noteq> n - Suc k"
    and "chain n M" and "hd M = [Suc a..<Suc a + Suc k]"
  shows "chain n (map ((#) a) L @ M)"
  using assms(1,2)
proof (induction L)
  case (Cons v L)
  then show ?case using assms(3-) by (cases L) (cases M, auto)+
qed simp

lemma chain_map:
  assumes "chain n L" and "\<forall>v \<in> set L. length v = k" and "a = n - Suc k"
  shows "chain n (map ((#) a) L)"
  using assms(1,2)
proof (induction L)
  case (Cons v L)
  then show ?case using assms(3) by (cases L) auto
qed simp

lemma hd_combs: "k \<le> n - a \<Longrightarrow> a \<le> n \<Longrightarrow> combs k [a..<n] \<noteq> [] \<and> hd (combs k [a..<n]) = [a..<a + k]"
proof (induction k arbitrary: a)
  case (Suc k)
  then have "[a..<n] = a # [Suc a..<n]" by (simp add: upt_conv_Cons)
  moreover have "combs k [Suc a..<n] \<noteq> [] \<and> hd (combs k [Suc a..<n]) = [Suc a..<Suc a + k]"
    using Suc.prems by (intro Suc.IH) auto
  ultimately show ?case using upt_conv_Cons [of a "a + Suc k"] by (simp add: hd_map)
qed simp

lemma chain_combs: "k \<le> n - a \<Longrightarrow> a \<le> n \<Longrightarrow> chain n (combs k [a..<n])"
proof (induction "n - a" arbitrary: a k)
  case 0
  then show ?case by simp
next
  case (Suc m)
  then have up: "[a..<n] = a # [Suc a..<n]" by (simp add: upt_conv_Cons)
  show ?case
  proof (cases k)
    case (Suc k')
    have L: "chain n (combs k' [Suc a..<n])" using Suc.hyps Suc.prems Suc by auto
    have len: "\<forall>v \<in> set (combs k' [Suc a..<n]). length v = k'" by (auto dest: combs_length)
    show ?thesis
    proof (cases "a = n - Suc k'")
      case True
      then have "combs (Suc k') [Suc a..<n] = []" using Suc.prems Suc by (intro combs_eq_Nil) auto
      then show ?thesis using chain_map [OF L len True] Suc up by simp
    next
      case False
      have "chain n (combs (Suc k') [Suc a..<n])"
        using Suc.hyps(1) [of "Suc a" "Suc k'"] Suc.hyps(2) Suc.prems Suc False by auto
      then show ?thesis
        using chain_map_append [OF L len False] hd_combs [of "Suc k'" n "Suc a"] Suc up Suc.prems False
        by (simp)
    qed
  qed simp
qed

lemma combLoop_chain:
  "chain n (v # L) \<Longrightarrow> \<forall>w \<in> set (v # L). length w = k \<Longrightarrow> k \<le> n \<Longrightarrow>
   combLoop numbers n k v res = Some (res @ map (map ((!) numbers)) (v # L))"
proof (induction L arbitrary: v res)
  case Nil
  then show ?case by (simp add: combLoop.simps advance_succ)
next
  case (Cons w L)
  then show ?case by (subst combLoop.simps) (simp add: advance_succ)
qed

declare combLoop.simps [code]

theorem combLoop_combs:
  assumes "n = length numbers" and "k \<le> n"
  shows "combLoop numbers n k [0..<k] [] = Some (combs k numbers)"
proof -
  obtain L where L: "combs k [0..<n] = [0..<k] # L"
    using hd_combs [of k n 0] assms by (cases "combs k [0..<n]") auto
  then have "chain n ([0..<k] # L)" "\<forall>w \<in> set ([0..<k] # L). length w = k"
    using chain_combs [of k n 0] assms(2) combs_length [of _ k "[0..<n]"] by (auto simp: L)
  then have "combLoop numbers n k [0..<k] [] = Some (map (map ((!) numbers)) (combs k [0..<n]))"
    using combLoop_chain [of n "[0..<k]" L k numbers "[]"] assms(2) L by simp
  then show ?thesis using combs_nth [of k numbers] assms(1) by simp
qed

declare upt_Suc [simp]

subsection \<open>Binomial coefficients\<close>

text \<open>\<open>result * (n - i) / (i + 1)\<close> in 64-bit arithmetic; \<open>m\<close> iterations are left.\<close>

fun binomLoop :: "int \<Rightarrow> nat \<Rightarrow> nat \<Rightarrow> int \<Rightarrow> int" where
  "binomLoop n i 0 result = result"
| "binomLoop n i (Suc m) result =
     binomLoop n (Suc i) m (go_div (int64 (result * (n - int i))) (int i + 1))"

definition binomialCount :: "int \<Rightarrow> int \<Rightarrow> int" where
  "binomialCount n k =
     (if k < 0 \<or> k > n \<or> n < 0 then 0
      else if k = 0 \<or> k = n then 1
      else let k = (if k > n - k then n - k else k) in binomLoop n 0 (nat k) 1)"

definition Binomial :: "int \<Rightarrow> int \<Rightarrow> int" where
  "Binomial n k = binomialCount n k"

lemma binomial_step: "(n choose i) * (n - i) = (n choose Suc i) * Suc i"
  using binomial_absorb_comp [of n i] binomial_absorption [of i n] Suc_times_binomial_eq
  by (metis (no_types, lifting) binomial_absorb_comp binomial_absorption mult.commute)

lemma binomLoop_correct:
  "i + m \<le> n \<Longrightarrow> \<forall>j < i + m. int ((n choose j) * (n - j)) < 2 ^ 63 \<Longrightarrow>
   binomLoop (int n) i m (int (n choose i)) = int (n choose (i + m))"
proof (induction m arbitrary: i)
  case (Suc m)
  then have i: "i < n" by simp
  have prod: "int (n choose i) * (int n - int i) = int ((n choose i) * (n - i))"
    using i by (simp add: of_nat_diff)
  have "int64 (int (n choose i) * (int n - int i)) = int ((n choose Suc i) * Suc i)"
  proof -
    have "int ((n choose i) * (n - i)) < 2 ^ 63" using Suc.prems(2) by auto
    then have "int64 (int ((n choose i) * (n - i))) = int ((n choose i) * (n - i))"
      by (intro int64_id) linarith+
    then show ?thesis unfolding prod binomial_step .
  qed
  moreover have "go_div (int ((n choose Suc i) * Suc i)) (int i + 1) = int (n choose Suc i)"
  proof -
    have "int ((n choose Suc i) * Suc i) = int (n choose Suc i) * (int i + 1)"
      by (simp add: algebra_simps)
    moreover have "go_div (int (n choose Suc i) * (int i + 1)) (int i + 1) = int (n choose Suc i)"
      by (subst go_div_nonneg) auto
    ultimately show ?thesis by simp
  qed
  ultimately have "binomLoop (int n) i (Suc m) (int (n choose i)) =
      binomLoop (int n) (Suc i) m (int (n choose Suc i))"
    by simp
  also have "\<dots> = int (n choose (Suc i + m))" using Suc.prems by (intro Suc.IH) auto
  finally show ?case by simp
qed simp

text \<open>No product overflows on the way; \<open>binomial_safe\<close> follows from either bound below.\<close>

definition binomial_safe :: "nat \<Rightarrow> nat \<Rightarrow> bool" where
  "binomial_safe n k \<longleftrightarrow> (\<forall>j < min k (n - k). int ((n choose j) * (n - j)) < 2 ^ 63)"

lemma binomialCount_correct:
  assumes "binomial_safe n k"
  shows "binomialCount (int n) (int k) = int (n choose k)"
proof (cases "n < k \<or> k = 0 \<or> k = n")
  case True
  then show ?thesis by (auto simp: binomialCount_def)
next
  case False
  then have k: "0 < k" "k < n" by auto
  let ?k = "min k (n - k)"
  have "binomLoop (int n) 0 ?k (int (n choose 0)) = int (n choose (0 + ?k))"
    using assms by (intro binomLoop_correct) (auto simp: binomial_safe_def)
  moreover have "n choose ?k = n choose k" using k binomial_symmetric [of k n] by (simp add: min_def)
  moreover have "nat (if int k > int n - int k then int n - int k else int k) = ?k" using k by auto
  ultimately show ?thesis using k by (simp add: binomialCount_def Let_def)
qed

lemma binomial_le_power2: "n choose j \<le> 2 ^ n"
proof (cases "j \<le> n")
  case True
  have "n choose j \<le> (\<Sum>i\<le>n. n choose i)"
    using True by (intro member_le_sum) auto
  then show ?thesis by (simp add: choose_row_sum)
qed (simp add: binomial_eq_0)

lemma binomial_safe_57:
  assumes "n \<le> 57"
  shows "binomial_safe n k"
  unfolding binomial_safe_def
proof (intro allI impI)
  fix j
  have "(n choose j) * (n - j) \<le> 2 ^ n * n"
    using binomial_le_power2 [of n j] by (intro mult_le_mono) auto
  also have "\<dots> \<le> 2 ^ 57 * 57" using assms by (intro mult_le_mono power_increasing) auto
  finally have "int ((n choose j) * (n - j)) \<le> int (2 ^ 57 * 57)" by (simp only: of_nat_le_iff)
  then show "int ((n choose j) * (n - j)) < 2 ^ 63" by simp
qed

lemma binomial_safe_power:
  assumes "int (n ^ k) < 2 ^ 63" and "0 < n"
  shows "binomial_safe n k"
  unfolding binomial_safe_def
proof (intro allI impI)
  fix j assume j: "j < min k (n - k)"
  then have "(n choose j) * (n - j) \<le> n ^ j * n"
    by (intro mult_le_mono binomial_le_pow) auto
  also have "\<dots> = n ^ Suc j" by simp
  also have "\<dots> \<le> n ^ k" using j assms(2) by (intro power_increasing) auto
  finally have "int ((n choose j) * (n - j)) \<le> int (n ^ k)" by (simp only: of_nat_le_iff)
  with assms(1) show "int ((n choose j) * (n - j)) < 2 ^ 63" by linarith
qed

subsection \<open>The two enumerations\<close>

text \<open>\<open>make([][]int, 0, c)\<close> panics when the capacity \<open>c\<close> is negative.\<close>

definition GenerateCombinations :: "'a list \<Rightarrow> int \<Rightarrow> 'a list list option" where
  "GenerateCombinations numbers k =
     (let n = int (length numbers) in
      if k > n \<or> k \<le> 0 then Some []
      else if k = n then Some [numbers]
      else if binomialCount n k < 0 then None
      else combLoop numbers (nat n) (nat k) [0..<nat k] [])"

definition generateCombinations :: "'a list \<Rightarrow> int \<Rightarrow> 'a list list option" where
  "generateCombinations numbers k =
     (let n = int (length numbers) in
      if k > n \<or> k \<le> 0 then Some []
      else if k = n then Some [numbers]
      else combLoop numbers (nat n) (nat k) [0..<nat k] [])"

lemma generateCombinations_combs:
  "generateCombinations numbers k = Some (if 0 < k then combs (nat k) numbers else [])"
proof -
  consider "k \<le> 0 \<or> int (length numbers) < k" | "k = int (length numbers)" "0 < k"
    | "0 < k" "k < int (length numbers)" by linarith
  then show ?thesis
  proof cases
    case 1
    then show ?thesis by (auto simp: generateCombinations_def combs_eq_Nil)
  next
    case 2
    then show ?thesis by (auto simp: generateCombinations_def combs_full)
  next
    case 3
    then have "nat k \<le> length numbers" by linarith
    with 3 show ?thesis by (simp add: generateCombinations_def Let_def combLoop_combs)
  qed
qed

lemma GenerateCombinations_combs:
  assumes "binomial_safe (length numbers) (nat k)"
  shows "GenerateCombinations numbers k = Some (if 0 < k then combs (nat k) numbers else [])"
proof -
  have "0 \<le> binomialCount (int (length numbers)) k" if "0 < k"
    using binomialCount_correct [OF assms] that by simp
  then have "GenerateCombinations numbers k = generateCombinations numbers k"
    by (auto simp: GenerateCombinations_def generateCombinations_def Let_def)
  then show ?thesis by (simp add: generateCombinations_combs)
qed

end
