(* ===== verification/Go_Float.thy ===== *)
theory Go_Float
  imports Prelude "HOL-Library.Log_Nat"
begin

section \<open>Go's float64\<close>

text \<open>
  The prize amounts, costs and the heat index are \<open>float64\<close> values. A value here is a NaN, an
  infinity or a finite rational; every operation computes the exact rational result and rounds it
  to the nearest binary64 value, ties to even, with subnormals and overflow to infinity. The sign
  of zero is not represented: the source never divides by a zero (its divisors are tested positive
  or are positive constants), so it is not observable in the computation.

  The lemma used by the components is exactness: on integers below \<open>2 ^ 53\<close> in absolute value the
  operations do not round.
\<close>

datatype f64 = NaN | Inf bool | Fin rat

definition pow2 :: "int \<Rightarrow> rat" where
  "pow2 e = (if 0 \<le> e then 2 ^ nat e else 1 / 2 ^ nat (- e))"

text \<open>The exponent \<open>e\<close> with \<open>pow2 e \<le> \<bar>x\<bar> < pow2 (e + 1)\<close>, from the bit lengths of the fraction.\<close>

definition expo :: "rat \<Rightarrow> int" where
  "expo x = (let (a, b) = quotient_of \<bar>x\<bar>; e = bitlen a - bitlen b in
     if pow2 e \<le> \<bar>x\<bar> then e else e - 1)"

definition round_even :: "rat \<Rightarrow> int" where
  "round_even y = (let f = \<lfloor>y\<rfloor>; d = y - of_int f in
     if d < 1 / 2 then f else if 1 / 2 < d then f + 1 else if even f then f else f + 1)"

definition round64 :: "rat \<Rightarrow> f64" where
  "round64 x =
     (let q = max (expo x - 52) (- 1074);
          r = sgn x * of_int (round_even (\<bar>x\<bar> / pow2 q)) * pow2 q
      in if pow2 1024 \<le> \<bar>r\<bar> then Inf (0 < x) else Fin r)"

definition f64_of_int :: "int \<Rightarrow> f64" where
  "f64_of_int n = round64 (of_int n)"

fun fadd :: "f64 \<Rightarrow> f64 \<Rightarrow> f64" where
  "fadd NaN _ = NaN"
| "fadd _ NaN = NaN"
| "fadd (Inf s) (Inf t) = (if s = t then Inf s else NaN)"
| "fadd (Inf s) (Fin _) = Inf s"
| "fadd (Fin _) (Inf t) = Inf t"
| "fadd (Fin x) (Fin y) = round64 (x + y)"

fun fneg :: "f64 \<Rightarrow> f64" where
  "fneg NaN = NaN"
| "fneg (Inf s) = Inf (\<not> s)"
| "fneg (Fin x) = Fin (- x)"

definition fsub :: "f64 \<Rightarrow> f64 \<Rightarrow> f64" where
  "fsub x y = fadd x (fneg y)"

fun fmul :: "f64 \<Rightarrow> f64 \<Rightarrow> f64" where
  "fmul NaN _ = NaN"
| "fmul _ NaN = NaN"
| "fmul (Inf s) (Inf t) = Inf (s = t)"
| "fmul (Inf s) (Fin y) = (if y = 0 then NaN else Inf (s = (0 < y)))"
| "fmul (Fin x) (Inf t) = (if x = 0 then NaN else Inf (t = (0 < x)))"
| "fmul (Fin x) (Fin y) = round64 (x * y)"

fun fdiv :: "f64 \<Rightarrow> f64 \<Rightarrow> f64" where
  "fdiv NaN _ = NaN"
| "fdiv _ NaN = NaN"
| "fdiv (Inf s) (Inf t) = NaN"
| "fdiv (Inf s) (Fin y) = Inf (s = (0 \<le> y))"
| "fdiv (Fin x) (Inf t) = Fin 0"
| "fdiv (Fin x) (Fin y) =
     (if y = 0 then (if x = 0 then NaN else Inf (0 < x)) else round64 (x / y))"

text \<open>\<open>x < y\<close> and \<open>x <= y\<close>; every comparison with a NaN is false.\<close>

fun flt :: "f64 \<Rightarrow> f64 \<Rightarrow> bool" where
  "flt NaN _ = False"
| "flt _ NaN = False"
| "flt (Inf s) (Inf t) = (\<not> s \<and> t)"
| "flt (Inf s) (Fin _) = (\<not> s)"
| "flt (Fin _) (Inf t) = t"
| "flt (Fin x) (Fin y) = (x < y)"

fun fle :: "f64 \<Rightarrow> f64 \<Rightarrow> bool" where
  "fle NaN _ = False"
| "fle _ NaN = False"
| "fle (Inf s) (Inf t) = (s \<longrightarrow> t)"
| "fle (Inf s) (Fin _) = (\<not> s)"
| "fle (Fin _) (Inf t) = t"
| "fle (Fin x) (Fin y) = (x \<le> y)"

subsection \<open>Exactness on small integers\<close>

lemma pow2_pos [simp]: "0 < pow2 e"
  by (simp add: pow2_def)

lemma round_even_int [simp]: "round_even (of_int n) = n"
  by (simp add: round_even_def)

lemma expo_int: "\<bar>n\<bar> < 2 ^ 53 \<Longrightarrow> expo (of_int n) \<le> 52"
proof -
  assume n: "\<bar>n\<bar> < 2 ^ 53"
  have "quotient_of \<bar>of_int n\<bar> = (\<bar>n\<bar>, 1)"
    using quotient_of_int [of "\<bar>n\<bar>"] by (simp only: Rat.of_int_def of_int_abs)
  moreover have "bitlen \<bar>n\<bar> \<le> 53" using n bitlen_le_iff_power [of "\<bar>n\<bar>" 53] by simp
  moreover have "bitlen (1::int) = 1" by (simp add: bitlen_def floorlog_def)
  ultimately show ?thesis by (simp add: expo_def Let_def)
qed

lemma round64_int: "\<bar>n\<bar> < 2 ^ 53 \<Longrightarrow> round64 (of_int n) = Fin (of_int n)"
proof -
  assume n: "\<bar>n\<bar> < 2 ^ 53"
  define q where "q = max (expo (of_int n) - 52) (- 1074)"
  have q: "q \<le> 0" using expo_int [OF n] by (simp add: q_def)
  have p: "pow2 q = 1 / 2 ^ nat (- q)" using q by (auto simp: pow2_def)
  have "\<bar>of_int n\<bar> / pow2 q = (of_int (\<bar>n\<bar> * 2 ^ nat (- q)) :: rat)" by (simp add: p)
  then have "sgn (of_int n) * of_int (round_even (\<bar>of_int n\<bar> / pow2 q)) * pow2 q =
      sgn (of_int n) * \<bar>of_int n :: rat\<bar>"
    by (simp only: round_even_int) (simp add: p)
  then have "sgn (of_int n) * of_int (round_even (\<bar>of_int n\<bar> / pow2 q)) * pow2 q = (of_int n :: rat)"
    by (simp only: sgn_mult_abs)
  moreover have "\<bar>of_int n :: rat\<bar> < pow2 1024"
  proof -
    have "\<bar>of_int n :: rat\<bar> < of_int (2 ^ 53)" using n by (simp only: of_int_abs [symmetric] of_int_less_iff)
    also have "\<dots> \<le> pow2 1024" by (simp add: pow2_def)
    finally show ?thesis .
  qed
  ultimately show ?thesis by (simp add: round64_def q_def [symmetric] Let_def)
qed

lemma f64_of_int_exact: "\<bar>n\<bar> < 2 ^ 53 \<Longrightarrow> f64_of_int n = Fin (of_int n)"
  by (simp add: f64_of_int_def round64_int)

abbreviation fint :: "int \<Rightarrow> f64" where
  "fint n \<equiv> Fin (of_int n)"

lemma fadd_int: "\<bar>a + b\<bar> < 2 ^ 53 \<Longrightarrow> fadd (fint a) (fint b) = fint (a + b)"
  using round64_int [of "a + b"] by simp

lemma fsub_int: "\<bar>a - b\<bar> < 2 ^ 53 \<Longrightarrow> fsub (fint a) (fint b) = fint (a - b)"
  using round64_int [of "a - b"] by (simp add: fsub_def)

lemma fmul_int: "\<bar>a * b\<bar> < 2 ^ 53 \<Longrightarrow> fmul (fint a) (fint b) = fint (a * b)"
  using round64_int [of "a * b"] by simp

lemma flt_int [simp]: "flt (fint a) (fint b) \<longleftrightarrow> a < b"
  and fle_int [simp]: "fle (fint a) (fint b) \<longleftrightarrow> a \<le> b"
  by simp_all

text \<open>Sign of a rounded product or quotient, and rounding of zero.\<close>

lemma round64_0 [simp]: "round64 0 = Fin 0"
  using round64_int [of 0] by simp

end
