(* ===== verification/Models.thy ===== *)
theory Models
  imports Prelude Go_Float
begin

section \<open>Data shared by the services (models, utils)\<close>

text \<open>
  \<open>internal/models/lottery_result.go\<close>: one row of \<open>lottery_results\<close> and the reference used by the
  prize backfill. A nil \<open>PrizeAmounts\<close> slice (SQL NULL) is \<open>None\<close>. \<open>internal/utils/convert.go\<close>: the
  conversions between the \<open>int\<close> lists of the tree and the \<open>int32\<close> lists of the messages.
\<close>

record LotteryResult =
  ID :: int
  DrawNumber :: int
  DrawDate :: time
  d_Numbers :: "int list"
  d_Strong :: int
  d_LotteryType :: string
  PrizeAmounts :: "f64 list option"
  CreatedAt :: time
  UpdatedAt :: time

record DrawRef =
  r_DrawNumber :: int
  r_DrawDate :: time

definition IntsToInt32s :: "int list \<Rightarrow> int list" where
  "IntsToInt32s xs = map int32 xs"

text \<open>An \<open>int32\<close> is already in range, so widening keeps its value.\<close>

definition Int32sToInts :: "int list \<Rightarrow> int list" where
  "Int32sToInts xs = map (\<lambda>v. v) xs"

fun IntsToInt32sFiltered :: "int list \<Rightarrow> int list" where
  "IntsToInt32sFiltered [] = []"
| "IntsToInt32sFiltered (v # vs) =
     (if 0 < v then int32 v # IntsToInt32sFiltered vs else IntsToInt32sFiltered vs)"

definition in_int32 :: "int \<Rightarrow> bool" where
  "in_int32 x \<longleftrightarrow> - (2 ^ 31) \<le> x \<and> x < 2 ^ 31"

lemma int32_in: "in_int32 x \<Longrightarrow> int32 x = x"
  by (simp add: in_int32_def int32_id)

lemma in_int32_int32: "in_int32 (int32 x)"
  using signed_take_bit_int_greater_eq_minus_exp [of 31 x] signed_take_bit_int_less_exp [of 31 x]
  by (simp add: in_int32_def int32_def)

lemma convert_roundtrip:
  "\<forall>v \<in> set xs. in_int32 v \<Longrightarrow> Int32sToInts (IntsToInt32s xs) = xs"
  by (simp add: Int32sToInts_def IntsToInt32s_def int32_in map_idI)

lemma IntsToInt32sFiltered_filter:
  "IntsToInt32sFiltered xs = IntsToInt32s (filter (\<lambda>v. 0 < v) xs)"
  by (induction xs) (auto simp: IntsToInt32s_def)

text \<open>A draw for the concrete instances of the properties.\<close>

definition sample_draw :: "int \<Rightarrow> int list \<Rightarrow> int \<Rightarrow> LotteryResult" where
  "sample_draw n ns s =
     \<lparr>ID = n, DrawNumber = n, DrawDate = 0, d_Numbers = ns, d_Strong = s, d_LotteryType = ''lottery'',
      PrizeAmounts = None, CreatedAt = 0, UpdatedAt = 0\<rparr>"

end
