(* ===== verification/Archive.thy ===== *)
theory Archive
  imports Lo_Tree Combos Models
begin

section \<open>The archive of a date window (lottery_archive.go)\<close>

text \<open>
  \<open>internal/lottery-tree/lottery_archive.go\<close>: the immutable archive built from the draws of one
  window, and its read-only queries. \<open>archive_of\<close> states what every query relies on: the two trees
  hold the group counts of the draws and the winning set holds the masks of the complete draws.
  \<open>NewLotteryArchive_ok\<close> shows that construction never panics and establishes it.
\<close>

definition maxGroupSize :: int where "maxGroupSize = 6"
definition maxStrong :: int where "maxStrong = 7"
definition MaxInt32 :: int where "MaxInt32 = 2147483647"

record LotteryArchive =
  a_Lottery :: LotteryType
  a_From :: time
  a_To :: time
  Draws :: "LotteryResult list"
  a_Numbers :: "int list list"
  a_Strongs :: "int list list"
  WinningCombos :: "(64 word \<times> bool) list"
  a_Tree :: "LoTree option"
  StrongTree :: "LoTree option"

definition MaxNumberOf :: "LotteryType \<Rightarrow> int" where
  "MaxNumberOf l = (if l = TripleSeven then 70 else if l = OneTwoThree then 10 else 37)"

definition MaxNumber :: "LotteryArchive \<Rightarrow> int" where
  "MaxNumber a = MaxNumberOf (a_Lottery a)"

definition ArchiveSize :: "LotteryArchive \<Rightarrow> int" where
  "ArchiveSize a = int (length (Draws a))"

subsection \<open>Construction\<close>

text \<open>
  The constructor's loop over the draws: the number rows, the strong rows and the winning masks.
  A Go map is an association list with distinct keys.
\<close>

fun archiveLoop ::
  "LotteryResult list \<Rightarrow> int list list \<Rightarrow> int list list \<Rightarrow> (64 word \<times> bool) list \<Rightarrow>
   int list list \<times> int list list \<times> (64 word \<times> bool) list" where
  "archiveLoop [] numbers strongs combos = (numbers, strongs, combos)"
| "archiveLoop (d # ds) numbers strongs combos =
     archiveLoop ds (numbers @ [d_Numbers d]) (strongs @ [[d_Strong d]])
       (if 6 \<le> length (d_Numbers d)
        then AList.update (ComboMask (sort (take 6 (d_Numbers d)))) True combos
        else combos)"

definition NewLotteryArchive ::
  "LotteryType \<Rightarrow> time \<Rightarrow> time \<Rightarrow> LotteryResult list \<Rightarrow> LotteryArchive option" where
  "NewLotteryArchive lottery from to draws =
     (let (numbers, strongs, combos) = archiveLoop draws [] [] [] in
      Option.bind (NewLoTree (MaxNumberOf lottery)) (\<lambda>t.
      Option.bind (BuildTree t numbers maxGroupSize) (\<lambda>t.
      Option.bind (NewLoTree (maxStrong + 2)) (\<lambda>s.
      Option.bind (BuildTree s strongs 1) (\<lambda>s.
        Some \<lparr>a_Lottery = lottery, a_From = from, a_To = to, Draws = draws,
          a_Numbers = numbers, a_Strongs = strongs, WinningCombos = combos,
          a_Tree = Some t, StrongTree = Some s\<rparr>)))))"

text \<open>Reading a missing key of a Go map gives the zero value, here \<open>false\<close>.\<close>

definition map_get :: "('k \<times> bool) list \<Rightarrow> 'k \<Rightarrow> bool" where
  "map_get m k = (case map_of m k of None \<Rightarrow> False | Some b \<Rightarrow> b)"

definition HasWon :: "LotteryArchive \<Rightarrow> int list \<Rightarrow> bool" where
  "HasWon a combo =
     (if length (WinningCombos a) = 0 then False else map_get (WinningCombos a) (ComboMask combo))"

text \<open>The complete draws, as sets: what \<open>HasWon\<close> is about.\<close>

definition winning_sets :: "LotteryResult list \<Rightarrow> int set set" where
  "winning_sets draws = {set (take 6 (d_Numbers d)) | d. d \<in> set draws \<and> 6 \<le> length (d_Numbers d)}"

definition archive_of :: "LotteryType \<Rightarrow> LotteryResult list \<Rightarrow> LotteryArchive \<Rightarrow> bool" where
  "archive_of lottery draws a \<longleftrightarrow>
     a_Lottery a = lottery \<and> Draws a = draws \<and> a_Numbers a = map d_Numbers draws \<and>
     (\<exists>t s. a_Tree a = Some t \<and> StrongTree a = Some s \<and>
        tree_of (MaxNumberOf lottery) maxGroupSize (map d_Numbers draws) t \<and>
        tree_of (maxStrong + 2) 1 (map (\<lambda>d. [d_Strong d]) draws) s) \<and>
     (\<forall>m. map_get (WinningCombos a) m \<longleftrightarrow>
        (\<exists>d \<in> set draws. 6 \<le> length (d_Numbers d) \<and> m = ComboMask (take 6 (d_Numbers d))))"

lemma archiveLoop_eq:
  "\<exists>c. archiveLoop ds ns ss cs = (ns @ map d_Numbers ds, ss @ map (\<lambda>d. [d_Strong d]) ds, c) \<and>
     (\<forall>m. map_get c m \<longleftrightarrow> map_get cs m \<or>
        (\<exists>d \<in> set ds. 6 \<le> length (d_Numbers d) \<and> m = ComboMask (take 6 (d_Numbers d))))"
proof (induction ds arbitrary: ns ss cs)
  case (Cons d ds)
  have up: "map_get (AList.update k True cs) m \<longleftrightarrow> map_get cs m \<or> m = k" for k m
    by (simp add: map_get_def update_conv)
  have "ComboMask (sort (take 6 (d_Numbers d))) = ComboMask (take 6 (d_Numbers d))"
    by (rule ComboMask_set) simp
  then show ?case
    using Cons [of "ns @ [d_Numbers d]" "ss @ [[d_Strong d]]"
        "if 6 \<le> length (d_Numbers d)
         then AList.update (ComboMask (sort (take 6 (d_Numbers d)))) True cs else cs"]
    by (auto simp: up)
qed simp

lemma MaxNumberOf_range: "0 \<le> MaxNumberOf l \<and> MaxNumberOf l \<noteq> 3"
  by (simp add: MaxNumberOf_def)

lemma NewLotteryArchive_ok:
  "\<exists>a. NewLotteryArchive lottery from to draws = Some a \<and> archive_of lottery draws a \<and>
     a_From a = from \<and> a_To a = to"
proof -
  obtain c where c: "archiveLoop draws [] [] [] = (map d_Numbers draws, map (\<lambda>d. [d_Strong d]) draws, c)"
    "\<forall>m. map_get c m \<longleftrightarrow>
        (\<exists>d \<in> set draws. 6 \<le> length (d_Numbers d) \<and> m = ComboMask (take 6 (d_Numbers d)))"
    using archiveLoop_eq [of draws "[]" "[]" "[]"] by (auto simp: map_get_def)
  obtain t0 t where t: "NewLoTree (MaxNumberOf lottery) = Some t0"
      "BuildTree t0 (map d_Numbers draws) maxGroupSize = Some t"
      "tree_of (MaxNumberOf lottery) maxGroupSize (map d_Numbers draws) t"
    using tree_of_Build [of "MaxNumberOf lottery" "map d_Numbers draws" maxGroupSize]
      MaxNumberOf_range [of lottery] by (auto simp: bind_eq_Some_conv)
  obtain s0 s where s: "NewLoTree (maxStrong + 2) = Some s0"
      "BuildTree s0 (map (\<lambda>d. [d_Strong d]) draws) 1 = Some s"
      "tree_of (maxStrong + 2) 1 (map (\<lambda>d. [d_Strong d]) draws) s"
    using tree_of_Build [of "maxStrong + 2" "map (\<lambda>d. [d_Strong d]) draws" 1]
    by (auto simp: bind_eq_Some_conv maxStrong_def)
  show ?thesis
    using c t s by (simp add: NewLotteryArchive_def archive_of_def)
qed

lemma NewLotteryArchive_archive_of:
  "NewLotteryArchive lottery from to draws = Some a \<Longrightarrow> archive_of lottery draws a"
  using NewLotteryArchive_ok [of lottery "from" to draws] by auto

lemma HasWon_mask:
  assumes "archive_of lottery draws a"
  shows "HasWon a combo \<longleftrightarrow> (\<exists>d \<in> set draws. 6 \<le> length (d_Numbers d) \<and>
     set combo \<inter> {1..63} = set (take 6 (d_Numbers d)) \<inter> {1..63})"
proof -
  have "HasWon a combo \<longleftrightarrow> map_get (WinningCombos a) (ComboMask combo)"
    by (simp add: HasWon_def map_get_def)
  then show ?thesis
    using assms by (simp add: archive_of_def ComboMask_eq_iff)
qed

subsection \<open>Rankings\<close>

fun fill_ranked :: "nat \<Rightarrow> nat \<Rightarrow> int list" where
  "fill_ranked i 0 = []"
| "fill_ranked i (Suc m) = (int i + 1) # fill_ranked (Suc i) m"

text \<open>
  \<open>e.Numbers[0]\<close> of every entry; the entries of \<open>CollectNodes(1, mode)\<close> have one number, so the
  read is in range (\<open>None\<close> is its panic).
\<close>

fun first_numbers :: "NodeEntry list \<Rightarrow> int list option" where
  "first_numbers [] = Some []"
| "first_numbers (e # es) =
     (case e_Numbers e of
        [] \<Rightarrow> None
      | n # _ \<Rightarrow> Option.bind (first_numbers es) (\<lambda>ns. Some (n # ns)))"

definition RankNumbers :: "LotteryArchive \<Rightarrow> string \<Rightarrow> int list option" where
  "RankNumbers a mode =
     (case a_Tree a of
        None \<Rightarrow> Some (fill_ranked 0 (nat (MaxNumber a)))
      | Some t \<Rightarrow>
          if Anchor t = None \<or> ArchiveSize a = 0 then Some (fill_ranked 0 (nat (MaxNumber a)))
          else first_numbers (CollectNodes t 1 mode))"

text \<open>The loop over the first \<open>maxStrong\<close> slots; \<open>i\<close> is the slot index.\<close>

fun topStrongLoop :: "string \<Rightarrow> LoNode option list \<Rightarrow> int \<Rightarrow> int \<Rightarrow> int \<Rightarrow> int" where
  "topStrongLoop mode [] i best bestCount = best"
| "topStrongLoop mode (None # ns) i best bestCount = topStrongLoop mode ns (i + 1) best bestCount"
| "topStrongLoop mode (Some node # ns) i best bestCount =
     (let num = i + 1; count = Count node in
      if mode = Weak then
        if count < bestCount then topStrongLoop mode ns (i + 1) num count
        else topStrongLoop mode ns (i + 1) best bestCount
      else if bestCount < count then topStrongLoop mode ns (i + 1) num count
      else topStrongLoop mode ns (i + 1) best bestCount)"

definition TopStrong :: "LotteryArchive \<Rightarrow> string \<Rightarrow> int" where
  "TopStrong a mode =
     (if a_Lottery a \<noteq> Lottery then 0
      else case StrongTree a of
        None \<Rightarrow> 0
      | Some t \<Rightarrow> (case Anchor t of
          None \<Rightarrow> 0
        | Some anchor \<Rightarrow>
            topStrongLoop mode (take (nat maxStrong) (Next anchor)) 0 0
              (if mode = Weak then MaxInt32 else - 1)))"

definition TopGroups :: "LotteryArchive \<Rightarrow> int \<Rightarrow> int \<Rightarrow> string \<Rightarrow> NodeEntry list" where
  "TopGroups a howMany gsize mode =
     (case a_Tree a of
        None \<Rightarrow> []
      | Some t \<Rightarrow>
          if gsize \<le> 0 \<or> gsize > maxGroupSize \<or> howMany \<le> 0 then []
          else let entries = CollectNodes t gsize mode in
            if int (length entries) > howMany then take (nat howMany) entries else entries)"

lemma fill_ranked_upto: "fill_ranked i m = [int i + 1..int i + int m]"
proof (induction m arbitrary: i)
  case (Suc m)
  have "[int i + 1..int i + int (Suc m)] = (int i + 1) # [int (Suc i) + 1..int (Suc i) + int m]"
    by (subst upto_rec1) (auto simp: algebra_simps)
  then show ?case by (simp only: fill_ranked.simps Suc)
qed simp

lemma first_numbers_map:
  "\<forall>e \<in> set es. e_Numbers e \<noteq> [] \<Longrightarrow> first_numbers es = Some (map (\<lambda>e. hd (e_Numbers e)) es)"
  by (induction es) (auto simp: neq_Nil_conv)

text \<open>How often a single number has been drawn.\<close>

abbreviation drawn :: "LotteryResult list \<Rightarrow> int \<Rightarrow> int" where
  "drawn draws n \<equiv> group_count (map d_Numbers draws) [n]"

lemma group_count_single: "group_count data [n] = int (count_list (concat data) n)"
proof -
  have "occs [n] d = count_list d n" for d :: "int list" by (induction d) auto
  then show ?thesis by (induction data) (simp_all add: group_count_def count_list_append)
qed

definition ranked_before :: "LotteryResult list \<Rightarrow> string \<Rightarrow> int \<Rightarrow> int \<Rightarrow> bool" where
  "ranked_before draws mode m n \<longleftrightarrow>
     (if mode = Weak then drawn draws m < drawn draws n else drawn draws n < drawn draws m) \<or>
     drawn draws m = drawn draws n \<and> m < n"

lemma archive_of_tree:
  assumes "archive_of lottery draws a"
  obtains t where "a_Tree a = Some t" "tree_of (MaxNumberOf lottery) 6 (map d_Numbers draws) t"
    "Anchor t \<noteq> None"
proof -
  obtain t where "a_Tree a = Some t" "tree_of (MaxNumberOf lottery) 6 (map d_Numbers draws) t"
    using assms by (auto simp: archive_of_def maxGroupSize_def)
  moreover then have "Anchor t \<noteq> None" by (auto simp: tree_of_def)
  ultimately show thesis using that by blast
qed

lemma RankNumbers_spec:
  assumes a: "archive_of lottery draws a" and "draws \<noteq> []"
  shows "\<exists>ns. RankNumbers a mode = Some ns \<and> sorted_wrt (ranked_before draws mode) ns \<and>
    set ns = {n. 1 \<le> n \<and> n \<le> MaxNumberOf lottery \<and> 0 < drawn draws n}"
proof -
  obtain t where t: "a_Tree a = Some t" "tree_of (MaxNumberOf lottery) 6 (map d_Numbers draws) t"
    "Anchor t \<noteq> None" using archive_of_tree [OF a] .
  let ?es = "CollectNodes t 1 mode"
  have es: "sorted_wrt (entry_before mode) ?es"
    "set ?es = groups_of (MaxNumberOf lottery) (map d_Numbers draws) 1"
    using CollectNodes_spec [OF t(2), of 1 mode] by auto
  have one: "\<exists>n. e_Numbers e = [n] \<and> e_Count e = drawn draws n \<and> 0 < drawn draws n \<and>
      1 \<le> n \<and> n \<le> MaxNumberOf lottery" if "e \<in> set ?es" for e
  proof -
    from that obtain n where "e_Numbers e = [n]"
      by (auto simp: es(2) groups_of_def length_Suc_conv)
    with that show ?thesis by (auto simp: es(2) groups_of_def)
  qed
  have "first_numbers ?es = Some (map (\<lambda>e. hd (e_Numbers e)) ?es)"
    by (intro first_numbers_map ballI) (use one in fastforce)
  then have rank: "RankNumbers a mode = Some (map (\<lambda>e. hd (e_Numbers e)) ?es)"
    using t(1,3) assms(2) a by (auto simp: RankNumbers_def ArchiveSize_def archive_of_def)
  have "sorted_wrt (ranked_before draws mode) (map (\<lambda>e. hd (e_Numbers e)) ?es)"
    unfolding sorted_wrt_map
  proof (rule sorted_wrt_mono_rel [OF _ es(1)])
    fix x y assume "x \<in> set ?es" "y \<in> set ?es" "entry_before mode x y"
    then show "ranked_before draws mode (hd (e_Numbers x)) (hd (e_Numbers y))"
      using one [of x] one [of y] by (auto simp: entry_before_def ranked_before_def split: if_splits)
  qed
  moreover have "set (map (\<lambda>e. hd (e_Numbers e)) ?es) =
      {n. 1 \<le> n \<and> n \<le> MaxNumberOf lottery \<and> 0 < drawn draws n}"
  proof
    show "set (map (\<lambda>e. hd (e_Numbers e)) ?es) \<subseteq>
        {n. 1 \<le> n \<and> n \<le> MaxNumberOf lottery \<and> 0 < drawn draws n}"
      using one by fastforce
    show "{n. 1 \<le> n \<and> n \<le> MaxNumberOf lottery \<and> 0 < drawn draws n} \<subseteq>
        set (map (\<lambda>e. hd (e_Numbers e)) ?es)"
    proof
      fix n assume "n \<in> {n. 1 \<le> n \<and> n \<le> MaxNumberOf lottery \<and> 0 < drawn draws n}"
      then have "\<lparr>e_Numbers = [n], e_Count = drawn draws n\<rparr> \<in> set ?es"
        by (simp add: es(2) groups_of_def)
      then show "n \<in> set (map (\<lambda>e. hd (e_Numbers e)) ?es)" by force
    qed
  qed
  ultimately show ?thesis using rank by blast
qed

lemma RankNumbers_empty:
  assumes "archive_of lottery [] a"
  shows "RankNumbers a mode = Some [1..MaxNumberOf lottery]"
proof -
  have "0 \<le> MaxNumberOf lottery" using MaxNumberOf_range by blast
  moreover have "a_Lottery a = lottery" "Draws a = []" using assms by (auto simp: archive_of_def)
  ultimately show ?thesis
    by (simp add: RankNumbers_def ArchiveSize_def fill_ranked_upto MaxNumber_def split: option.splits)
qed

text \<open>The numbers a ranking lists: those of the game that were drawn, or all of them without draws.\<close>

definition rankable :: "LotteryType \<Rightarrow> LotteryResult list \<Rightarrow> int set" where
  "rankable lottery draws = {n. 1 \<le> n \<and> n \<le> MaxNumberOf lottery \<and> (draws = [] \<or> 0 < drawn draws n)}"

lemma RankNumbers_ok:
  assumes "archive_of lottery draws a"
  shows "\<exists>ns. RankNumbers a mode = Some ns \<and> sorted_wrt (ranked_before draws mode) ns \<and> distinct ns \<and>
    set ns = rankable lottery draws"
proof -
  have "\<exists>ns. RankNumbers a mode = Some ns \<and> sorted_wrt (ranked_before draws mode) ns \<and> set ns = rankable lottery draws"
  proof (cases "draws = []")
    case True
    have "drawn [] n = 0" for n by (simp add: group_count_def)
    then have "sorted_wrt (ranked_before [] mode) [1..MaxNumberOf lottery]"
      by (intro sorted_wrt_mono_rel [OF _ sorted_wrt_upto]) (simp add: ranked_before_def)
    then show ?thesis using RankNumbers_empty [of lottery a mode] assms True by (auto simp: rankable_def)
  next
    case False
    then show ?thesis using RankNumbers_spec [OF assms False, of mode] by (simp add: rankable_def)
  qed
  then obtain ns where ns: "RankNumbers a mode = Some ns" "sorted_wrt (ranked_before draws mode) ns"
    "set ns = rankable lottery draws" by blast
  have "\<not> ranked_before draws mode n n" for n by (simp add: ranked_before_def)
  then have "distinct ns"
    using ns(2) by (metis (no_types, lifting) distinct_conv_nth nat_neq_iff sorted_wrt_nth_less)
  with ns show ?thesis by blast
qed

lemma rankable_range: "rankable lottery draws \<subseteq> {1..MaxNumberOf lottery}"
  by (auto simp: rankable_def)

lemma TopGroups_spec:
  assumes a: "archive_of lottery draws a" and k: "1 \<le> k" "k \<le> 6" and h: "1 \<le> h"
  shows "\<exists>es. TopGroups a h k mode = take (nat h) es \<and> sorted_wrt (entry_before mode) es \<and>
    set es = groups_of (MaxNumberOf lottery) (map d_Numbers draws) k"
proof -
  obtain t where t: "a_Tree a = Some t" "tree_of (MaxNumberOf lottery) 6 (map d_Numbers draws) t"
    using archive_of_tree [OF a] by metis
  have "TopGroups a h k mode = take (nat h) (CollectNodes t k mode)"
    using t(1) k h by (auto simp: TopGroups_def maxGroupSize_def Let_def)
  then show ?thesis using CollectNodes_spec [OF t(2), of k mode] k by auto
qed

subsection \<open>The top strong number\<close>

text \<open>
  With the count's sign turned for the strong mode, both modes of the loop look for the first slot
  of least key below the start value.
\<close>

definition mode_key :: "string \<Rightarrow> int \<Rightarrow> int" where
  "mode_key mode c = (if mode = Weak then c else - c)"

lemma topStrongLoop_Some:
  "topStrongLoop mode (Some node # ns) i best bc =
     (if mode_key mode (Count node) < mode_key mode bc
      then topStrongLoop mode ns (i + 1) (i + 1) (Count node)
      else topStrongLoop mode ns (i + 1) best bc)"
  by (simp add: mode_key_def Let_def)

declare topStrongLoop.simps(3) [simp del]

definition least_slot :: "string \<Rightarrow> LoNode option list \<Rightarrow> nat \<Rightarrow> LoNode \<Rightarrow> bool" where
  "least_slot mode ns j node \<longleftrightarrow> j < length ns \<and> ns ! j = Some node \<and>
     (\<forall>k m. k < length ns \<longrightarrow> ns ! k = Some m \<longrightarrow>
        mode_key mode (Count node) < mode_key mode (Count m) \<or>
        mode_key mode (Count node) = mode_key mode (Count m) \<and> j \<le> k)"

lemma topStrongLoop_least:
  "topStrongLoop mode ns i best bc = best \<and>
     (\<forall>k m. k < length ns \<longrightarrow> ns ! k = Some m \<longrightarrow> mode_key mode bc \<le> mode_key mode (Count m)) \<or>
   (\<exists>j node. least_slot mode ns j node \<and> topStrongLoop mode ns i best bc = i + int j + 1 \<and>
      mode_key mode (Count node) < mode_key mode bc)"
proof (induction ns arbitrary: i best bc)
  case (Cons s ns)
  have shift: "least_slot mode (s # ns) (Suc j) node"
    if "least_slot mode ns j node" "\<And>n. s = Some n \<Longrightarrow> mode_key mode (Count node) < mode_key mode (Count n)"
    for j node using that by (auto simp: least_slot_def nth_Cons split: nat.splits)
  show ?case
  proof (cases s)
    case None
    from Cons.IH [of "i + 1" best bc] show ?thesis
    proof
      assume "\<exists>j node. least_slot mode ns j node \<and>
        topStrongLoop mode ns (i + 1) best bc = i + 1 + int j + 1 \<and>
        mode_key mode (Count node) < mode_key mode bc"
      then obtain j node where "least_slot mode ns j node"
        "topStrongLoop mode ns (i + 1) best bc = i + 1 + int j + 1"
        "mode_key mode (Count node) < mode_key mode bc" by blast
      then show ?thesis using shift [of j node] None
        by (intro disjI2 exI [of _ "Suc j"] exI [of _ node]) auto
    qed (auto simp: None nth_Cons split: nat.splits)
  next
    case (Some n)
    show ?thesis
    proof (cases "mode_key mode (Count n) < mode_key mode bc")
      case True
      from Cons.IH [of "i + 1" "i + 1" "Count n"] show ?thesis
      proof
        assume *: "topStrongLoop mode ns (i + 1) (i + 1) (Count n) = i + 1 \<and>
          (\<forall>k m. k < length ns \<longrightarrow> ns ! k = Some m \<longrightarrow> mode_key mode (Count n) \<le> mode_key mode (Count m))"
        then have "least_slot mode (s # ns) 0 n"
          using Some by (auto simp: least_slot_def nth_Cons split: nat.splits intro: le_neq_trans)
        then show ?thesis using * True Some
          by (intro disjI2 exI [of _ 0] exI [of _ n]) (simp add: topStrongLoop_Some)
      next
        assume "\<exists>j node. least_slot mode ns j node \<and>
          topStrongLoop mode ns (i + 1) (i + 1) (Count n) = i + 1 + int j + 1 \<and>
          mode_key mode (Count node) < mode_key mode (Count n)"
        then obtain j node where "least_slot mode ns j node"
          "topStrongLoop mode ns (i + 1) (i + 1) (Count n) = i + 1 + int j + 1"
          "mode_key mode (Count node) < mode_key mode (Count n)" by blast
        then show ?thesis using shift [of j node] Some True
          by (intro disjI2 exI [of _ "Suc j"] exI [of _ node]) (auto simp: topStrongLoop_Some)
      qed
    next
      case False
      from Cons.IH [of "i + 1" best bc] show ?thesis
      proof
        assume "\<exists>j node. least_slot mode ns j node \<and>
          topStrongLoop mode ns (i + 1) best bc = i + 1 + int j + 1 \<and>
          mode_key mode (Count node) < mode_key mode bc"
        then obtain j node where "least_slot mode ns j node"
          "topStrongLoop mode ns (i + 1) best bc = i + 1 + int j + 1"
          "mode_key mode (Count node) < mode_key mode bc" by blast
        then show ?thesis using shift [of j node] Some False
          by (intro disjI2 exI [of _ "Suc j"] exI [of _ node]) (auto simp: topStrongLoop_Some)
      qed (use False in \<open>auto simp: Some topStrongLoop_Some nth_Cons split: nat.splits\<close>)
    qed
  qed
qed simp

text \<open>How often a strong number was drawn, and the answer over the numbers 1..7.\<close>

definition strong_drawn :: "LotteryResult list \<Rightarrow> int \<Rightarrow> int" where
  "strong_drawn draws n = int (count_list (map d_Strong draws) n)"

definition is_top_strong :: "string \<Rightarrow> LotteryResult list \<Rightarrow> int \<Rightarrow> bool" where
  "is_top_strong mode draws b \<longleftrightarrow> b \<in> {1..7} \<and> 0 < strong_drawn draws b \<and>
     (\<forall>n \<in> {1..7}. 0 < strong_drawn draws n \<longrightarrow>
        mode_key mode (strong_drawn draws b) < mode_key mode (strong_drawn draws n) \<or>
        strong_drawn draws b = strong_drawn draws n \<and> b \<le> n)"

lemma strong_slots:
  assumes t: "tree_of (maxStrong + 2) 1 (map (\<lambda>d. [d_Strong d]) draws) t" and a: "Anchor t = Some a"
    and i: "i < 7"
  shows "i < length (Next a)"
    and "Next a ! i = None \<longleftrightarrow> strong_drawn draws (int i + 1) = 0"
    and "Next a ! i = Some m \<Longrightarrow> Count m = strong_drawn draws (int i + 1) \<and> 0 < Count m"
proof -
  obtain a' where "Anchor t = Some a'" and wf: "wf_node (maxStrong + 2) a'" and num: "Num a' = 0"
    and cnt: "\<And>p. p \<noteq> [] \<Longrightarrow> count_at a' p = (if fits (maxStrong + 2) 0 1 p
        then group_count (map (\<lambda>d. [d_Strong d]) draws) p else 0)"
    using tree_of_anchor [OF t] by metis
  with a have [simp]: "a' = a" by simp
  show len: "i < length (Next a)"
    using wf_node_len [OF wf] num i by (simp add: maxStrong_def)
  have cc: "concat (map (\<lambda>d. [d_Strong d]) ds) = map d_Strong ds" for ds :: "LotteryResult list"
    by (induction ds) auto
  have "count_at a [int i + 1] = strong_drawn draws (int i + 1)"
    using cnt [of "[int i + 1]"] i by (simp add: maxStrong_def group_count_single cc strong_drawn_def)
  moreover have "count_at a [int i + 1] = (case Next a ! i of None \<Rightarrow> 0 | Some c \<Rightarrow> Count c)"
    using len num by (simp add: count_at_Cons child_at_def split: option.splits)
  ultimately have eq: "strong_drawn draws (int i + 1) = (case Next a ! i of None \<Rightarrow> 0 | Some c \<Rightarrow> Count c)"
    by simp
  have pos: "1 \<le> Count c" if "Next a ! i = Some c" for c
    using wf_node_child [OF wf, of i c] that len by simp
  show "Next a ! i = None \<longleftrightarrow> strong_drawn draws (int i + 1) = 0"
    using eq pos by (fastforce split: option.splits)
  show "Next a ! i = Some m \<Longrightarrow> Count m = strong_drawn draws (int i + 1) \<and> 0 < Count m"
    using eq pos [of m] by simp
qed

lemma TopStrong_spec:
  assumes a: "archive_of Lottery draws a" and small: "int (length draws) < MaxInt32"
  shows "is_top_strong mode draws (TopStrong a mode) \<or>
     TopStrong a mode = 0 \<and> (\<forall>n \<in> {1..7}. strong_drawn draws n = 0)"
proof -
  obtain s where s: "StrongTree a = Some s"
    "tree_of (maxStrong + 2) 1 (map (\<lambda>d. [d_Strong d]) draws) s"
    using a by (auto simp: archive_of_def)
  then obtain an where an: "Anchor s = Some an" by (auto simp: tree_of_def)
  note slots = strong_slots [OF s(2) an]
  let ?ns = "take 7 (Next an)" and ?bc = "if mode = Weak then MaxInt32 else - 1"
  have top: "TopStrong a mode = topStrongLoop mode ?ns 0 0 ?bc"
    using a s(1) an by (simp add: TopStrong_def archive_of_def maxStrong_def)
  have len: "length ?ns = 7" using slots(1) [of 6] by simp
  have below: "mode_key mode (Count m) < mode_key mode ?bc" if "i < 7" "Next an ! i = Some m" for i m
  proof -
    have "strong_drawn draws (int i + 1) \<le> int (length draws)"
      using count_le_length [of "map d_Strong draws"] by (simp add: strong_drawn_def)
    then show ?thesis using slots(3) [OF that] small by (auto simp: mode_key_def MaxInt32_def)
  qed
  from topStrongLoop_least [of mode ?ns 0 0 ?bc] show ?thesis
  proof
    assume *: "topStrongLoop mode ?ns 0 0 ?bc = 0 \<and> (\<forall>k m. k < length ?ns \<longrightarrow> ?ns ! k = Some m \<longrightarrow>
      mode_key mode ?bc \<le> mode_key mode (Count m))"
    have "strong_drawn draws n = 0" if "n \<in> {1..7}" for n
    proof -
      have i: "nat (n - 1) < 7" "int (nat (n - 1)) + 1 = n" using that by auto
      have "Next an ! nat (n - 1) = None"
      proof (rule ccontr)
        assume "Next an ! nat (n - 1) \<noteq> None"
        then obtain m where m: "Next an ! nat (n - 1) = Some m" by blast
        have "mode_key mode ?bc \<le> mode_key mode (Count m)"
          using * m i(1) len by (metis nth_take)
        with below [OF i(1) m] show False by simp
      qed
      then show ?thesis using slots(2) [OF i(1)] i(2) by simp
    qed
    then show ?thesis using * top by simp
  next
    assume "\<exists>j node. least_slot mode ?ns j node \<and> topStrongLoop mode ?ns 0 0 ?bc = 0 + int j + 1 \<and>
      mode_key mode (Count node) < mode_key mode ?bc"
    then obtain j node where j: "least_slot mode ?ns j node" "TopStrong a mode = int j + 1"
      using top by auto
    then have node: "j < 7" "Next an ! j = Some node" using len by (auto simp: least_slot_def)
    have "mode_key mode (strong_drawn draws (int j + 1)) < mode_key mode (strong_drawn draws n) \<or>
        strong_drawn draws (int j + 1) = strong_drawn draws n \<and> int j + 1 \<le> n"
      if n: "n \<in> {1..7}" "0 < strong_drawn draws n" for n
    proof -
      have i: "nat (n - 1) < 7" "int (nat (n - 1)) + 1 = n" using n(1) by auto
      then obtain m where m: "Next an ! nat (n - 1) = Some m"
        using slots(2) [OF i(1)] n(2) by auto
      then have "mode_key mode (Count node) < mode_key mode (Count m) \<or>
          mode_key mode (Count node) = mode_key mode (Count m) \<and> j \<le> nat (n - 1)"
        using j(1) i(1) len by (auto simp: least_slot_def)
      moreover have "Count m = strong_drawn draws n" using slots(3) [OF i(1) m] i(2) by simp
      moreover have "j \<le> nat (n - 1) \<Longrightarrow> int j + 1 \<le> n" using i(2) by linarith
      ultimately show ?thesis
        using slots(3) [OF node] by (auto simp: mode_key_def split: if_splits)
    qed
    then have "is_top_strong mode draws (TopStrong a mode)"
      using slots(3) [OF node] node(1) j(2) by (simp add: is_top_strong_def)
    then show ?thesis ..
  qed
qed

end
