(* ===== verification/Go_Time.thy ===== *)
theory Go_Time
  imports Prelude
begin

section \<open>Calendar dates of Go's time package\<close>

text \<open>
  \<open>Format("2006-01-02")\<close>, \<open>Format("02/01/2006")\<close> and the dates that \<open>time.Parse\<close> and \<open>time.Date\<close> give,
  for UTC times of the years 1 to 9999 (the range of a protobuf timestamp). A date is found by
  counting: the year from an estimate below it, then the months of the year. The reconstruction
  lemma \<open>date_of_days\<close> makes formatting injective on days, which is what the cache key relies on.
\<close>

definition ns_day :: int where "ns_day = 86400000000000"

definition leap :: "int \<Rightarrow> bool" where
  "leap y \<longleftrightarrow> 4 dvd y \<and> (\<not> 100 dvd y \<or> 400 dvd y)"

text \<open>Days of the years 1 to \<open>y - 1\<close>.\<close>

definition days_before_year :: "int \<Rightarrow> int" where
  "days_before_year y = (let p = y - 1 in 365 * p + p div 4 - p div 100 + p div 400)"

definition month_days :: "int \<Rightarrow> int list" where
  "month_days y = [31, if leap y then 29 else 28, 31, 30, 31, 30, 31, 31, 30, 31, 30, 31]"

definition days_before_month :: "int \<Rightarrow> nat \<Rightarrow> int" where
  "days_before_month y m = sum_list (take (m - 1) (month_days y))"

text \<open>The instant of midnight of a date, counted from the zero time.\<close>

definition Date :: "int \<Rightarrow> nat \<Rightarrow> int \<Rightarrow> time" where
  "Date y m d = (days_before_year y + days_before_month y m + (d - 1)) * ns_day"

lemma days_before_year_Suc: "days_before_year (y + 1) = days_before_year y + (if leap y then 366 else 365)"
proof -
  have div: "a div k = (a - 1) div k + (if k dvd a then 1 else 0)" if "1 < k" for a k :: int
  proof (cases "k dvd a")
    case True
    then obtain q where q: "a = k * q" by blast
    have "(k * q - 1) div k = q - 1"
      using that by (intro int_div_pos_eq [where r = "k - 1"]) (auto simp: algebra_simps)
    with q that True show ?thesis by simp
  next
    case False
    have "0 \<le> a mod k" "a mod k < k" "a mod k \<noteq> 0"
      using that False by (auto simp: dvd_eq_mod_eq_0)
    then have "(a - 1) div k = a div k"
      by (intro int_div_pos_eq [where r = "a mod k - 1"]) (auto simp: algebra_simps)
    with False show ?thesis by simp
  qed
  have "100 dvd y" if "400 dvd y"
    using that by (rule dvd_trans [rotated]) simp
  moreover have "4 dvd y" if "100 dvd y"
    using that by (rule dvd_trans [rotated]) simp
  moreover have "(365 * y + (a + (if P then 1 else 0)) - (b + (if Q then 1 else 0)) + (c + (if R then 1 else 0)) =
      365 * (y - 1) + a - b + c + (if P \<and> (\<not> Q \<or> R) then 366 else (365::int)))"
    if "R \<Longrightarrow> Q" "Q \<Longrightarrow> P" for a b c P Q R using that by auto
  ultimately show ?thesis
    unfolding days_before_year_def Let_def leap_def add_diff_cancel_right'
      div [of 4 y, simplified] div [of 100 y, simplified] div [of 400 y, simplified] by blast
qed

lemma days_before_year_mono: "y \<le> z \<Longrightarrow> days_before_year y \<le> days_before_year z"
proof -
  assume "y \<le> z"
  have "days_before_year y \<le> days_before_year (y + int n)" for n
  proof (induction n)
    case (Suc n)
    then show ?case using days_before_year_Suc [of "y + int n"] by (simp add: algebra_simps split: if_splits)
  qed simp
  from this [of "nat (z - y)"] \<open>y \<le> z\<close> show ?thesis by simp
qed

text \<open>The year of a day number: the last year that begins on or before it.\<close>

fun year_loop :: "int \<Rightarrow> int \<Rightarrow> nat \<Rightarrow> int" where
  "year_loop d y 0 = y"
| "year_loop d y (Suc n) = (if days_before_year (y + 1) \<le> d then year_loop d (y + 1) n else y)"

definition year_of :: "int \<Rightarrow> int" where
  "year_of d = year_loop d (d div 366 + 1) (nat (d div 365 - d div 366 + 1))"

fun month_loop :: "int list \<Rightarrow> nat \<Rightarrow> int \<Rightarrow> nat \<times> int" where
  "month_loop [] m d = (m, d + 1)"
| "month_loop (l # ls) m d = (if d < l then (m, d + 1) else month_loop ls (Suc m) (d - l))"

text \<open>The civil date of an instant.\<close>

definition civil :: "time \<Rightarrow> int \<times> nat \<times> int" where
  "civil t = (let d = t div ns_day; y = year_of d; (m, dom) = month_loop (month_days y) 1 (d - days_before_year y)
     in (y, m, dom))"

lemma year_loop_bounds:
  "days_before_year y \<le> d \<Longrightarrow> d < days_before_year (y + int n + 1) \<Longrightarrow>
   days_before_year (year_loop d y n) \<le> d \<and> d < days_before_year (year_loop d y n + 1) \<and> y \<le> year_loop d y n"
proof (induction n arbitrary: y)
  case (Suc n)
  have "days_before_year (y + 1) \<le> d \<Longrightarrow> y + 1 \<le> year_loop d (y + 1) n"
    using Suc.IH [of "y + 1"] Suc.prems by (simp add: algebra_simps)
  moreover have "days_before_year (y + 1) \<le> d \<Longrightarrow>
      days_before_year (year_loop d (y + 1) n) \<le> d \<and> d < days_before_year (year_loop d (y + 1) n + 1)"
    using Suc.IH [of "y + 1"] Suc.prems by (simp add: algebra_simps)
  ultimately show ?case using Suc.prems(1) by auto
qed simp

lemma year_of_bounds:
  assumes "0 \<le> d"
  shows "days_before_year (year_of d) \<le> d \<and> d < days_before_year (year_of d + 1) \<and> 1 \<le> year_of d"
proof -
  let ?y = "d div 366 + 1"
  let ?n = "nat (d div 365 - d div 366 + 1)"
  have p: "365 * p \<le> days_before_year (p + 1) \<and> days_before_year (p + 1) \<le> 366 * p" if "0 \<le> p" for p
  proof -
    have "p div 100 \<le> p div 4" "p div 4 \<le> p" "p div 400 \<le> p div 100" using that by linarith+
    then show ?thesis using that by (simp add: days_before_year_def Let_def)
  qed
  have "d div 366 \<le> d div 365" using assms by linarith
  then have n: "?y + int ?n + 1 = (d div 365 + 2) + 1" by simp
  have "days_before_year ?y \<le> 366 * (d div 366)" using p [of "d div 366"] assms by simp
  then have 1: "days_before_year ?y \<le> d" by linarith
  define q r where "q = d div 365" and "r = d mod 365"
  then have qr: "d = 365 * q + r" "r < 365" "0 \<le> q" using assms by simp_all
  have "365 * (q + 2) \<le> days_before_year (q + 2 + 1)" using p [of "q + 2"] qr(3) by simp
  moreover have "d < 365 * (q + 2)" using qr by simp
  ultimately have "d < days_before_year (q + 2 + 1)" by simp
  then have "d < days_before_year (?y + int ?n + 1)" unfolding n q_def .
  moreover have "1 \<le> ?y" using assms by simp
  ultimately show ?thesis
    using year_loop_bounds [OF 1, of ?n] unfolding year_of_def by (meson order_trans)
qed

lemma month_loop_sum:
  "0 \<le> d \<Longrightarrow> d < sum_list ls \<Longrightarrow> \<forall>l \<in> set ls. l \<le> 31 \<Longrightarrow>
   \<exists>k e. month_loop ls m d = (m + k, e) \<and> k < length ls \<and> 1 \<le> e \<and> e \<le> 31 \<and>
     d = sum_list (take k ls) + (e - 1)"
proof (induction ls arbitrary: m d)
  case (Cons l ls)
  show ?case
  proof (cases "d < l")
    case True
    then show ?thesis using Cons.prems by (intro exI [of _ 0] exI [of _ "d + 1"]) auto
  next
    case False
    then obtain k e where "month_loop ls (Suc m) (d - l) = (Suc m + k, e)" "k < length ls" "1 \<le> e" "e \<le> 31"
      "d - l = sum_list (take k ls) + (e - 1)"
      using Cons.IH [of "d - l" "Suc m"] Cons.prems by auto
    with False show ?thesis by (intro exI [of _ "Suc k"] exI [of _ e]) auto
  qed
qed simp

lemma month_days_le: "\<forall>l \<in> set (month_days y). l \<le> 31"
  by (simp add: month_days_def)

lemma date_of_days:
  assumes "0 \<le> t"
  shows "\<exists>y m d. civil t = (y, m, d) \<and> 1 \<le> y \<and> 1 \<le> m \<and> m \<le> 12 \<and> 1 \<le> d \<and> d \<le> 31 \<and>
    Date y m d = t div ns_day * ns_day"
proof -
  let ?d = "t div ns_day"
  have d: "0 \<le> ?d" using assms by (simp add: ns_day_def)
  define y where "y = year_of ?d"
  have y: "days_before_year y \<le> ?d" "?d < days_before_year (y + 1)" "1 \<le> y"
    using year_of_bounds [OF d] by (auto simp: y_def)
  have "sum_list (month_days y) = (if leap y then 366 else 365)" by (simp add: month_days_def)
  then have "?d - days_before_year y < sum_list (month_days y)" "0 \<le> ?d - days_before_year y"
    using y days_before_year_Suc [of y] by auto
  then obtain k e where k: "month_loop (month_days y) 1 (?d - days_before_year y) = (Suc k, e)"
    "k < length (month_days y)" "1 \<le> e" "e \<le> 31"
    "?d - days_before_year y = sum_list (take k (month_days y)) + (e - 1)"
    using month_loop_sum [of "?d - days_before_year y" "month_days y" 1]
    by (metis month_days_le plus_1_eq_Suc)
  have "civil t = (y, Suc k, e)" using k(1) by (simp add: civil_def y_def Let_def)
  moreover have "Date y (Suc k) e = ?d * ns_day"
  proof -
    have "days_before_year y + sum_list (take k (month_days y)) + (e - 1) = ?d" using k(5) by simp
    then show ?thesis by (simp add: Date_def days_before_month_def)
  qed
  moreover have "Suc k \<le> 12" using k(2) by (simp add: month_days_def)
  ultimately show ?thesis using k(3,4) y(3) by auto
qed

lemma civil_inj:
  "0 \<le> s \<Longrightarrow> 0 \<le> t \<Longrightarrow> civil s = civil t \<longleftrightarrow> s div ns_day = t div ns_day"
  using date_of_days [of s] date_of_days [of t]
  by (auto simp: ns_day_def civil_def)

subsection \<open>Decimal strings\<close>

text \<open>\<open>dec n\<close> is \<open>strconv.Itoa(n)\<close> for \<open>n \<ge> 0\<close>; \<open>pad w n\<close> fills with zeros up to width \<open>w\<close>.\<close>

definition digit_char :: "nat \<Rightarrow> char" where
  "digit_char n = char_of (48 + n)"

function dec :: "nat \<Rightarrow> string" where
  "dec n = (if n < 10 then [digit_char n] else dec (n div 10) @ [digit_char (n mod 10)])"
  by pat_completeness auto
termination by (relation "measure id") auto

declare dec.simps [simp del]

definition pad :: "nat \<Rightarrow> nat \<Rightarrow> string" where
  "pad w n = replicate (w - length (dec n)) (digit_char 0) @ dec n"

text \<open>The value of a digit string, for the injectivity of \<open>dec\<close> and \<open>pad\<close>.\<close>

definition digit_val :: "char \<Rightarrow> nat" where
  "digit_val c = of_char c - 48"

fun dec_val :: "nat \<Rightarrow> string \<Rightarrow> nat" where
  "dec_val v [] = v"
| "dec_val v (c # cs) = dec_val (10 * v + digit_val c) cs"

definition is_digit :: "char \<Rightarrow> bool" where
  "is_digit c \<longleftrightarrow> 48 \<le> (of_char c :: nat) \<and> (of_char c :: nat) \<le> 57"

lemma digit_char_ok [simp]: "n < 10 \<Longrightarrow> digit_val (digit_char n) = n" "n < 10 \<Longrightarrow> is_digit (digit_char n)"
  by (simp_all add: digit_val_def digit_char_def is_digit_def of_char_of)

lemma dec_val_append: "dec_val v (xs @ ys) = dec_val (dec_val v xs) ys"
  by (induction xs arbitrary: v) auto

lemma dec_val_dec [simp]: "dec_val 0 (dec n) = n"
  by (induction n rule: dec.induct) (simp add: dec.simps [of n for n] dec_val_append)

lemma dec_digits: "\<forall>c \<in> set (dec n). is_digit c"
proof (induction n rule: dec.induct)
  case (1 n)
  then show ?case by (subst dec.simps) auto
qed

lemma dec_nonempty [simp]: "dec n \<noteq> []"
  by (simp add: dec.simps [of n])

lemma dec_val_pad [simp]: "dec_val 0 (pad w n) = n"
proof -
  have "dec_val 0 (replicate k (digit_char 0)) = 0" for k by (induction k) auto
  then show ?thesis by (simp add: pad_def dec_val_append)
qed

lemma pad_digits: "\<forall>c \<in> set (pad w n). is_digit c"
  using dec_digits [of n] by (auto simp: pad_def)

lemma length_pad_2: "n < 100 \<Longrightarrow> length (pad 2 n) = 2"
proof -
  assume "n < 100"
  then have "n div 10 < 10" by (simp add: less_mult_imp_div_less)
  then show ?thesis by (simp add: pad_def dec.simps [of n] dec.simps [of "n div 10"])
qed

lemma pad_inj: "pad w m = pad w n \<longleftrightarrow> m = n"
  by (metis dec_val_pad)

lemma dec_inj: "dec m = dec n \<longleftrightarrow> m = n"
  by (metis dec_val_dec)

text \<open>Signed decimal, \<open>strconv.Itoa\<close> and \<open>%d\<close>.\<close>

definition Itoa :: "int \<Rightarrow> string" where
  "Itoa n = (if n < 0 then ''-'' @ dec (nat (- n)) else dec (nat n))"

subsection \<open>Formatting and parsing dates\<close>

text \<open>\<open>t.Format("2006-01-02")\<close>.\<close>

definition FormatISO :: "time \<Rightarrow> string" where
  "FormatISO t = (let (y, m, d) = civil t in
     pad 4 (nat y) @ ''-'' @ pad 2 m @ ''-'' @ pad 2 (nat d))"

lemma FormatISO_inj:
  assumes "0 \<le> s" and "0 \<le> t"
  shows "FormatISO s = FormatISO t \<longleftrightarrow> s div ns_day = t div ns_day"
proof
  assume eq: "FormatISO s = FormatISO t"
  obtain y m d where c: "civil s = (y, m, d)" "1 \<le> y" "1 \<le> m" "m \<le> 12" "1 \<le> d" "d \<le> 31"
    using date_of_days [OF assms(1)] by auto
  obtain y' m' d' where c': "civil t = (y', m', d')" "1 \<le> y'" "1 \<le> m'" "m' \<le> 12" "1 \<le> d'" "d' \<le> 31"
    using date_of_days [OF assms(2)] by auto
  have len: "length (pad 2 m) = length (pad 2 m')" "length (pad 2 (nat d)) = length (pad 2 (nat d'))"
    using c c' by (simp_all add: length_pad_2)
  from eq have *: "pad 4 (nat y) @ ''-'' @ pad 2 m @ ''-'' @ pad 2 (nat d) =
      pad 4 (nat y') @ ''-'' @ pad 2 m' @ ''-'' @ pad 2 (nat d')"
    using c(1) c'(1) by (simp add: FormatISO_def)
  from * have "pad 4 (nat y) = pad 4 (nat y') \<and>
      ''-'' @ pad 2 m @ ''-'' @ pad 2 (nat d) = ''-'' @ pad 2 m' @ ''-'' @ pad 2 (nat d')"
    using len by (subst (asm) append_eq_append_conv) auto
  then have "y = y'" "m = m'" "d = d'"
    using len c c' by (auto simp: pad_inj append_eq_append_conv)
  then have "civil s = civil t" using c c' by simp
  then show "s div ns_day = t div ns_day" using civil_inj assms by blast
next
  assume "s div ns_day = t div ns_day"
  then have "civil s = civil t" using civil_inj assms by blast
  then show "FormatISO s = FormatISO t" by (simp only: FormatISO_def)
qed

end
