(* ===== verification/Manager.thy ===== *)
theory Manager
  imports Archive Go_Time
begin

section \<open>The archive cache (lottery_manager.go)\<close>

text \<open>
  The LRU cache of \<open>internal/services/lottery_manager.go\<close> with its pointers: a \<open>cacheEntry\<close> is an
  address of the heap \<open>heap\<close>, \<open>prev\<close> and \<open>next\<close> are addresses, the Go map is an association list of
  addresses, and \<open>done\<close> is true while the entry's channel is non-nil, that is while a load is in
  flight. \<open>addToFront\<close>, \<open>remove\<close> and \<open>moveToFront\<close> are the pointer updates in the source's order.

  The locale \<open>recency_list\<close> is what the cache operations need of the list; the doubly linked list
  is its interpretation. \<open>Archive_refines\<close> shows that an uninterrupted \<open>Archive\<close> call is a step of the
  abstract LRU list \<open>lru_archive\<close> over (key, window, archive) entries, and \<open>InvalidateRange_refines\<close>
  that invalidation keeps the entries outside the range, for every order in which the map is visited.
\<close>

type_synonym error = string

subsection \<open>Windows\<close>

definition defaultArchiveFrom :: time where "defaultArchiveFrom = Date 2004 2 12"
definition maxCacheEntries :: nat where "maxCacheEntries = 8"

definition DefaultFrom :: time where "DefaultFrom = defaultArchiveFrom"

definition normalizeWindow :: "time \<Rightarrow> time \<Rightarrow> time \<times> time" where
  "normalizeWindow from to = (if IsZero from then (defaultArchiveFrom, to) else (from, to))"

definition windowKey :: "time \<Rightarrow> time \<Rightarrow> string" where
  "windowKey from to =
     (let fromStr = (if \<not> IsZero from then FormatISO from else ''open'');
          toStr = (if \<not> IsZero to then FormatISO to else ''open'')
      in fromStr @ ''|'' @ toStr)"

definition rangesOverlap :: "time \<Rightarrow> time \<Rightarrow> time \<Rightarrow> time \<Rightarrow> bool" where
  "rangesOverlap aFrom aTo bFrom bTo =
     (if \<not> IsZero aTo \<and> \<not> IsZero bFrom \<and> aTo < bFrom then False
      else if \<not> IsZero bTo \<and> \<not> IsZero aFrom \<and> bTo < aFrom then False
      else True)"

text \<open>The instants of a window; a zero bound leaves its side open.\<close>

definition window_instants :: "time \<Rightarrow> time \<Rightarrow> time set" where
  "window_instants from to = {t. (IsZero from \<or> from \<le> t) \<and> (IsZero to \<or> t \<le> to)}"

lemma rangesOverlap_iff:
  assumes "window_instants a b \<noteq> {}" and "window_instants c d \<noteq> {}"
  shows "rangesOverlap a b c d \<longleftrightarrow> window_instants a b \<inter> window_instants c d \<noteq> {}"
proof -
  have ab: "IsZero a \<or> IsZero b \<or> a \<le> b" and cd: "IsZero c \<or> IsZero d \<or> c \<le> d"
    using assms by (auto simp: window_instants_def intro: order_trans)
  show ?thesis
  proof
    assume o: "rangesOverlap a b c d"
    let ?t = "if IsZero a then (if IsZero c then min (if IsZero b then 0 else b) (if IsZero d then 0 else d) else c)
      else if IsZero c then a else max a c"
    have "?t \<in> window_instants a b \<inter> window_instants c d"
      using o ab cd by (auto simp: rangesOverlap_def window_instants_def split: if_splits)
    then show "window_instants a b \<inter> window_instants c d \<noteq> {}" by blast
  qed (auto simp: rangesOverlap_def window_instants_def split: if_splits)
qed

definition boundKey :: "time \<Rightarrow> string" where
  "boundKey t = (if \<not> IsZero t then FormatISO t else ''open'')"

lemma windowKey_bounds: "windowKey from to = boundKey from @ ''|'' @ boundKey to"
  by (simp add: windowKey_def boundKey_def)

lemma boundKey_chars: "CHR ''|'' \<notin> set (boundKey t)"
proof -
  have "\<not> is_digit (CHR ''|'')" by (simp add: is_digit_def)
  then have "CHR ''|'' \<notin> set (pad w n)" for w n using pad_digits by blast
  then show ?thesis by (auto simp: boundKey_def FormatISO_def split: prod.splits)
qed

lemma boundKey_eq_iff:
  assumes "0 \<le> s" and "0 \<le> t"
  shows "boundKey s = boundKey t \<longleftrightarrow> IsZero s = IsZero t \<and> s div ns_day = t div ns_day"
proof -
  have no: "FormatISO u \<noteq> ''open''" for u
  proof
    assume "FormatISO u = ''open''"
    moreover obtain y m d where "civil u = (y, m, d)" by (cases "civil u")
    moreover obtain c cs where "pad 4 (nat y) = c # cs"
      by (cases "pad 4 (nat y)") (auto simp: pad_def)
    moreover from this have "is_digit c" using pad_digits [of 4 "nat y"] by simp
    ultimately show False by (simp add: is_digit_def FormatISO_def)
  qed
  then show ?thesis
    using FormatISO_inj [OF assms] no no [symmetric] by (cases "s = 0"; cases "t = 0") (auto simp: boundKey_def IsZero_def)
qed

text \<open>Two windows share a cache key exactly when their bounds are on the same days.\<close>

lemma windowKey_eq_iff:
  assumes "0 \<le> a" "0 \<le> b" "0 \<le> c" "0 \<le> d"
  shows "windowKey a b = windowKey c d \<longleftrightarrow>
    IsZero a = IsZero c \<and> a div ns_day = c div ns_day \<and> IsZero b = IsZero d \<and> b div ns_day = d div ns_day"
proof -
  have split: "x @ ''|'' @ y = x' @ ''|'' @ y' \<longleftrightarrow> x = x' \<and> y = y'"
    if "CHR ''|'' \<notin> set x" "CHR ''|'' \<notin> set x'" for x x' y y' :: string
  proof
    assume eq: "x @ ''|'' @ y = x' @ ''|'' @ y'"
    have "takeWhile (\<lambda>c. c \<noteq> CHR ''|'') (z @ ''|'' @ w) = z" if "CHR ''|'' \<notin> set z" for z w
      using that by (subst takeWhile_append2) auto
    then have "x = x'" using eq that by metis
    with eq show "x = x' \<and> y = y'" by simp
  qed simp
  show ?thesis
    unfolding windowKey_bounds split [OF boundKey_chars boundKey_chars]
    using boundKey_eq_iff assms by blast
qed

subsection \<open>Entries and pointers\<close>

record cacheEntry =
  e_key :: string
  e_from :: time
  e_to :: time
  e_arch :: "LotteryArchive option"
  e_prev :: "nat option"
  e_next :: "nat option"
  e_done :: bool
  e_err :: "error option"

record LotteryManager =
  heap :: "nat \<Rightarrow> cacheEntry"
  fresh :: nat
  cache :: "(string \<times> nat) list"
  m_head :: "nat option"
  m_tail :: "nat option"

definition zero_entry :: cacheEntry where
  "zero_entry = \<lparr>e_key = [], e_from = 0, e_to = 0, e_arch = None, e_prev = None, e_next = None,
     e_done = False, e_err = None\<rparr>"

definition NewLotteryManager :: LotteryManager where
  "NewLotteryManager = \<lparr>heap = (\<lambda>_. zero_entry), fresh = 0, cache = [], m_head = None, m_tail = None\<rparr>"

definition set_entry :: "nat \<Rightarrow> cacheEntry \<Rightarrow> LotteryManager \<Rightarrow> LotteryManager" where
  "set_entry r e m = m\<lparr>heap := (heap m)(r := e)\<rparr>"

definition set_prev :: "nat \<Rightarrow> nat option \<Rightarrow> LotteryManager \<Rightarrow> LotteryManager" where
  "set_prev r p m = set_entry r ((heap m r)\<lparr>e_prev := p\<rparr>) m"

definition set_next :: "nat \<Rightarrow> nat option \<Rightarrow> LotteryManager \<Rightarrow> LotteryManager" where
  "set_next r n m = set_entry r ((heap m r)\<lparr>e_next := n\<rparr>) m"

definition addToFront :: "nat \<Rightarrow> LotteryManager \<Rightarrow> LotteryManager" where
  "addToFront e m =
     (let m = set_prev e None m;
          m = set_next e (m_head m) m;
          m = (case m_head m of None \<Rightarrow> m | Some h \<Rightarrow> set_prev h (Some e) m);
          m = m\<lparr>m_head := Some e\<rparr>
      in if m_tail m = None then m\<lparr>m_tail := Some e\<rparr> else m)"

definition remove_entry :: "nat \<Rightarrow> LotteryManager \<Rightarrow> LotteryManager" where
  "remove_entry e m =
     (let m = (case e_prev (heap m e) of
                 Some p \<Rightarrow> set_next p (e_next (heap m e)) m
               | None \<Rightarrow> m\<lparr>m_head := e_next (heap m e)\<rparr>);
          m = (case e_next (heap m e) of
                 Some n \<Rightarrow> set_prev n (e_prev (heap m e)) m
               | None \<Rightarrow> m\<lparr>m_tail := e_prev (heap m e)\<rparr>)
      in set_next e None (set_prev e None m))"

definition moveToFront :: "nat \<Rightarrow> LotteryManager \<Rightarrow> LotteryManager" where
  "moveToFront e m = (if m_head m = Some e then m else addToFront e (remove_entry e m))"

definition CacheSize :: "LotteryManager \<Rightarrow> nat" where
  "CacheSize m = length (cache m)"

lemmas pointer_defs = set_entry_def set_prev_def set_next_def

subsection \<open>The doubly linked list\<close>

text \<open>
  \<open>linked h p rs q\<close>: the addresses \<open>rs\<close> form a chain whose first entry points back to \<open>p\<close> and
  whose last entry points on to \<open>q\<close>.
\<close>

definition first_or :: "nat list \<Rightarrow> nat option \<Rightarrow> nat option" where
  "first_or rs q = (case rs of [] \<Rightarrow> q | r # _ \<Rightarrow> Some r)"

definition last_or :: "nat option \<Rightarrow> nat list \<Rightarrow> nat option" where
  "last_or p rs = (if rs = [] then p else Some (last rs))"

fun linked :: "(nat \<Rightarrow> cacheEntry) \<Rightarrow> nat option \<Rightarrow> nat list \<Rightarrow> nat option \<Rightarrow> bool" where
  "linked h p [] q = True"
| "linked h p (r # rs) q \<longleftrightarrow>
     e_prev (h r) = p \<and> e_next (h r) = first_or rs q \<and> linked h (Some r) rs q"

definition lru_list :: "LotteryManager \<Rightarrow> nat list \<Rightarrow> bool" where
  "lru_list m rs \<longleftrightarrow> distinct rs \<and> linked (heap m) None rs None \<and>
     m_head m = first_or rs None \<and> m_tail m = last_or None rs"

lemma first_or_simps [simp]:
  "first_or [] q = q" "first_or (r # rs) q = Some r" "first_or (xs @ r # ys) q = first_or xs (Some r)"
  by (auto simp: first_or_def split: list.splits)

lemma last_or_simps [simp]:
  "last_or p [] = p" "last_or p (xs @ [r]) = Some r" "last_or p (r # rs) = last_or (Some r) rs"
  "last_or p (xs @ r # ys) = last_or (Some r) ys"
  by (auto simp: last_or_def)

lemma linked_append:
  "linked h p (xs @ ys) q \<longleftrightarrow> linked h p xs (first_or ys q) \<and> linked h (last_or p xs) ys q"
proof (induction xs arbitrary: p)
  case (Cons x xs)
  have "first_or (xs @ ys) q = first_or xs (first_or ys q)" by (cases xs; cases ys) auto
  then show ?case using Cons by simp
qed simp

lemma linked_frame:
  "(\<And>r. r \<in> set rs \<Longrightarrow> e_prev (h' r) = e_prev (h r) \<and> e_next (h' r) = e_next (h r)) \<Longrightarrow>
   linked h' p rs q = linked h p rs q"
  by (induction rs arbitrary: p) auto

lemma linked_update_notin:
  "r \<notin> set rs \<Longrightarrow> linked (h(r := e)) p rs q = linked h p rs q"
  by (rule linked_frame) auto

lemma addToFront_list:
  assumes "lru_list m rs" and "r \<notin> set rs"
  shows "lru_list (addToFront r m) (r # rs)"
proof (cases rs)
  case Nil
  then show ?thesis using assms by (simp add: lru_list_def addToFront_def pointer_defs last_or_def)
next
  case (Cons s ss)
  then have ne: "r \<noteq> s" "r \<notin> set ss" "s \<notin> set ss" using assms by (auto simp: lru_list_def)
  then show ?thesis
    using assms Cons
    by (simp add: lru_list_def addToFront_def pointer_defs linked_update_notin Let_def last_or_def)
qed

text \<open>Unlinking an entry of the list; its own pointers are cleared.\<close>

lemma remove_entry_list:
  assumes l: "lru_list m (xs @ r # ys)"
  shows "lru_list (remove_entry r m) (xs @ ys)"
proof -
  have p: "e_prev (heap m r) = last_or None xs" "e_next (heap m r) = first_or ys None"
    and lx: "linked (heap m) None xs (Some r)" and ly: "linked (heap m) (Some r) ys None"
    and dist: "distinct (xs @ r # ys)"
    using l by (auto simp: lru_list_def linked_append)
  have hd: "m_head m = first_or xs (Some r)" and tl: "m_tail m = last_or (Some r) ys"
    using l by (auto simp: lru_list_def)
  consider "xs = []" "ys = []" | y zs where "xs = []" "ys = y # zs" | ws x where "xs = ws @ [x]" "ys = []"
    | ws x y zs where "xs = ws @ [x]" "ys = y # zs"
    by (cases ys; cases xs rule: rev_cases) auto
  then show ?thesis
  proof cases
    case 1
    then show ?thesis using p by (simp add: lru_list_def remove_entry_def pointer_defs)
  next
    case 2
    then show ?thesis using p ly dist hd tl
      by (simp add: lru_list_def remove_entry_def pointer_defs linked_update_notin Let_def)
  next
    case 3
    then show ?thesis using p lx dist hd tl
      by (simp add: lru_list_def remove_entry_def pointer_defs linked_update_notin linked_append Let_def)
  next
    case 4
    then show ?thesis using p lx ly dist hd tl
      by (simp add: lru_list_def remove_entry_def pointer_defs linked_update_notin linked_append Let_def)
  qed
qed

subsection \<open>The recency list as an interface\<close>

text \<open>
  What the cache needs of its list: \<open>repr s rs\<close> says that the state \<open>s\<close> holds the entries \<open>rs\<close>, most
  recently used first. The client lemmas are moving an entry to the front, evicting the oldest one and
  dropping several entries.
\<close>

locale recency_list =
  fixes repr :: "'s \<Rightarrow> 'r list \<Rightarrow> bool"
    and push :: "'r \<Rightarrow> 's \<Rightarrow> 's"
    and unlink :: "'r \<Rightarrow> 's \<Rightarrow> 's"
    and oldest :: "'s \<Rightarrow> 'r option"
  assumes push: "repr s rs \<Longrightarrow> r \<notin> set rs \<Longrightarrow> repr (push r s) (r # rs)"
    and unlink: "repr s (xs @ r # ys) \<Longrightarrow> repr (unlink r s) (xs @ ys)"
    and oldest: "repr s rs \<Longrightarrow> oldest s = (if rs = [] then None else Some (last rs))"
    and distinct: "repr s rs \<Longrightarrow> distinct rs"
begin

lemma drop_one: "repr s rs \<Longrightarrow> r \<in> set rs \<Longrightarrow> repr (unlink r s) (filter (\<lambda>x. x \<noteq> r) rs)"
proof -
  assume rs: "repr s rs" "r \<in> set rs"
  then obtain xs ys where "rs = xs @ r # ys" by (auto dest: split_list)
  moreover from this have "filter (\<lambda>x. x \<noteq> r) xs = xs" "filter (\<lambda>x. x \<noteq> r) ys = ys"
    using distinct [OF rs(1)] by (auto simp: filter_id_conv)
  ultimately show ?thesis using unlink rs(1) by simp
qed

lemma touch:
  "repr s rs \<Longrightarrow> r \<in> set rs \<Longrightarrow> repr (push r (unlink r s)) (r # filter (\<lambda>x. x \<noteq> r) rs)"
  using push [OF drop_one] by simp

lemma evict:
  assumes "repr s rs" and "rs \<noteq> []"
  shows "oldest s = Some (last rs) \<and> repr (unlink (last rs) s) (butlast rs)"
  using assms oldest unlink [of s "butlast rs" "last rs" "[]"] by simp

lemma drop_all:
  "repr s rs \<Longrightarrow> distinct vs \<Longrightarrow> set vs \<subseteq> set rs \<Longrightarrow>
   repr (fold unlink vs s) (filter (\<lambda>x. x \<notin> set vs) rs)"
proof (induction vs arbitrary: s rs)
  case (Cons v vs)
  have "repr (fold unlink vs (unlink v s)) (filter (\<lambda>x. x \<notin> set vs) (filter (\<lambda>x. x \<noteq> v) rs))"
    using Cons.prems by (intro Cons.IH drop_one) auto
  moreover have "filter (\<lambda>x. x \<notin> set vs) (filter (\<lambda>x. x \<noteq> v) rs) = filter (\<lambda>x. x \<notin> set (v # vs)) rs"
    by (auto intro: filter_cong)
  ultimately show ?case by (simp only: fold_simps comp_apply)
qed simp

end

interpretation dll: recency_list lru_list addToFront remove_entry m_tail
  by unfold_locales
    (auto simp: addToFront_list remove_entry_list, auto simp: lru_list_def last_or_def)

lemma moveToFront_list:
  assumes "lru_list m rs" and "r \<in> set rs"
  shows "lru_list (moveToFront r m) (r # filter (\<lambda>x. x \<noteq> r) rs)"
proof (cases "m_head m = Some r")
  case True
  then obtain ys where ys: "rs = r # ys" using assms by (cases rs) (auto simp: lru_list_def)
  then have "filter (\<lambda>x. x \<noteq> r) rs = ys" using assms(1) by (auto simp: lru_list_def filter_id_conv)
  then show ?thesis using True assms(1) ys by (simp add: moveToFront_def)
qed (simp add: moveToFront_def dll.touch [OF assms])

text \<open>
  An entry that is no longer in the list has cleared pointers. Moving it to the front makes it the
  whole list: \<open>remove\<close> takes both ends for its own.
\<close>

lemma moveToFront_detached:
  assumes "m_head m \<noteq> Some r" and "e_prev (heap m r) = None" and "e_next (heap m r) = None"
  shows "lru_list (moveToFront r m) [r]"
  using assms by (simp add: moveToFront_def remove_entry_def addToFront_def pointer_defs lru_list_def Let_def)

text \<open>The list operations leave the entries' contents, the map and the allocation pointer alone.\<close>

definition contents :: "cacheEntry \<Rightarrow> string \<times> time \<times> time \<times> LotteryArchive option \<times> bool \<times> error option" where
  "contents e = (e_key e, e_from e, e_to e, e_arch e, e_done e, e_err e)"

definition same_contents :: "LotteryManager \<Rightarrow> LotteryManager \<Rightarrow> bool" where
  "same_contents m' m \<longleftrightarrow>
     (\<forall>r. contents (heap m' r) = contents (heap m r)) \<and> cache m' = cache m \<and> fresh m' = fresh m"

lemma addToFront_contents: "same_contents (addToFront r m) m"
  by (auto simp: same_contents_def contents_def addToFront_def pointer_defs Let_def split: option.splits)

lemma remove_entry_contents: "same_contents (remove_entry r m) m"
  by (auto simp: same_contents_def contents_def remove_entry_def pointer_defs Let_def split: option.splits)

lemma same_contents_trans: "same_contents a b \<Longrightarrow> same_contents b c \<Longrightarrow> same_contents a c"
  by (simp add: same_contents_def)

lemma moveToFront_contents: "same_contents (moveToFront r m) m"
  using same_contents_trans [OF addToFront_contents remove_entry_contents]
  by (auto simp: moveToFront_def) (simp add: same_contents_def)

lemma same_contentsD:
  assumes "same_contents m' m"
  shows "e_key (heap m' r) = e_key (heap m r)" "e_from (heap m' r) = e_from (heap m r)"
    "e_to (heap m' r) = e_to (heap m r)" "e_arch (heap m' r) = e_arch (heap m r)"
    "e_done (heap m' r) = e_done (heap m r)" "e_err (heap m' r) = e_err (heap m r)"
    "cache m' = cache m" "fresh m' = fresh m"
  using assms by (auto simp: same_contents_def contents_def)

lemmas addToFront_same [simp] = same_contentsD [OF addToFront_contents]
lemmas remove_entry_same [simp] = same_contentsD [OF remove_entry_contents]
lemmas moveToFront_same [simp] = same_contentsD [OF moveToFront_contents]

subsection \<open>Loading and looking up\<close>

text \<open>
  \<open>repo\<close> is the repository's \<open>GetByDateRange\<close>, \<open>None\<close> for a nil repository. The result is \<open>None\<close> only
  if the archive's construction panics.
\<close>

type_synonym range_query = "time \<Rightarrow> time \<Rightarrow> error + LotteryResult list"

definition build :: "range_query option \<Rightarrow> time \<Rightarrow> time \<Rightarrow> (error + LotteryArchive) option" where
  "build repo from to =
     (case repo of
        None \<Rightarrow> map_option Inr (NewLotteryArchive Lottery from to [])
      | Some query \<Rightarrow> (case query from to of
          Inl err \<Rightarrow> Some (Inl (''lottery manager: load draws '' @ FormatISO from @ ''..'' @ FormatISO to
            @ '': '' @ err))
        | Inr draws \<Rightarrow> map_option Inr (NewLotteryArchive Lottery from to draws)))"

text \<open>The locked section of a miss: the new entry, in flight, at the front, and the eviction.\<close>

definition evict_oldest :: "LotteryManager \<Rightarrow> LotteryManager" where
  "evict_oldest m =
     (if maxCacheEntries < length (cache m) then
        (case m_tail m of
           None \<Rightarrow> m
         | Some victim \<Rightarrow>
             if \<not> e_done (heap m victim) then
               let m = remove_entry victim m
               in m\<lparr>cache := AList.delete (e_key (heap m victim)) (cache m)\<rparr>
             else m)
      else m)"

definition archive_start :: "string \<Rightarrow> time \<Rightarrow> time \<Rightarrow> LotteryManager \<Rightarrow> nat \<times> LotteryManager" where
  "archive_start key from to m =
     (let r = fresh m;
          m = m\<lparr>heap := (heap m)(r := zero_entry\<lparr>e_key := key, e_from := from, e_to := to, e_done := True\<rparr>),
                fresh := Suc r, cache := AList.update key r (cache m)\<rparr>;
          m = addToFront r m
      in (r, evict_oldest m))"

text \<open>The locked section after the build: \<open>close(e.done); e.done = nil\<close> ends the flight.\<close>

definition archive_finish :: "nat \<Rightarrow> string \<Rightarrow> error + LotteryArchive \<Rightarrow> LotteryManager \<Rightarrow> LotteryManager" where
  "archive_finish r key res m =
     (let m = set_entry r ((heap m r)\<lparr>
                e_arch := (case res of Inl _ \<Rightarrow> None | Inr a \<Rightarrow> Some a),
                e_err := (case res of Inl e \<Rightarrow> Some e | Inr _ \<Rightarrow> None), e_done := False\<rparr>) m
      in case res of
           Inr _ \<Rightarrow> m
         | Inl _ \<Rightarrow> let m = remove_entry r m in m\<lparr>cache := AList.delete key (cache m)\<rparr>)"

text \<open>
  An uninterrupted call. On a hit of an entry in flight nobody would close its channel, so the call
  blocks: \<open>None\<close>.
\<close>

definition Archive ::
  "range_query option \<Rightarrow> time \<Rightarrow> time \<Rightarrow> LotteryManager \<Rightarrow>
   ((error + LotteryArchive option) \<times> LotteryManager) option" where
  "Archive repo from to m =
     (let (from, to) = normalizeWindow from to; key = windowKey from to in
      case map_of (cache m) key of
        Some e \<Rightarrow>
          if e_done (heap m e) then None
          else let m = moveToFront e m in Some (Inr (e_arch (heap m e)), m)
      | None \<Rightarrow>
          let (e, m) = archive_start key from to m in
          Option.bind (build repo from to) (\<lambda>res.
            let m = archive_finish e key res m
            in Some ((case res of Inl err \<Rightarrow> Inl err | Inr a \<Rightarrow> Inr (Some a)), m)))"

definition InvalidateAll :: "LotteryManager \<Rightarrow> LotteryManager" where
  "InvalidateAll m = m\<lparr>cache := [], m_head := None, m_tail := None\<rparr>"

text \<open>
  The loop of \<open>InvalidateRange\<close>; Go visits the entries of the map in an order of its own, here the
  argument \<open>visit\<close>.
\<close>

fun invalidateLoop :: "time \<Rightarrow> time \<Rightarrow> (string \<times> nat) list \<Rightarrow> LotteryManager \<Rightarrow> LotteryManager" where
  "invalidateLoop lo hi [] m = m"
| "invalidateLoop lo hi ((key, e) # rest) m =
     (if rangesOverlap (e_from (heap m e)) (e_to (heap m e)) lo hi
      then let m = remove_entry e m in invalidateLoop lo hi rest (m\<lparr>cache := AList.delete key (cache m)\<rparr>)
      else invalidateLoop lo hi rest m)"

definition InvalidateRange :: "time \<Rightarrow> time \<Rightarrow> (string \<times> nat) list \<Rightarrow> LotteryManager \<Rightarrow> LotteryManager" where
  "InvalidateRange lo hi visit m = invalidateLoop lo hi visit m"

subsection \<open>The abstract LRU cache\<close>

record window =
  w_key :: string
  w_from :: time
  w_to :: time
  w_arch :: LotteryArchive

text \<open>
  The specification: most recently used first. A hit moves the window to the front; a miss drops the
  last window when eight are resident, and adds the new one if it could be built.
\<close>

definition lru_archive ::
  "range_query option \<Rightarrow> time \<Rightarrow> time \<Rightarrow> window list \<Rightarrow> (error + LotteryArchive) \<times> window list" where
  "lru_archive repo from to ws =
     (let (from, to) = normalizeWindow from to; key = windowKey from to in
      case find (\<lambda>w. w_key w = key) ws of
        Some w \<Rightarrow> (Inr (w_arch w), w # filter (\<lambda>v. w_key v \<noteq> key) ws)
      | None \<Rightarrow>
          let rest = (if length ws < 8 then ws else butlast ws) in
          (case the (build repo from to) of
             Inl err \<Rightarrow> (Inl err, rest)
           | Inr a \<Rightarrow> (Inr a, \<lparr>w_key = key, w_from = from, w_to = to, w_arch = a\<rparr> # rest)))"

definition window_of :: "cacheEntry \<Rightarrow> window" where
  "window_of e = \<lparr>w_key = e_key e, w_from = e_from e, w_to = e_to e, w_arch = the (e_arch e)\<rparr>"

definition windows :: "LotteryManager \<Rightarrow> nat list \<Rightarrow> window list" where
  "windows m rs = map (\<lambda>r. window_of (heap m r)) rs"

text \<open>
  The invariant between calls: the list and the map hold the same entries, every entry is loaded,
  and at most eight are resident.
\<close>

definition keyed :: "LotteryManager \<Rightarrow> nat list \<Rightarrow> bool" where
  "keyed m rs \<longleftrightarrow> distinct (map fst (cache m)) \<and> set (cache m) = (\<lambda>r. (e_key (heap m r), r)) ` set rs"

definition loaded :: "LotteryManager \<Rightarrow> nat \<Rightarrow> bool" where
  "loaded m r \<longleftrightarrow> r < fresh m \<and> \<not> e_done (heap m r) \<and> e_err (heap m r) = None \<and> e_arch (heap m r) \<noteq> None"

definition cache_ok :: "LotteryManager \<Rightarrow> nat list \<Rightarrow> bool" where
  "cache_ok m rs \<longleftrightarrow> lru_list m rs \<and> keyed m rs \<and> (\<forall>r \<in> set rs. loaded m r) \<and> length rs \<le> 8"

lemma lru_list_cong:
  "(\<And>r. r \<in> set rs \<Longrightarrow> e_prev (heap m' r) = e_prev (heap m r) \<and> e_next (heap m' r) = e_next (heap m r)) \<Longrightarrow>
   m_head m' = m_head m \<Longrightarrow> m_tail m' = m_tail m \<Longrightarrow> lru_list m' rs = lru_list m rs"
  using linked_frame [of rs "heap m'" "heap m"] by (simp add: lru_list_def)

lemma keyed_cong:
  "cache m' = cache m \<Longrightarrow> (\<And>r. r \<in> set rs \<Longrightarrow> e_key (heap m' r) = e_key (heap m r)) \<Longrightarrow>
   set rs' = set rs \<Longrightarrow> keyed m rs \<Longrightarrow> keyed m' rs'"
  by (auto simp: keyed_def)

lemma keyed_lookup: "keyed m rs \<Longrightarrow> map_of (cache m) k = Some r \<longleftrightarrow> r \<in> set rs \<and> e_key (heap m r) = k"
  by (auto simp: keyed_def)

lemma keyed_inj: "keyed m rs \<Longrightarrow> r \<in> set rs \<Longrightarrow> s \<in> set rs \<Longrightarrow> e_key (heap m r) = e_key (heap m s) \<longleftrightarrow> r = s"
  by (metis keyed_lookup option.inject)

lemma keyed_length: "keyed m rs \<Longrightarrow> distinct rs \<Longrightarrow> length (cache m) = length rs"
proof -
  assume k: "keyed m rs" and d: "distinct rs"
  have "length (cache m) = card (set (cache m))"
    using k by (metis distinct_card distinct_map keyed_def)
  also have "\<dots> = card (set rs)" using k by (auto simp: keyed_def intro: card_image inj_onI)
  finally show ?thesis using d by (simp add: distinct_card)
qed

lemma alist_update_new: "k \<notin> fst ` set al \<Longrightarrow> AList.update k v al = al @ [(k, v)]"
  by (induction al) auto

lemma keyed_insert:
  "keyed m rs \<Longrightarrow> map_of (cache m) k = None \<Longrightarrow> r \<notin> set rs \<Longrightarrow> e_key (heap m' r) = k \<Longrightarrow>
   (\<And>s. s \<in> set rs \<Longrightarrow> e_key (heap m' s) = e_key (heap m s)) \<Longrightarrow>
   cache m' = AList.update k r (cache m) \<Longrightarrow> keyed m' (r # rs)"
  by (auto simp: keyed_def map_of_eq_None_iff alist_update_new)

lemma set_alist_delete: "set (AList.delete k xs) = {p \<in> set xs. fst p \<noteq> k}"
  by (auto simp: AList.delete_eq)

lemma keyed_delete:
  "keyed m rs \<Longrightarrow> r \<in> set rs \<Longrightarrow>
   (\<And>s. s \<in> set rs \<Longrightarrow> e_key (heap m' s) = e_key (heap m s)) \<Longrightarrow>
   cache m' = AList.delete (e_key (heap m r)) (cache m) \<Longrightarrow> keyed m' (filter (\<lambda>x. x \<noteq> r) rs)"
  using keyed_inj [of m rs _ r]
  by (auto simp: keyed_def set_alist_delete distinct_delete)

lemma windows_filter:
  "keyed m rs \<Longrightarrow> r \<in> set rs \<Longrightarrow>
   filter (\<lambda>w. w_key w \<noteq> e_key (heap m r)) (windows m rs) = windows m (filter (\<lambda>x. x \<noteq> r) rs)"
  using keyed_inj [of m rs _ r] by (auto simp: windows_def filter_map comp_def window_of_def intro!: arg_cong [where f = "map _"] filter_cong)

subsection \<open>Refinement\<close>

lemma find_windows:
  assumes "keyed m rs"
  shows "find (\<lambda>w. w_key w = k) (windows m rs) =
    map_option (\<lambda>r. window_of (heap m r)) (map_of (cache m) k)"
proof (cases "map_of (cache m) k")
  case None
  then have "\<forall>r \<in> set rs. e_key (heap m r) \<noteq> k"
    using keyed_lookup [OF assms] by (metis option.distinct(1))
  then show ?thesis using None by (auto simp: find_None_iff windows_def window_of_def)
next
  case (Some r)
  then have r: "r \<in> set rs" "e_key (heap m r) = k" using keyed_lookup [OF assms] by auto
  have "find (\<lambda>w. w_key w = k) (map (\<lambda>r. window_of (heap m r)) ss) = Some (window_of (heap m r))"
    if "r \<in> set ss" "set ss \<subseteq> set rs" for ss
    using that
  proof (induction ss)
    case (Cons s ss)
    then show ?case
      using keyed_inj [OF assms, of s r] r by (cases "s = r") (auto simp: window_of_def)
  qed simp
  then show ?thesis using r Some by (simp add: windows_def)
qed

lemma archive_hit:
  assumes ok: "cache_ok m rs" and hit: "map_of (cache m) key = Some r"
  shows "let m' = moveToFront r m; rs' = r # filter (\<lambda>x. x \<noteq> r) rs in
    cache_ok m' rs' \<and>
    windows m' rs' = window_of (heap m r) # filter (\<lambda>v. w_key v \<noteq> key) (windows m rs)"
proof -
  have k: "keyed m rs" and l: "lru_list m rs" using ok by (auto simp: cache_ok_def)
  have r: "r \<in> set rs" "e_key (heap m r) = key" using keyed_lookup [OF k] hit by auto
  have w: "window_of (heap (moveToFront r m) x) = window_of (heap m x)" for x
    by (simp add: window_of_def)
  have "cache_ok (moveToFront r m) (r # filter (\<lambda>x. x \<noteq> r) rs)"
    unfolding cache_ok_def
  proof (intro conjI)
    show "keyed (moveToFront r m) (r # filter (\<lambda>x. x \<noteq> r) rs)"
      by (rule keyed_cong [OF _ _ _ k]) (use r in auto)
    show "\<forall>x \<in> set (r # filter (\<lambda>x. x \<noteq> r) rs). loaded (moveToFront r m) x"
      using ok r by (auto simp: cache_ok_def loaded_def)
    have d: "distinct rs" "distinct (r # filter (\<lambda>x. x \<noteq> r) rs)" "length rs \<le> 8"
      using l ok by (auto simp: lru_list_def cache_ok_def)
    have "card (set (r # filter (\<lambda>x. x \<noteq> r) rs)) = card (set rs)"
      using r by (intro arg_cong [where f = card]) auto
    then show "length (r # filter (\<lambda>x. x \<noteq> r) rs) \<le> 8"
      using d by (simp only: distinct_card)
  qed (rule moveToFront_list [OF l r(1)])
  then show ?thesis
    using windows_filter [OF k r(1)] r(2) by (simp add: windows_def w)
qed

text \<open>After the locked section of a miss the list holds the new entry and what the eviction left.\<close>

lemma archive_start_list:
  assumes ok: "cache_ok m rs" and miss: "map_of (cache m) key = None"
  shows "let (r, m') = archive_start key from to m; rest = (if length rs < 8 then rs else butlast rs) in
    r = fresh m \<and> fresh m' = Suc r \<and> lru_list m' (r # rest) \<and> keyed m' (r # rest) \<and>
    (\<forall>x \<in> set rest. contents (heap m' x) = contents (heap m x)) \<and>
    contents (heap m' r) = (key, from, to, None, True, None)"
proof -
  let ?r = "fresh m"
  let ?e = "zero_entry\<lparr>e_key := key, e_from := from, e_to := to, e_done := True\<rparr>"
  let ?m0 = "m\<lparr>heap := (heap m)(?r := ?e), fresh := Suc ?r, cache := AList.update key ?r (cache m)\<rparr>"
  let ?m1 = "addToFront ?r ?m0"
  have k: "keyed m rs" and l: "lru_list m rs" and d: "distinct rs"
    using ok by (auto simp: cache_ok_def lru_list_def)
  have new: "?r \<notin> set rs" using ok by (auto simp: cache_ok_def loaded_def)
  have "lru_list ?m0 rs = lru_list m rs" by (rule lru_list_cong) (use new in auto)
  then have l0: "lru_list ?m0 rs" using l by blast
  have l1: "lru_list ?m1 (?r # rs)" by (rule addToFront_list [OF l0 new])
  have k1: "keyed ?m1 (?r # rs)"
    by (rule keyed_insert [OF k miss new]) (use new in auto)
  have c1: "contents (heap ?m1 x) = contents (heap m x)" if "x \<in> set rs" for x
    using addToFront_contents [of ?r ?m0] that new by (auto simp: same_contents_def)
  have e1: "contents (heap ?m1 ?r) = (key, from, to, None, True, None)"
    using addToFront_contents [of ?r ?m0] by (simp add: same_contents_def contents_def zero_entry_def)
  have len: "length (cache ?m1) = Suc (length rs)"
    using keyed_length [OF k1] d new by simp
  show ?thesis
  proof (cases "length rs < 8")
    case True
    then show ?thesis
      using len l1 k1 c1 e1 by (simp add: archive_start_def evict_oldest_def maxCacheEntries_def Let_def)
  next
    case False
    then have ne: "rs \<noteq> []" by auto
    let ?v = "last rs"
    have v: "m_tail ?m1 = Some ?v" "lru_list (remove_entry ?v ?m1) (butlast (?r # rs))"
      using dll.evict [OF l1] ne by auto
    have vin: "?v \<in> set rs" "?v \<in> set (?r # rs)" using ne by auto
    have nd: "\<not> e_done (heap ?m1 ?v)"
      using c1 [OF vin(1)] ok vin(1) by (auto simp: contents_def cache_ok_def loaded_def)
    let ?m2 = "(remove_entry ?v ?m1)\<lparr>cache := AList.delete (e_key (heap ?m1 ?v)) (cache ?m1)\<rparr>"
    have fil: "filter (\<lambda>x. x \<noteq> ?v) (?r # rs) = ?r # butlast rs"
    proof -
      have "filter (\<lambda>x. x \<noteq> ?v) (butlast rs @ [?v]) = butlast rs"
        using d ne by (cases rs rule: rev_cases) (auto simp: filter_id_conv)
      then show ?thesis using ne new by auto
    qed
    have l2: "lru_list ?m2 (?r # butlast rs)"
      using v(2) ne lru_list_cong [of "?r # butlast rs" ?m2 "remove_entry ?v ?m1"] by simp
    have k2: "keyed ?m2 (?r # butlast rs)"
      using keyed_delete [OF k1 vin(2), of ?m2] fil by simp
    have c2: "contents (heap ?m2 x) = contents (heap ?m1 x)" for x
      using remove_entry_contents [of ?v ?m1] by (simp add: same_contents_def)
    have "archive_start key from to m = (?r, ?m2)"
      using False len v(1) nd by (simp add: archive_start_def evict_oldest_def maxCacheEntries_def Let_def)
    then show ?thesis using False l2 k2 c1 c2 e1 by (auto dest: in_set_butlastD)
  qed
qed

lemma build_ok: "\<exists>res. build repo from to = Some res"
proof -
  have "\<exists>a. NewLotteryArchive Lottery from to ds = Some a" for ds
    using NewLotteryArchive_ok by blast
  then show ?thesis by (auto simp: build_def split: option.splits sum.splits)
qed

lemma archive_finish_list:
  assumes l: "lru_list m (r # rest)" and k: "keyed m (r # rest)" and old: "\<forall>x \<in> set rest. loaded m x"
    and r: "contents (heap m r) = (key, from, to, None, True, None)" "r < fresh m"
    and len: "length rest < 8"
  shows "let m' = archive_finish r key res m; rs' = (case res of Inl _ \<Rightarrow> rest | Inr _ \<Rightarrow> r # rest) in
    cache_ok m' rs' \<and>
    windows m' rs' = (case res of Inl _ \<Rightarrow> [] | Inr a \<Rightarrow> [\<lparr>w_key = key, w_from = from, w_to = to, w_arch = a\<rparr>])
      @ windows m rest"
proof -
  have new: "r \<notin> set rest" using l by (simp add: lru_list_def)
  let ?e = "(heap m r)\<lparr>e_arch := (case res of Inl _ \<Rightarrow> None | Inr a \<Rightarrow> Some a),
      e_err := (case res of Inl e \<Rightarrow> Some e | Inr _ \<Rightarrow> None), e_done := False\<rparr>"
  let ?m1 = "set_entry r ?e m"
  have "lru_list ?m1 (r # rest) = lru_list m (r # rest)"
    by (rule lru_list_cong) (auto simp: set_entry_def)
  then have l1: "lru_list ?m1 (r # rest)" using l by blast
  have k1: "keyed ?m1 (r # rest)" by (rule keyed_cong [OF _ _ _ k]) (auto simp: set_entry_def)
  have o1: "heap ?m1 x = heap m x" if "x \<noteq> r" for x using that by (simp add: set_entry_def)
  have r1: "contents (heap ?m1 r) = (key, from, to, (case res of Inl _ \<Rightarrow> None | Inr a \<Rightarrow> Some a), False,
      (case res of Inl e \<Rightarrow> Some e | Inr _ \<Rightarrow> None))"
    using r by (simp add: set_entry_def contents_def)
  have f1: "fresh ?m1 = fresh m" by (simp add: set_entry_def)
  show ?thesis
  proof (cases res)
    case (Inr a)
    have "archive_finish r key res m = ?m1" by (simp add: archive_finish_def Inr)
    moreover have "\<forall>x \<in> set (r # rest). loaded ?m1 x"
      using old r r1 o1 f1 new Inr by (auto simp: loaded_def contents_def set_entry_def)
    ultimately show ?thesis
      using l1 k1 len r1 o1 new Inr
      by (auto simp: cache_ok_def windows_def window_of_def contents_def set_entry_def)
  next
    case (Inl err)
    let ?m2 = "(remove_entry r ?m1)\<lparr>cache := AList.delete key (cache ?m1)\<rparr>"
    have "archive_finish r key res m = ?m2" by (simp add: archive_finish_def Inl Let_def)
    moreover have fil: "filter (\<lambda>x. x \<noteq> r) (r # rest) = rest" using new by (auto simp: filter_id_conv)
    moreover have "lru_list ?m2 rest"
      using dll.drop_one [OF l1, of r] fil lru_list_cong [of rest ?m2 "remove_entry r ?m1"] by simp
    moreover have "keyed ?m2 rest"
      using keyed_delete [OF k1, of r ?m2] r1 fil by (simp add: contents_def)
    moreover have same: "heap ?m1 x = heap m x" if "x \<in> set rest" for x
      using that new by (intro o1) auto
    then have "\<forall>x \<in> set rest. loaded ?m2 x" using old f1 by (simp add: loaded_def)
    moreover have "windows ?m2 rest = windows m rest"
      using same by (simp add: windows_def window_of_def)
    ultimately show ?thesis using len Inl by (simp add: cache_ok_def)
  qed
qed

lemma Archive_step:
  assumes ok: "cache_ok m rs"
  shows "\<exists>m' rs'. Archive repo from to m =
      Some (map_sum id Some (fst (lru_archive repo from to (windows m rs))), m') \<and>
    cache_ok m' rs' \<and> windows m' rs' = snd (lru_archive repo from to (windows m rs))"
proof -
  obtain lo hi where nw: "normalizeWindow from to = (lo, hi)" by fastforce
  define key where "key = windowKey lo hi"
  have k: "keyed m rs" using ok by (simp add: cache_ok_def)
  show ?thesis
  proof (cases "map_of (cache m) key")
    case (Some r)
    have r: "r \<in> set rs" using keyed_lookup [OF k] Some by simp
    have ld: "\<not> e_done (heap m r)" "\<exists>a. e_arch (heap m r) = Some a"
      using ok r by (auto simp: cache_ok_def loaded_def)
    have "lru_archive repo from to (windows m rs) = (Inr (w_arch (window_of (heap m r))),
        window_of (heap m r) # filter (\<lambda>v. w_key v \<noteq> key) (windows m rs))"
      using find_windows [OF k, of key] Some by (simp add: lru_archive_def nw key_def [symmetric] Let_def)
    moreover have "Archive repo from to m = Some (Inr (e_arch (heap m r)), moveToFront r m)"
      using Some ld(1) by (simp add: Archive_def nw key_def [symmetric] Let_def)
    ultimately show ?thesis
      using archive_hit [OF ok Some] ld(2) unfolding Let_def
      by (intro exI [of _ "moveToFront r m"] exI [of _ "r # filter (\<lambda>x. x \<noteq> r) rs"])
        (auto simp: window_of_def)
  next
    case None
    let ?rest = "if length rs < 8 then rs else butlast rs"
    obtain r m1 where s: "archive_start key lo hi m = (r, m1)" by fastforce
    have m1: "r = fresh m" "fresh m1 = Suc r" "lru_list m1 (r # ?rest)" "keyed m1 (r # ?rest)"
      "\<forall>x \<in> set ?rest. contents (heap m1 x) = contents (heap m x)"
      "contents (heap m1 r) = (key, lo, hi, None, True, None)"
      using archive_start_list [OF ok None, of lo hi] unfolding s Let_def by auto
    have old: "\<forall>x \<in> set ?rest. loaded m1 x"
    proof
      fix x assume x: "x \<in> set ?rest"
      then have "x \<in> set rs" by (auto split: if_splits dest: in_set_butlastD)
      then have "loaded m x" using ok by (simp add: cache_ok_def)
      moreover have "contents (heap m1 x) = contents (heap m x)" using m1(5) x by blast
      ultimately show "loaded m1 x" using m1(1,2) by (auto simp: loaded_def contents_def)
    qed
    have len: "length ?rest < 8" using ok by (auto simp: cache_ok_def)
    obtain res where res: "build repo lo hi = Some res" using build_ok by blast
    let ?m2 = "archive_finish r key res m1"
    let ?rs = "case res of Inl _ \<Rightarrow> ?rest | Inr _ \<Rightarrow> r # ?rest"
    have fin: "cache_ok ?m2 ?rs" "windows ?m2 ?rs =
        (case res of Inl _ \<Rightarrow> [] | Inr a \<Rightarrow> [\<lparr>w_key = key, w_from = lo, w_to = hi, w_arch = a\<rparr>])
          @ windows m1 ?rest"
      using archive_finish_list [OF m1(3,4) old m1(6) _ len, of res] m1(2) by (simp_all add: Let_def)
    have w: "windows m1 ?rest = (if length (windows m rs) < 8 then windows m rs else butlast (windows m rs))"
      using m1(5) by (auto simp: windows_def window_of_def contents_def map_butlast [symmetric] dest: in_set_butlastD)
    have "lru_archive repo from to (windows m rs) =
        (case res of Inl err \<Rightarrow> (Inl err, windows m1 ?rest)
         | Inr a \<Rightarrow> (Inr a, \<lparr>w_key = key, w_from = lo, w_to = hi, w_arch = a\<rparr> # windows m1 ?rest))"
      unfolding lru_archive_def nw Let_def prod.case key_def [symmetric] find_windows [OF k] None
        option.map option.case res option.sel w ..
    moreover have "Archive repo from to m =
        Some ((case res of Inl err \<Rightarrow> Inl err | Inr a \<Rightarrow> Inr (Some a)), ?m2)"
      using None s res by (simp add: Archive_def nw key_def [symmetric] Let_def)
    ultimately show ?thesis
      using fin by (intro exI [of _ ?m2] exI [of _ ?rs]) (auto split: sum.splits)
  qed
qed

lemma invalidateLoop_step:
  "lru_list m rs \<Longrightarrow> keyed m rs \<Longrightarrow> (\<forall>r \<in> set rs. loaded m r) \<Longrightarrow> distinct visit \<Longrightarrow>
   set visit \<subseteq> set (cache m) \<Longrightarrow>
   \<exists>rs'. lru_list (invalidateLoop lo hi visit m) rs' \<and> keyed (invalidateLoop lo hi visit m) rs' \<and>
     (\<forall>r \<in> set rs'. loaded (invalidateLoop lo hi visit m) r) \<and>
     rs' = filter (\<lambda>r. r \<notin> snd ` set visit \<or> \<not> rangesOverlap (e_from (heap m r)) (e_to (heap m r)) lo hi) rs \<and>
     windows (invalidateLoop lo hi visit m) rs' = windows m rs'"
proof (induction visit arbitrary: m rs)
  case Nil
  then show ?case by auto
next
  case (Cons v visit)
  obtain key e where v: "v = (key, e)" by fastforce
  have e: "e \<in> set rs" "e_key (heap m e) = key"
    using Cons.prems(2,5) v by (auto simp: keyed_def)
  have vs: "e \<notin> snd ` set visit"
    using Cons.prems(2,4,5) v by (fastforce simp: keyed_def)
  let ?hit = "rangesOverlap (e_from (heap m e)) (e_to (heap m e)) lo hi"
  show ?case
  proof (cases ?hit)
    case False
    have "filter (\<lambda>r. r \<notin> snd ` set visit \<or> \<not> rangesOverlap (e_from (heap m r)) (e_to (heap m r)) lo hi) rs =
      filter (\<lambda>r. r \<notin> snd ` set (v # visit) \<or> \<not> rangesOverlap (e_from (heap m r)) (e_to (heap m r)) lo hi) rs"
      using False v by (intro filter_cong) auto
    then show ?thesis using Cons.IH [of m rs] Cons.prems False v by simp
  next
    case True
    let ?m1 = "(remove_entry e m)\<lparr>cache := AList.delete key (cache m)\<rparr>"
    let ?rs1 = "filter (\<lambda>x. x \<noteq> e) rs"
    have l1: "lru_list ?m1 ?rs1"
      using dll.drop_one [OF Cons.prems(1) e(1)] lru_list_cong [of ?rs1 ?m1 "remove_entry e m"] by simp
    have k1: "keyed ?m1 ?rs1"
      using keyed_delete [OF Cons.prems(2) e(1), of ?m1] e(2) by simp
    have "set visit \<subseteq> set (cache ?m1)"
    proof
      fix p assume p: "p \<in> set visit"
      then have "p \<in> set (cache m)" "snd p \<noteq> e" using Cons.prems(5) vs by auto
      moreover from this obtain x where "p = (e_key (heap m x), x)" "x \<in> set rs"
        using Cons.prems(2) by (auto simp: keyed_def)
      ultimately show "p \<in> set (cache ?m1)"
        using keyed_inj [OF Cons.prems(2) _ e(1)] e(2) by (auto simp: set_alist_delete)
    qed
    moreover have "\<forall>r \<in> set ?rs1. loaded ?m1 r" using Cons.prems(3) by (auto simp: loaded_def)
    ultimately obtain rs' where rs': "lru_list (invalidateLoop lo hi visit ?m1) rs'"
      "keyed (invalidateLoop lo hi visit ?m1) rs'" "\<forall>r \<in> set rs'. loaded (invalidateLoop lo hi visit ?m1) r"
      "rs' = filter (\<lambda>r. r \<notin> snd ` set visit \<or> \<not> rangesOverlap (e_from (heap m r)) (e_to (heap m r)) lo hi) ?rs1"
      "windows (invalidateLoop lo hi visit ?m1) rs' = windows ?m1 rs'"
      using Cons.IH [OF l1 k1] Cons.prems(4) by auto
    have "rs' = filter (\<lambda>r. r \<notin> snd ` set (v # visit) \<or> \<not> rangesOverlap (e_from (heap m r)) (e_to (heap m r)) lo hi) rs"
      unfolding rs'(4) filter_filter using True v by (intro filter_cong) auto
    moreover have "windows ?m1 rs' = windows m rs'" by (simp add: windows_def window_of_def)
    ultimately show ?thesis using rs' True v by (simp add: Let_def)
  qed
qed

lemma cache_ok_new: "cache_ok NewLotteryManager []"
  by (simp add: cache_ok_def NewLotteryManager_def lru_list_def keyed_def)

lemma cache_ok_size: "cache_ok m rs \<Longrightarrow> CacheSize m = length rs"
  using keyed_length by (auto simp: cache_ok_def CacheSize_def lru_list_def)

lemma InvalidateRange_list:
  assumes "cache_ok m rs" and "distinct visit" and "set visit = set (cache m)"
  shows "\<exists>rs'. cache_ok (InvalidateRange lo hi visit m) rs' \<and>
    windows (InvalidateRange lo hi visit m) rs' =
      filter (\<lambda>w. \<not> rangesOverlap (w_from w) (w_to w) lo hi) (windows m rs)"
proof -
  have ok: "lru_list m rs" "keyed m rs" "\<forall>r \<in> set rs. loaded m r" "length rs \<le> 8"
    using assms(1) by (auto simp: cache_ok_def)
  obtain rs' where rs': "lru_list (invalidateLoop lo hi visit m) rs'"
    "keyed (invalidateLoop lo hi visit m) rs'" "\<forall>r \<in> set rs'. loaded (invalidateLoop lo hi visit m) r"
    "rs' = filter (\<lambda>r. r \<notin> snd ` set visit \<or> \<not> rangesOverlap (e_from (heap m r)) (e_to (heap m r)) lo hi) rs"
    "windows (invalidateLoop lo hi visit m) rs' = windows m rs'"
    using invalidateLoop_step [OF ok(1-3) assms(2), of lo hi] assms(3) by auto
  have "snd ` set visit = set rs" using ok(2) assms(3) by (simp add: keyed_def image_image)
  then have eq: "rs' = filter (\<lambda>r. \<not> rangesOverlap (e_from (heap m r)) (e_to (heap m r)) lo hi) rs"
    unfolding rs'(4) by (intro filter_cong) auto
  then have "length rs' \<le> 8" using ok(4) by (auto intro: order_trans [OF length_filter_le])
  moreover have "windows m rs' = filter (\<lambda>w. \<not> rangesOverlap (w_from w) (w_to w) lo hi) (windows m rs)"
    by (simp add: eq windows_def filter_map comp_def window_of_def)
  ultimately show ?thesis using rs' by (auto simp: InvalidateRange_def cache_ok_def)
qed

subsection \<open>Properties\<close>

text \<open>C6: An uninterrupted \<open>Archive\<close> call on a consistent cache neither blocks nor panics, answers what the
  abstract LRU list answers (the resident archive of the window's key, or the newly built one, or the
  load error), and leaves the pointers, the map and the list consistent with the list's next state.\<close>

theorem Archive_refines:
  assumes "cache_ok m rs"
  shows "\<exists>m' rs'. Archive repo from to m =
      Some (map_sum id Some (fst (lru_archive repo from to (windows m rs))), m') \<and>
    cache_ok m' rs' \<and> windows m' rs' = snd (lru_archive repo from to (windows m rs)) \<and> CacheSize m' \<le> 8"
proof -
  obtain m' rs' where *: "Archive repo from to m =
      Some (map_sum id Some (fst (lru_archive repo from to (windows m rs))), m')"
    "cache_ok m' rs'" "windows m' rs' = snd (lru_archive repo from to (windows m rs))"
    using Archive_step [OF assms, of repo "from" to] by blast
  moreover have "CacheSize m' \<le> 8" using cache_ok_size [OF *(2)] *(2) by (simp add: cache_ok_def)
  ultimately show ?thesis by blast
qed

theorem Archive_refines_witness:
  "\<exists>m' rs'. Archive (Some (\<lambda>_ _. Inl ''down'')) 0 0 NewLotteryManager =
      Some (map_sum id Some (fst (lru_archive (Some (\<lambda>_ _. Inl ''down'')) 0 0 [])), m') \<and>
    cache_ok m' rs' \<and> windows m' rs' = snd (lru_archive (Some (\<lambda>_ _. Inl ''down'')) 0 0 []) \<and> CacheSize m' \<le> 8"
  using Archive_refines [OF cache_ok_new, of "Some (\<lambda>_ _. Inl ''down'')" 0 0] by (simp add: windows_def)



text \<open>the key has the granularity of a day: of two windows whose bounds are on the same days the second
  is answered with the archive of the first, even where their bounds, and so their draws, differ.\<close>

theorem Archive_same_day:
  assumes "0 < lo" and "0 < hi" and "0 < hi'" and "hi div ns_day = hi' div ns_day"
    and "query lo hi = Inr draws"
  shows "\<exists>a m1 m2. Archive (Some query) lo hi NewLotteryManager = Some (Inr (Some a), m1) \<and>
    a_To a = hi \<and> Draws a = draws \<and> Archive (Some query) lo hi' m1 = Some (Inr (Some a), m2)"
proof -
  obtain a where a: "NewLotteryArchive Lottery lo hi draws = Some a" "a_To a = hi" "archive_of Lottery draws a"
    using NewLotteryArchive_ok by blast
  have key: "windowKey lo hi' = windowKey lo hi"
    using assms windowKey_eq_iff [of lo hi' lo hi] by (simp add: IsZero_def)
  have nw: "normalizeWindow lo t = (lo, t)" for t
    using assms(1) by (simp add: normalizeWindow_def IsZero_def)
  let ?w = "\<lparr>w_key = windowKey lo hi, w_from = lo, w_to = hi, w_arch = a\<rparr>"
  have first: "lru_archive (Some query) lo hi [] = (Inr a, [?w])"
    by (simp add: lru_archive_def nw build_def assms(5) a(1))
  obtain m1 rs1 where m1: "Archive (Some query) lo hi NewLotteryManager = Some (Inr (Some a), m1)"
    "cache_ok m1 rs1" "windows m1 rs1 = [?w]"
    using Archive_step [OF cache_ok_new, of "Some query" lo hi] first by (auto simp: windows_def)
  have "lru_archive (Some query) lo hi' [?w] = (Inr a, [?w])"
    by (simp add: lru_archive_def nw key)
  then obtain m2 where "Archive (Some query) lo hi' m1 = Some (Inr (Some a), m2)"
    using Archive_step [OF m1(2), of "Some query" lo hi'] m1(3) by auto
  with m1(1) a show ?thesis by (auto simp: archive_of_def)
qed

theorem Archive_same_day_witness:
  "\<exists>a m1 m2. Archive (Some (\<lambda>_ _. Inr [])) 1 2 NewLotteryManager = Some (Inr (Some a), m1) \<and>
    a_To a = 2 \<and> Draws a = [] \<and> Archive (Some (\<lambda>_ _. Inr [])) 1 3 m1 = Some (Inr (Some a), m2)"
  by (rule Archive_same_day) (simp_all add: ns_day_def)

end
