(* ===== verification/Repository.thy ===== *)
theory Repository
  imports Manager
begin

section \<open>The draws table (repository)\<close>

text \<open>
  \<open>internal/repository/lottery_result_repository.go\<close>: each SQL statement of the source is written as a
  function on the table \<open>lottery_results\<close>, a list of rows, and each method composes its statements the way
  the code does. PostgreSQL itself is a service: the outcome of every statement is decided by the next entry
  of \<open>faults\<close>. No entry or \<open>None\<close> means success; \<open>Refused e\<close> is a failure with the error \<open>e\<close>;
  \<open>Cut n\<close> is a connection lost after \<open>n\<close> result rows, which pgx reports by ending \<open>rows.Next()\<close>
  and through \<open>rows.Err()\<close>, which the source never reads. The id of a row comes from a sequence, which
  is not rolled back. Times are in whole microseconds, the resolution of a \<open>TIMESTAMP\<close>, and rows with equal
  dates come in the order of the table.
\<close>

subsection \<open>Statements and their failures\<close>

datatype fault = Refused error | Cut nat

record database =
  rows :: "LotteryResult list"
  next_id :: int
  faults :: "fault option list"
  current_timestamp :: time

definition pop_fault :: "database \<Rightarrow> fault option \<times> database" where
  "pop_fault db = (case faults db of [] \<Rightarrow> (None, db) | f # fs \<Rightarrow> (f, db\<lparr>faults := fs\<rparr>))"

text \<open>What a failed statement reports when it does not stream rows.\<close>

definition fault_error :: "fault \<Rightarrow> error" where
  "fault_error f = (case f of Refused e \<Rightarrow> e | Cut n \<Rightarrow> ''unexpected EOF'')"

text \<open>\<open>Exec\<close>, \<open>Begin\<close> and \<open>Commit\<close>: the statement as a change of the database, which can fail.\<close>

definition exec_stmt :: "(database \<Rightarrow> error + database) \<Rightarrow> database \<Rightarrow> error option \<times> database" where
  "exec_stmt stmt db =
     (let (f, db) = pop_fault db in
      case f of
        Some g \<Rightarrow> (Some (fault_error g), db)
      | None \<Rightarrow> (case stmt db of Inl e \<Rightarrow> (Some e, db) | Inr db' \<Rightarrow> (None, db')))"

text \<open>\<open>Query\<close> with the loop over \<open>rows.Next()\<close>: a cut stream just ends the loop.\<close>

definition query_rows :: "(database \<Rightarrow> 'a list) \<Rightarrow> database \<Rightarrow> (error + 'a list) \<times> database" where
  "query_rows q db =
     (let (f, db) = pop_fault db in
      (case f of None \<Rightarrow> Inr (q db) | Some (Refused e) \<Rightarrow> Inl e | Some (Cut n) \<Rightarrow> Inr (take n (q db)), db))"

text \<open>\<open>QueryRow(...).Scan(...)\<close>: the first row, or \<open>pgx.ErrNoRows\<close>.\<close>

definition scan_first :: "'a list \<Rightarrow> error + 'a" where
  "scan_first xs = (case xs of [] \<Rightarrow> Inl ''no rows in result set'' | x # _ \<Rightarrow> Inr x)"

definition query_row :: "(database \<Rightarrow> 'a list) \<Rightarrow> database \<Rightarrow> (error + 'a) \<times> database" where
  "query_row q db =
     (let (f, db) = pop_fault db in
      (case f of Some g \<Rightarrow> Inl (fault_error g) | None \<Rightarrow> scan_first (q db), db))"

text \<open>\<open>fmt.Errorf("prefix: %w", err)\<close>\<close>

definition wrap_error :: "string \<Rightarrow> error + 'a \<Rightarrow> error + 'a" where
  "wrap_error prefix res = (case res of Inl e \<Rightarrow> Inl (prefix @ '': '' @ e) | Inr x \<Rightarrow> Inr x)"

subsection \<open>Writing rows\<close>

text \<open>What the columns accept: INTEGER values, a VARCHAR(50), JSON numbers.\<close>

definition json_number :: "f64 \<Rightarrow> bool" where
  "json_number x \<longleftrightarrow> (case x of Fin _ \<Rightarrow> True | _ \<Rightarrow> False)"

definition storable :: "LotteryResult \<Rightarrow> bool" where
  "storable r \<longleftrightarrow> in_int32 (DrawNumber r) \<and> (\<forall>n \<in> set (d_Numbers r). in_int32 n) \<and> in_int32 (d_Strong r) \<and>
     length (d_LotteryType r) \<le> 50 \<and>
     (case PrizeAmounts r of None \<Rightarrow> True | Some ps \<Rightarrow> \<forall>p \<in> set ps. json_number p)"

definition has_draw :: "database \<Rightarrow> int \<Rightarrow> bool" where
  "has_draw db n \<longleftrightarrow> n \<in> DrawNumber ` set (rows db)"

definition append_row :: "LotteryResult \<Rightarrow> database \<Rightarrow> database" where
  "append_row r db = db\<lparr>rows := rows db @ [r\<lparr>ID := next_id db\<rparr>], next_id := next_id db + 1\<rparr>"

text \<open>\<open>INSERT ... ON CONFLICT (draw_number) DO UPDATE SET ...\<close>\<close>

definition merge_row :: "LotteryResult \<Rightarrow> LotteryResult \<Rightarrow> LotteryResult" where
  "merge_row new old = old\<lparr>DrawDate := DrawDate new, d_Numbers := d_Numbers new, d_Strong := d_Strong new,
     d_LotteryType := d_LotteryType new,
     PrizeAmounts := (case PrizeAmounts new of None \<Rightarrow> PrizeAmounts old | Some ps \<Rightarrow> Some ps),
     UpdatedAt := UpdatedAt new\<rparr>"

definition upsert_stmt :: "LotteryResult \<Rightarrow> database \<Rightarrow> error + database" where
  "upsert_stmt r db =
     (if \<not> storable r then Inl ''cannot encode''
      else if has_draw db (DrawNumber r)
      then Inr (db\<lparr>rows := map (\<lambda>old. if DrawNumber old = DrawNumber r then merge_row r old else old) (rows db),
                  next_id := next_id db + 1\<rparr>)
      else Inr (append_row r db))"

text \<open>\<open>INSERT ... ON CONFLICT (draw_number) DO NOTHING\<close>\<close>

definition insert_stmt :: "LotteryResult \<Rightarrow> database \<Rightarrow> error + database" where
  "insert_stmt r db =
     (if \<not> storable r then Inl ''cannot encode''
      else if has_draw db (DrawNumber r) then Inr (db\<lparr>next_id := next_id db + 1\<rparr>)
      else Inr (append_row r db))"

text \<open>\<open>tx.Rollback\<close> and a failed \<open>tx.Commit\<close>: the rows of the start of the transaction.\<close>

definition rollback :: "database \<Rightarrow> database \<Rightarrow> database" where
  "rollback before db = db\<lparr>rows := rows before\<rparr>"

definition Create :: "LotteryResult \<Rightarrow> database \<Rightarrow> (error + LotteryResult) \<times> database" where
  "Create result db =
     (case exec_stmt (upsert_stmt result) db of
        (Some e, db) \<Rightarrow> (Inl (''failed to create lottery result: '' @ e), db)
      | (None, db) \<Rightarrow>
          (case scan_first (filter (\<lambda>r. DrawNumber r = DrawNumber result) (rows db)) of
             Inl e \<Rightarrow> (Inl (''failed to create lottery result: '' @ e), db)
           | Inr r \<Rightarrow> (Inr (result\<lparr>ID := ID r, CreatedAt := CreatedAt r, UpdatedAt := UpdatedAt r\<rparr>), db)))"

fun batchLoop :: "LotteryResult list \<Rightarrow> database \<Rightarrow> error option \<times> database" where
  "batchLoop [] db = (None, db)"
| "batchLoop (r # rs) db =
     (case exec_stmt (upsert_stmt r) db of
        (Some e, db) \<Rightarrow> (Some (''failed to create lottery result batch (draw '' @ Itoa (DrawNumber r) @ ''): '' @ e), db)
      | (None, db) \<Rightarrow> batchLoop rs db)"

definition CreateBatch :: "LotteryResult list \<Rightarrow> database \<Rightarrow> error option \<times> database" where
  "CreateBatch results db =
     (case exec_stmt Inr db of
        (Some e, db) \<Rightarrow> (Some (''failed to begin transaction: '' @ e), db)
      | (None, before) \<Rightarrow>
          (case batchLoop results before of
             (Some e, db) \<Rightarrow> (Some e, rollback before db)
           | (None, db) \<Rightarrow>
               (case exec_stmt Inr db of
                  (Some e, db) \<Rightarrow> (Some (''failed to commit transaction: '' @ e), rollback before db)
                | (None, db) \<Rightarrow> (None, db))))"

subsection \<open>Reading rows\<close>

definition GetByID :: "int \<Rightarrow> database \<Rightarrow> (error + LotteryResult) \<times> database" where
  "GetByID i db =
     (let (res, db) = query_row (\<lambda>db. filter (\<lambda>r. ID r = i) (rows db)) db
      in (wrap_error ''failed to get lottery result'' res, db))"

definition GetByDrawNumber :: "int \<Rightarrow> database \<Rightarrow> (error + LotteryResult) \<times> database" where
  "GetByDrawNumber n db =
     (let (res, db) = query_row (\<lambda>db. filter (\<lambda>r. DrawNumber r = n) (rows db)) db
      in (wrap_error ''failed to get lottery result by draw number'' res, db))"

definition limited :: "int \<Rightarrow> 'a list \<Rightarrow> 'a list" where
  "limited limit xs = (if 0 < limit then take (nat limit) xs else xs)"

definition by_date_desc :: "LotteryResult list \<Rightarrow> LotteryResult list" where
  "by_date_desc = sort_key (\<lambda>r. - DrawDate r)"

definition GetAll :: "int \<Rightarrow> database \<Rightarrow> (error + LotteryResult list) \<times> database" where
  "GetAll limit db =
     (let (res, db) = query_rows (\<lambda>db. limited limit (by_date_desc (rows db))) db
      in (wrap_error ''failed to get lottery results'' res, db))"

definition GetLatest :: "database \<Rightarrow> (error + LotteryResult) \<times> database" where
  "GetLatest db =
     (let (res, db) = query_row (\<lambda>db. take 1 (by_date_desc (rows db))) db
      in (wrap_error ''failed to get latest lottery result'' res, db))"

definition Count :: "database \<Rightarrow> (error + int) \<times> database" where
  "Count db =
     (let (res, db) = query_row (\<lambda>db. [int (length (rows db))]) db
      in (wrap_error ''failed to count lottery results'' res, db))"

text \<open>The condition is built up from the bounds that are set.\<close>

definition in_range :: "time \<Rightarrow> time \<Rightarrow> LotteryResult \<Rightarrow> bool" where
  "in_range from to r \<longleftrightarrow> (\<not> IsZero from \<longrightarrow> from \<le> DrawDate r) \<and> (\<not> IsZero to \<longrightarrow> DrawDate r \<le> to)"

definition select_range :: "time \<Rightarrow> time \<Rightarrow> LotteryResult list \<Rightarrow> LotteryResult list" where
  "select_range from to rs = sort_key DrawDate (filter (in_range from to) rs)"

definition GetByDateRange :: "time \<Rightarrow> time \<Rightarrow> database \<Rightarrow> (error + LotteryResult list) \<times> database" where
  "GetByDateRange from to db =
     (let (res, db) = query_rows (\<lambda>db. select_range from to (rows db)) db
      in (wrap_error ''failed to get lottery results by date range'' res, db))"

subsection \<open>Inserting new draws\<close>

fun existing_set :: "int list \<Rightarrow> (int \<times> bool) list \<Rightarrow> (int \<times> bool) list" where
  "existing_set [] known = known"
| "existing_set (dn # dns) known = existing_set dns (AList.update dn True known)"

definition existingDrawNumbers :: "int list \<Rightarrow> database \<Rightarrow> (error + (int \<times> bool) list) \<times> database" where
  "existingDrawNumbers candidates db =
     (if candidates = [] then (Inr [], db)
      else
        (let (res, db) = query_rows (\<lambda>db. filter (\<lambda>n. n \<in> set candidates) (map DrawNumber (rows db))) db in
         (case res of
            Inl e \<Rightarrow> Inl (''failed to query existing draw numbers: '' @ e)
          | Inr dns \<Rightarrow> Inr (existing_set dns []), db)))"

definition widen :: "time \<Rightarrow> time \<times> time \<Rightarrow> time \<times> time" where
  "widen d w =
     (if IsZero (fst w) \<or> d < fst w then d else fst w, if IsZero (snd w) \<or> snd w < d then d else snd w)"

fun insertLoop ::
  "LotteryResult list \<Rightarrow> (int \<times> bool) list \<Rightarrow> int \<Rightarrow> time \<times> time \<Rightarrow> database \<Rightarrow>
   (error + int \<times> time \<times> time) \<times> database" where
  "insertLoop [] existing inserted w db = (Inr (inserted, w), db)"
| "insertLoop (r # rs) existing inserted w db =
     (if map_get existing (DrawNumber r) then insertLoop rs existing inserted w db
      else case exec_stmt (insert_stmt r) db of
        (Some e, db) \<Rightarrow> (Inl (''failed to insert draw '' @ Itoa (DrawNumber r) @ '': '' @ e), db)
      | (None, db) \<Rightarrow> insertLoop rs existing (inserted + 1) (widen (DrawDate r) w) db)"

definition InsertNewDraws ::
  "LotteryResult list \<Rightarrow> database \<Rightarrow> (error + int \<times> time \<times> time) \<times> database" where
  "InsertNewDraws results db =
     (if results = [] then (Inr (0, 0, 0), db)
      else case existingDrawNumbers (map DrawNumber results) db of
        (Inl e, db) \<Rightarrow> (Inl e, db)
      | (Inr existing, db) \<Rightarrow>
          (case exec_stmt Inr db of
             (Some e, db) \<Rightarrow> (Inl (''failed to begin transaction: '' @ e), db)
           | (None, before) \<Rightarrow>
               (case insertLoop results existing 0 (0, 0) before of
                  (Inl e, db) \<Rightarrow> (Inl e, rollback before db)
                | (Inr res, db) \<Rightarrow>
                    (case exec_stmt Inr db of
                       (Some e, db) \<Rightarrow> (Inl (''failed to commit transaction: '' @ e), rollback before db)
                     | (None, db) \<Rightarrow> (Inr res, db)))))"

subsection \<open>Prizes\<close>

definition minPrizeDrawNumber :: int where "minPrizeDrawNumber = 2982"
definition minPrizeDrawDate :: time where "minPrizeDrawDate = Date 2018 1 30"

text \<open>\<open>UPDATE ... SET prize_amounts = $2, updated_at = CURRENT_TIMESTAMP WHERE draw_number = $1 RETURNING draw_date\<close>\<close>

definition set_prizes :: "time \<Rightarrow> int \<Rightarrow> f64 list \<Rightarrow> LotteryResult list \<Rightarrow> LotteryResult list" where
  "set_prizes now n ps =
     map (\<lambda>r. if DrawNumber r = n then r\<lparr>PrizeAmounts := Some ps, UpdatedAt := now\<rparr> else r)"

definition UpdatePrizeAmounts :: "int \<Rightarrow> f64 list \<Rightarrow> database \<Rightarrow> (error + time) \<times> database" where
  "UpdatePrizeAmounts n ps db =
     (case exec_stmt (\<lambda>db. if in_int32 n \<and> (\<forall>p \<in> set ps. json_number p)
            then Inr (db\<lparr>rows := set_prizes (current_timestamp db) n ps (rows db)\<rparr>) else Inl ''cannot encode'') db of
        (Some e, db) \<Rightarrow> (Inl (''failed to update prize amounts for draw '' @ Itoa n @ '': '' @ e), db)
      | (None, db) \<Rightarrow>
          (wrap_error (''failed to update prize amounts for draw '' @ Itoa n)
             (scan_first (map DrawDate (filter (\<lambda>r. DrawNumber r = n) (rows db)))), db))"

definition lacks_prizes :: "LotteryResult \<Rightarrow> bool" where
  "lacks_prizes r \<longleftrightarrow> PrizeAmounts r = None \<and> 1 \<le> d_Strong r \<and> d_Strong r \<le> 7 \<and>
     minPrizeDrawNumber \<le> DrawNumber r \<and> minPrizeDrawDate \<le> DrawDate r"

definition missing_prizes :: "int \<Rightarrow> LotteryResult list \<Rightarrow> LotteryResult list" where
  "missing_prizes limit rs = limited limit (by_date_desc (filter lacks_prizes rs))"

definition GetDrawsWithoutPrizes :: "int \<Rightarrow> database \<Rightarrow> (error + int list) \<times> database" where
  "GetDrawsWithoutPrizes limit db =
     (let (res, db) = query_rows (\<lambda>db. map DrawNumber (missing_prizes limit (rows db))) db
      in (wrap_error ''failed to get draws without prizes'' res, db))"

definition GetDrawsWithoutPrizeRefs :: "int \<Rightarrow> database \<Rightarrow> (error + DrawRef list) \<times> database" where
  "GetDrawsWithoutPrizeRefs limit db =
     (let (res, db) = query_rows (\<lambda>db. map (\<lambda>r. \<lparr>r_DrawNumber = DrawNumber r, r_DrawDate = DrawDate r\<rparr>)
            (missing_prizes limit (rows db))) db
      in (wrap_error ''failed to get draws without prizes'' res, db))"

subsection \<open>The table's invariant\<close>

definition table_ok :: "database \<Rightarrow> bool" where
  "table_ok db \<longleftrightarrow> distinct (map DrawNumber (rows db)) \<and> distinct (map ID (rows db)) \<and>
     (\<forall>r \<in> set (rows db). ID r < next_id db)"

text \<open>A row without its id, and the draws of a batch that the table does not have yet, the first of each number.\<close>

definition anonymous :: "LotteryResult \<Rightarrow> LotteryResult" where
  "anonymous r = r\<lparr>ID := 0\<rparr>"

fun fresh_draws :: "int set \<Rightarrow> LotteryResult list \<Rightarrow> LotteryResult list" where
  "fresh_draws known [] = []"
| "fresh_draws known (r # rs) =
     (if DrawNumber r \<in> known then fresh_draws known rs else r # fresh_draws (insert (DrawNumber r) known) rs)"

lemma fresh_draws_subset: "set (fresh_draws known rs) \<subseteq> set rs"
  by (induction known rs rule: fresh_draws.induct) auto

lemma fresh_draws_numbers:
  "DrawNumber ` set (fresh_draws known rs) = DrawNumber ` set rs - known"
  by (induction known rs rule: fresh_draws.induct) auto

lemma fresh_draws_distinct: "distinct (map DrawNumber (fresh_draws known rs))"
proof (induction known rs rule: fresh_draws.induct)
  case (2 known r rs)
  then show ?case
    using fresh_draws_numbers [of "insert (DrawNumber r) known" rs] by (auto simp flip: set_map)
qed simp

lemma anonymous_simps [simp]:
  "DrawNumber (anonymous r) = DrawNumber r" "DrawDate (anonymous r) = DrawDate r"
  "anonymous (r\<lparr>ID := i\<rparr>) = anonymous r"
  by (simp_all add: anonymous_def)

lemma pop_fault_rows:
  "pop_fault db = (f, db') \<Longrightarrow> rows db' = rows db \<and> next_id db' = next_id db \<and>
     current_timestamp db' = current_timestamp db"
  by (auto simp: pop_fault_def split: list.splits)

lemma exec_stmt_cases:
  assumes "exec_stmt stmt db = (res, db')"
  obtains (failed) e where "res = Some e" "rows db' = rows db" "next_id db' = next_id db"
    | (ok) db1 where "res = None" "rows db1 = rows db" "next_id db1 = next_id db"
        "current_timestamp db1 = current_timestamp db" "stmt db1 = Inr db'"
proof -
  obtain f db1 where p: "pop_fault db = (f, db1)" by fastforce
  note pop_fault_rows [OF p]
  then show ?thesis
    using assms p that by (auto simp: exec_stmt_def Let_def split: option.splits sum.splits)
qed

lemma exec_stmt_pure_cases:
  assumes "exec_stmt Inr db = (res, db')"
  shows "rows db' = rows db \<and> next_id db' = next_id db"
  using assms by (rule exec_stmt_cases) auto

lemma query_rows_state:
  "query_rows q db = (res, db') \<Longrightarrow> rows db' = rows db \<and> next_id db' = next_id db"
  using pop_fault_rows [of db] by (auto simp: query_rows_def Let_def split: prod.splits option.splits fault.splits)

lemma has_draw_iff: "has_draw db n \<longleftrightarrow> n \<in> set (map DrawNumber (rows db))"
  by (auto simp: has_draw_def)

lemma append_row_ok: "table_ok db \<Longrightarrow> \<not> has_draw db (DrawNumber r) \<Longrightarrow> table_ok (append_row r db)"
  by (fastforce simp: table_ok_def append_row_def has_draw_def)

lemma merge_row_simps [simp]: "DrawNumber (merge_row a b) = DrawNumber b" "ID (merge_row a b) = ID b"
  by (simp_all add: merge_row_def)

lemma upsert_stmt_ok: "table_ok db \<Longrightarrow> upsert_stmt r db = Inr db' \<Longrightarrow> table_ok db'"
  by (auto simp: upsert_stmt_def append_row_ok split: if_splits)
    (auto simp: table_ok_def comp_def if_distrib [of ID] if_distrib [of DrawNumber] cong: if_cong map_cong)

lemma insert_stmt_ok: "table_ok db \<Longrightarrow> insert_stmt r db = Inr db' \<Longrightarrow> table_ok db'"
  by (auto simp: insert_stmt_def append_row_ok split: if_splits) (fastforce simp: table_ok_def)

lemma table_ok_cong:
  "rows db' = rows db \<Longrightarrow> next_id db \<le> next_id db' \<Longrightarrow> table_ok db \<Longrightarrow> table_ok db'"
  by (fastforce simp: table_ok_def)

lemma upsert_next_id: "upsert_stmt r db = Inr db' \<Longrightarrow> next_id db \<le> next_id db'"
  and insert_next_id: "insert_stmt r db = Inr db' \<Longrightarrow> next_id db \<le> next_id db'"
  by (auto simp: upsert_stmt_def insert_stmt_def append_row_def split: if_splits)

subsection \<open>What an insertion does\<close>

text \<open>The instants a reported range covers; the initial zero range covers none.\<close>

definition covered :: "time \<times> time \<Rightarrow> time set" where
  "covered w = (if IsZero (fst w) then {} else {fst w..snd w})"

definition proper :: "time \<times> time \<Rightarrow> bool" where
  "proper w \<longleftrightarrow> w = (0, 0) \<or> (\<not> IsZero (fst w) \<and> \<not> IsZero (snd w) \<and> fst w \<le> snd w)"

lemma widen_covers:
  assumes "proper w" and "\<not> IsZero d"
  shows "proper (widen d w)" and "covered w \<subseteq> covered (widen d w)" and "d \<in> covered (widen d w)"
  using assms by (auto simp: proper_def widen_def covered_def IsZero_def split: prod.splits)

lemma existing_set_get: "map_get (existing_set dns m) k \<longleftrightarrow> map_get m k \<or> k \<in> set dns"
proof (induction dns arbitrary: m)
  case (Cons n dns)
  have "map_get (AList.update n True m) k \<longleftrightarrow> map_get m k \<or> k = n"
    by (simp add: map_get_def update_conv)
  then show ?case using Cons by auto
qed simp

lemma map_get_Nil: "\<not> map_get [] k"
  by (simp add: map_get_def)

lemma existingDrawNumbers_sound:
  assumes "existingDrawNumbers candidates db = (res, db')"
  shows "rows db' = rows db" and "next_id db' = next_id db"
    and "\<And>m n. res = Inr m \<Longrightarrow> map_get m n \<Longrightarrow> n \<in> DrawNumber ` set (rows db)"
proof -
  let ?q = "\<lambda>db. filter (\<lambda>n. n \<in> set candidates) (map DrawNumber (rows db))"
  obtain r1 db1 where q: "query_rows ?q db = (r1, db1)" by fastforce
  have s: "rows db1 = rows db" "next_id db1 = next_id db" using query_rows_state [OF q] by auto
  show "rows db' = rows db" "next_id db' = next_id db"
    using assms s by (auto simp: existingDrawNumbers_def q split: if_splits)
  have "dns = ?q db \<or> (\<exists>n. dns = take n (?q db))" if "r1 = Inr dns" for dns
    using q that pop_fault_rows [of db]
    by (auto simp: query_rows_def Let_def split: prod.splits option.splits fault.splits)
  then have "set dns \<subseteq> DrawNumber ` set (rows db)" if "r1 = Inr dns" for dns
    using that set_take_subset [of _ "?q db"] by fastforce
  then show "n \<in> DrawNumber ` set (rows db)" if "res = Inr m" "map_get m n" for m n
    using assms that s
    by (auto simp: existingDrawNumbers_def q existing_set_get map_get_Nil split: if_splits sum.splits prod.splits
        dest: subsetD)
qed

lemma insertLoop_spec:
  "table_ok db \<Longrightarrow> proper w \<Longrightarrow> \<forall>r \<in> set rs. \<not> IsZero (DrawDate r) \<Longrightarrow>
   \<forall>n. map_get existing n \<longrightarrow> n \<in> DrawNumber ` set (rows db) \<Longrightarrow> 0 \<le> k \<Longrightarrow>
   insertLoop rs existing k w db = (res, db') \<Longrightarrow>
   next_id db \<le> next_id db' \<and>
   (\<forall>n w'. res = Inr (n, w') \<longrightarrow> table_ok db' \<and> proper w' \<and> k \<le> n \<and> covered w \<subseteq> covered w' \<and>
     (\<exists>new. rows db' = rows db @ new \<and> map anonymous new = map anonymous (fresh_draws (DrawNumber ` set (rows db)) rs) \<and>
       k + int (length new) \<le> n \<and> (\<forall>r \<in> set new. DrawDate r \<in> covered w')))"
proof (induction rs arbitrary: k w db)
  case (Cons r rs)
  let ?known = "DrawNumber ` set (rows db)"
  show ?case
  proof (cases "map_get existing (DrawNumber r)")
    case True
    then have "DrawNumber r \<in> ?known" using Cons.prems(4) by blast
    then show ?thesis using Cons.IH [of db w k] Cons.prems True by auto
  next
    case False
    obtain e1 db1 where e1: "exec_stmt (insert_stmt r) db = (e1, db1)" by fastforce
    note loop = Cons.prems(6) [simplified insertLoop.simps False e1 if_False prod.case]
    show ?thesis
    proof (cases rule: exec_stmt_cases [OF e1, case_names failed ok])
      case (failed e)
      then show ?thesis using loop by auto
    next
      case (ok db0)
      have t0: "table_ok db0" using table_ok_cong [of db0 db] ok Cons.prems(1) by simp
      have t1: "table_ok db1" and n1: "next_id db \<le> next_id db1"
        using insert_stmt_ok [OF t0 ok(5)] insert_next_id [OF ok(5)] ok(3) by simp_all
      note wd = widen_covers [OF Cons.prems(2), of "DrawDate r"]
      have d: "\<not> IsZero (DrawDate r)" using Cons.prems(3) by simp
      have rest: "insertLoop rs existing (k + 1) (widen (DrawDate r) w) db1 = (res, db')"
        using loop ok(1) by simp
      have rows1: "rows db1 = rows db @ (if DrawNumber r \<in> ?known then [] else [r\<lparr>ID := next_id db\<rparr>])"
        using ok(5) ok(2,3) by (auto simp: insert_stmt_def append_row_def has_draw_def split: if_splits)
      have ex: "\<forall>n. map_get existing n \<longrightarrow> n \<in> DrawNumber ` set (rows db1)"
        using Cons.prems(4) rows1 by auto
      note IH = Cons.IH [OF t1 wd(1) [OF d] _ ex _ rest]
      have pos: "\<forall>r \<in> set rs. \<not> IsZero (DrawDate r)" "0 \<le> k + 1" using Cons.prems by simp_all
      have IH: "next_id db1 \<le> next_id db'"
        "\<And>n w'. res = Inr (n, w') \<Longrightarrow> table_ok db' \<and> proper w' \<and> k + 1 \<le> n \<and>
          covered (widen (DrawDate r) w) \<subseteq> covered w' \<and>
          (\<exists>new. rows db' = rows db1 @ new \<and> map anonymous new = map anonymous (fresh_draws (DrawNumber ` set (rows db1)) rs) \<and>
            k + 1 + int (length new) \<le> n \<and> (\<forall>r \<in> set new. DrawDate r \<in> covered w'))"
        using IH [OF pos] by blast+
      show ?thesis
      proof (intro conjI allI impI)
        show "next_id db \<le> next_id db'" using n1 IH(1) by simp
      next
        fix n w' assume res: "res = Inr (n, w')"
        obtain new where new: "rows db' = rows db1 @ new"
          "map anonymous new = map anonymous (fresh_draws (DrawNumber ` set (rows db1)) rs)"
          "k + 1 + int (length new) \<le> n" "\<forall>r \<in> set new. DrawDate r \<in> covered w'"
          using IH(2) [OF res] by blast
        have cov: "covered (widen (DrawDate r) w) \<subseteq> covered w'" using IH(2) [OF res] by blast
        show "table_ok db'" "proper w'" "k \<le> n" using IH(2) [OF res] by simp_all
        show "covered w \<subseteq> covered w'" using wd(2) [OF d] cov by blast
        have dr: "DrawDate r \<in> covered w'" using wd(3) [OF d] cov by blast
        show "\<exists>new. rows db' = rows db @ new \<and> map anonymous new = map anonymous (fresh_draws ?known (r # rs)) \<and>
            k + int (length new) \<le> n \<and> (\<forall>r \<in> set new. DrawDate r \<in> covered w')"
          using new dr rows1
          by (intro exI [of _ "(if DrawNumber r \<in> ?known then [] else [r\<lparr>ID := next_id db\<rparr>]) @ new"])
            (auto simp: insert_absorb image_iff)
      qed
    qed
  qed
qed auto

text \<open>Exactly the rows outside the instants \<open>S\<close> are untouched.\<close>

definition untouched_outside :: "time set \<Rightarrow> database \<Rightarrow> database \<Rightarrow> bool" where
  "untouched_outside S db db' \<longleftrightarrow>
     filter (\<lambda>r. DrawDate r \<notin> S) (rows db') = filter (\<lambda>r. DrawDate r \<notin> S) (rows db)"

definition insert_outcome :: "LotteryResult list \<Rightarrow> database \<Rightarrow> (error + int \<times> time \<times> time) \<times> database \<Rightarrow> bool" where
  "insert_outcome results db out \<longleftrightarrow>
     (case out of
        (Inl e, db') \<Rightarrow> rows db' = rows db
      | (Inr (n, lo, hi), db') \<Rightarrow>
          (\<exists>new. rows db' = rows db @ new \<and>
             map anonymous new = map anonymous (fresh_draws (DrawNumber ` set (rows db)) results) \<and>
             int (length new) \<le> n \<and> (\<forall>r \<in> set new. DrawDate r \<in> covered (lo, hi))) \<and>
          proper (lo, hi) \<and> 0 \<le> n)"

lemma InsertNewDraws_outcome:
  assumes ok: "table_ok db" and dates: "\<forall>r \<in> set results. \<not> IsZero (DrawDate r)"
  shows "insert_outcome results db (InsertNewDraws results db) \<and> table_ok (snd (InsertNewDraws results db))"
proof (cases "results = []")
  case True
  then show ?thesis using ok by (simp add: InsertNewDraws_def insert_outcome_def proper_def)
next
  case False
  obtain r1 db1 where ex: "existingDrawNumbers (map DrawNumber results) db = (r1, db1)" by fastforce
  note s1 = existingDrawNumbers_sound [OF ex]
  show ?thesis
  proof (cases r1)
    case (Inl e)
    then show ?thesis using False ex s1 ok table_ok_cong [of db1 db]
      by (simp add: InsertNewDraws_def insert_outcome_def)
  next
    case (Inr m)
    obtain e2 db2 where b: "exec_stmt Inr db1 = (e2, db2)" by fastforce
    note s2 = exec_stmt_pure_cases [OF b]
    have ok2: "table_ok db2" using table_ok_cong [of db2 db] s1 s2 ok by simp
    show ?thesis
    proof (cases e2)
      case (Some e)
      then show ?thesis using False ex Inr b s1 s2 ok2 by (simp add: InsertNewDraws_def insert_outcome_def)
    next
      case None
      obtain r3 db3 where l: "insertLoop results m 0 (0, 0) db2 = (r3, db3)" by fastforce
      have known: "\<forall>n. map_get m n \<longrightarrow> n \<in> DrawNumber ` set (rows db2)" using s1(3) [OF Inr] s1(1) s2 by auto
      note loop = insertLoop_spec [OF ok2 _ dates known _ l, simplified proper_def, simplified]
      have undone: "table_ok (rollback db2 x)" if "next_id db2 \<le> next_id x" for x
        using table_ok_cong [of "rollback db2 x" db2] ok2 that by (simp add: rollback_def)
      show ?thesis
      proof (cases r3)
        case (Inl e)
        then show ?thesis using False ex Inr b None l s1 s2 loop undone
          by (simp add: InsertNewDraws_def insert_outcome_def rollback_def)
      next
        case res: (Inr nw)
        obtain n lo hi where nw: "nw = (n, lo, hi)" by (cases nw) auto
        obtain e4 db4 where c: "exec_stmt Inr db3 = (e4, db4)" by fastforce
        note s4 = exec_stmt_pure_cases [OF c]
        show ?thesis
        proof (cases e4)
          case (Some e)
          then show ?thesis using False ex Inr b None l res nw c s1 s2 s4 loop undone
            by (simp add: InsertNewDraws_def insert_outcome_def rollback_def)
        next
          case fin: None
          have "table_ok db4" using table_ok_cong [of db4 db3] loop res nw s4 by simp
          then show ?thesis using False ex Inr b None l res nw c fin s1 s2 s4 loop
            by (simp add: InsertNewDraws_def insert_outcome_def proper_def)
        qed
      qed
    qed
  qed
qed

lemma upsert_numbers:
  assumes "upsert_stmt r db = Inr db'"
  shows "DrawNumber ` set (rows db') = insert (DrawNumber r) (DrawNumber ` set (rows db))"
proof (cases "has_draw db (DrawNumber r)")
  case True
  let ?f = "\<lambda>old. if DrawNumber old = DrawNumber r then merge_row r old else old"
  have "map DrawNumber (map ?f (rows db)) = map DrawNumber (rows db)" by simp
  then have "DrawNumber ` set (map ?f (rows db)) = DrawNumber ` set (rows db)" by (metis list.set_map)
  moreover have "rows db' = map ?f (rows db)" using assms True by (auto simp: upsert_stmt_def split: if_splits)
  ultimately show ?thesis using True by (simp only: has_draw_def insert_absorb)
qed (use assms in \<open>auto simp: upsert_stmt_def append_row_def split: if_splits\<close>)

lemma batchLoop_ok:
  "table_ok db \<Longrightarrow> batchLoop rs db = (res, db') \<Longrightarrow> table_ok db' \<and> next_id db \<le> next_id db' \<and>
     (res = None \<longrightarrow> DrawNumber ` set (rows db') = DrawNumber ` set (rows db) \<union> DrawNumber ` set rs)"
proof (induction rs arbitrary: db)
  case (Cons r rs)
  obtain e1 db1 where e1: "exec_stmt (upsert_stmt r) db = (e1, db1)" by fastforce
  note loop = Cons.prems(2) [simplified batchLoop.simps e1 prod.case]
  show ?case
  proof (cases rule: exec_stmt_cases [OF e1, case_names failed ok])
    case (failed e)
    then show ?thesis using loop Cons.prems(1) table_ok_cong [of db1 db] by auto
  next
    case (ok db0)
    have t0: "table_ok db0" using table_ok_cong [of db0 db] ok Cons.prems(1) by simp
    have "DrawNumber ` set (rows db1) = insert (DrawNumber r) (DrawNumber ` set (rows db))"
      using upsert_numbers [OF ok(5)] ok(2) by simp
    then show ?thesis
      using Cons.IH [OF upsert_stmt_ok [OF t0 ok(5)]] loop ok(1,3) upsert_next_id [OF ok(5)] by auto
  qed
qed simp

lemma CreateBatch_ok:
  assumes ok: "table_ok db" and out: "CreateBatch results db = (res, db')"
  shows "table_ok db' \<and> (res \<noteq> None \<longrightarrow> rows db' = rows db) \<and>
    (res = None \<longrightarrow> DrawNumber ` set (rows db') = DrawNumber ` set (rows db) \<union> DrawNumber ` set results)"
proof -
  obtain e1 db1 where b: "exec_stmt Inr db = (e1, db1)" by fastforce
  obtain e2 db2 where l: "batchLoop results db1 = (e2, db2)" by fastforce
  obtain e3 db3 where c: "exec_stmt Inr db2 = (e3, db3)" by fastforce
  note s = exec_stmt_pure_cases [OF b] exec_stmt_pure_cases [OF c]
  have ok1: "table_ok db1" using table_ok_cong [of db1 db] s(1) ok by simp
  note loop = batchLoop_ok [OF ok1 l]
  have undone: "table_ok (rollback db1 x)" if "next_id db1 \<le> next_id x" for x
    using table_ok_cong [of "rollback db1 x" db1] ok1 that by (simp add: rollback_def)
  have "table_ok db3" using table_ok_cong [of db3 db2] loop s(2) by simp
  then show ?thesis
    using out b l c s loop undone ok1
    by (cases e1; cases e2; cases e3) (auto simp: CreateBatch_def rollback_def)
qed

lemma Create_ok:
  assumes ok: "table_ok db" and out: "Create r db = (res, db')"
  shows "table_ok db'"
proof -
  obtain e1 db1 where e1: "exec_stmt (upsert_stmt r) db = (e1, db1)" by fastforce
  have "table_ok db1"
  proof (cases rule: exec_stmt_cases [OF e1, case_names failed ok])
    case (failed e)
    then show ?thesis using table_ok_cong [of db1 db] ok by simp
  next
    case (ok db0)
    then show ?thesis using table_ok_cong [of db0 db] upsert_stmt_ok [of db0] \<open>table_ok db\<close> by simp
  qed
  then show ?thesis using out e1 by (auto simp: Create_def split: option.splits sum.splits)
qed

lemma set_prizes_simps [simp]:
  "map DrawNumber (set_prizes now n ps rs) = map DrawNumber rs" "map ID (set_prizes now n ps rs) = map ID rs"
  "map DrawDate (set_prizes now n ps rs) = map DrawDate rs"
  by (simp_all add: set_prizes_def)

lemma UpdatePrizeAmounts_cases:
  assumes "UpdatePrizeAmounts n ps db = (res, db')"
  shows "next_id db' = next_id db"
    and "rows db' = rows db \<or> rows db' = set_prizes (current_timestamp db) n ps (rows db)"
    and "\<And>d. res = Inr d \<Longrightarrow> rows db' = set_prizes (current_timestamp db) n ps (rows db) \<and>
      (\<exists>r \<in> set (rows db). DrawNumber r = n \<and> DrawDate r = d)"
    and "\<And>e. res = Inl e \<Longrightarrow> rows db' = rows db \<or> n \<notin> DrawNumber ` set (rows db)"
proof -
  let ?stmt = "\<lambda>db. if in_int32 n \<and> (\<forall>p \<in> set ps. json_number p)
            then Inr (db\<lparr>rows := set_prizes (current_timestamp db) n ps (rows db)\<rparr>) else Inl ''cannot encode''"
  obtain e1 db1 where e1: "exec_stmt ?stmt db = (e1, db1)" by fastforce
  have dates: "map DrawDate (filter (\<lambda>r. DrawNumber r = n) (set_prizes now n ps rs)) =
      map DrawDate (filter (\<lambda>r. DrawNumber r = n) rs)" for now rs
    by (induction rs) (auto simp: set_prizes_def)
  have "next_id db' = next_id db \<and>
    (rows db' = rows db \<or> rows db' = set_prizes (current_timestamp db) n ps (rows db)) \<and>
    (\<forall>d. res = Inr d \<longrightarrow> rows db' = set_prizes (current_timestamp db) n ps (rows db) \<and>
      (\<exists>r \<in> set (rows db). DrawNumber r = n \<and> DrawDate r = d)) \<and>
    (\<forall>e. res = Inl e \<longrightarrow> rows db' = rows db \<or> n \<notin> DrawNumber ` set (rows db))"
  proof (cases rule: exec_stmt_cases [OF e1, case_names failed ok])
    case (failed e)
    then show ?thesis using assms e1 by (auto simp: UpdatePrizeAmounts_def)
  next
    case (ok db0)
    have r1: "rows db1 = set_prizes (current_timestamp db) n ps (rows db)" "next_id db1 = next_id db"
      using ok by (auto split: if_splits)
    have "res = wrap_error (''failed to update prize amounts for draw '' @ Itoa n)
        (scan_first (map DrawDate (filter (\<lambda>r. DrawNumber r = n) (rows db))))" "db' = db1"
      using assms e1 ok(1) r1(1) by (auto simp: UpdatePrizeAmounts_def dates)
    then show ?thesis
      using r1 by (cases "filter (\<lambda>r. DrawNumber r = n) (rows db)")
        (auto simp: wrap_error_def scan_first_def filter_eq_Cons_iff filter_empty_conv)
  qed
  then show "next_id db' = next_id db"
    and "rows db' = rows db \<or> rows db' = set_prizes (current_timestamp db) n ps (rows db)"
    and "\<And>d. res = Inr d \<Longrightarrow> rows db' = set_prizes (current_timestamp db) n ps (rows db) \<and>
      (\<exists>r \<in> set (rows db). DrawNumber r = n \<and> DrawDate r = d)"
    and "\<And>e. res = Inl e \<Longrightarrow> rows db' = rows db \<or> n \<notin> DrawNumber ` set (rows db)"
    by blast+
qed

lemma UpdatePrizeAmounts_ok:
  assumes "table_ok db" and "UpdatePrizeAmounts n ps db = (res, db')"
  shows "table_ok db'"
proof -
  have "\<forall>i \<in> set (map ID (rows db)). i < next_id db" using assms(1) by (auto simp: table_ok_def)
  then have "\<forall>i \<in> set (map ID (set_prizes now n ps (rows db))). i < next_id db" for now by simp
  then show ?thesis
    using assms(1) UpdatePrizeAmounts_cases(1,2) [OF assms(2)] unfolding table_ok_def
    by (metis image_eqI list.set_map set_prizes_simps(1,2))
qed

subsection \<open>Properties\<close>

text \<open>C9: \<open>InsertNewDraws\<close>, whatever statement fails: on an error the table is unchanged; on success the rows that
  were there are unchanged, and behind them stand the draws of the batch whose number was not in the table, the first
  of each number; the reported range of dates covers every row added and the reported count is at least their
  number. The draw numbers and ids of the table stay unique.\<close>

theorem InsertNewDraws_correct:
  assumes "table_ok db" and "\<forall>r \<in> set results. \<not> IsZero (DrawDate r)"
  shows "insert_outcome results db (InsertNewDraws results db) \<and> table_ok (snd (InsertNewDraws results db))"
  by (rule InsertNewDraws_outcome [OF assms])

definition empty_db :: database where
  "empty_db = \<lparr>rows = [], next_id = 1, faults = [], current_timestamp = 0\<rparr>"

lemma empty_db_ok: "table_ok empty_db"
  by (simp add: table_ok_def empty_db_def)

definition dated_draw :: "int \<Rightarrow> time \<Rightarrow> int list \<Rightarrow> int \<Rightarrow> LotteryResult" where
  "dated_draw n d ns s = (sample_draw n ns s)\<lparr>DrawDate := d\<rparr>"

theorem InsertNewDraws_correct_witness:
  "insert_outcome [dated_draw 1 5 [1, 2, 3, 4, 5, 6] 1, dated_draw 2 9 [1, 2, 3, 4, 5, 7] 2] empty_db
     (InsertNewDraws [dated_draw 1 5 [1, 2, 3, 4, 5, 6] 1, dated_draw 2 9 [1, 2, 3, 4, 5, 7] 2] empty_db)"
  using InsertNewDraws_correct [OF empty_db_ok,
      of "[dated_draw 1 5 [1, 2, 3, 4, 5, 6] 1, dated_draw 2 9 [1, 2, 3, 4, 5, 7] 2]"]
  by (simp add: dated_draw_def sample_draw_def IsZero_def)



text \<open>When the statement succeeds, \<open>GetByDateRange\<close> returns exactly the rows dated in the window, a zero bound
  leaving its side open, in ascending order of their dates, and changes no row.\<close>

theorem GetByDateRange_correct:
  assumes "fst (pop_fault db) = None"
  shows "\<exists>draws db'. GetByDateRange lo hi db = (Inr draws, db') \<and> rows db' = rows db \<and>
    sorted (map DrawDate draws) \<and>
    mset draws = filter_mset (\<lambda>r. DrawDate r \<in> window_instants lo hi) (mset (rows db))"
proof -
  obtain db1 where p: "pop_fault db = (None, db1)" using assms by (metis prod.collapse)
  have "in_range lo hi r \<longleftrightarrow> DrawDate r \<in> window_instants lo hi" for r
    by (auto simp: in_range_def window_instants_def)
  then show ?thesis
    using p pop_fault_rows [OF p]
    by (simp add: GetByDateRange_def query_rows_def select_range_def wrap_error_def mset_filter)
qed

theorem GetByDateRange_correct_witness:
  "\<exists>draws db'. GetByDateRange 0 7 (empty_db\<lparr>rows := [dated_draw 1 9 [] 1, dated_draw 2 5 [] 1]\<rparr>) = (Inr draws, db') \<and>
    mset draws = {#dated_draw 2 5 [] 1#}"
proof -
  let ?db = "empty_db\<lparr>rows := [dated_draw 1 9 [] 1, dated_draw 2 5 [] 1]\<rparr>"
  have "fst (pop_fault ?db) = None" by (simp add: pop_fault_def empty_db_def)
  from GetByDateRange_correct [OF this, of 0 7] show ?thesis
    by (auto simp: window_instants_def dated_draw_def sample_draw_def IsZero_def)
qed



text \<open>The reported count is not the number of rows added: a draw that occurs twice in a batch is counted twice and
  stored once.\<close>

theorem InsertNewDraws_overcounts:
  "\<exists>db'. InsertNewDraws [dated_draw 7 5 [1, 2, 3, 4, 5, 6] 1, dated_draw 7 5 [1, 2, 3, 4, 5, 6] 1] empty_db =
     (Inr (2, 5, 5), db') \<and> map DrawNumber (rows db') = [7]"
  by (simp add: InsertNewDraws_def existingDrawNumbers_def query_rows_def pop_fault_def empty_db_def exec_stmt_def
      insert_stmt_def storable_def dated_draw_def sample_draw_def in_int32_def has_draw_def append_row_def map_get_def
      widen_def IsZero_def)

lemma Count_state: "Count db = (res, db') \<Longrightarrow> rows db' = rows db \<and> next_id db' = next_id db"
  using pop_fault_rows [of db] by (auto simp: Count_def query_row_def Let_def split: prod.splits)

end
