(* ===== verification/Go_Strings.thy ===== *)
theory Go_Strings
  imports Go_Time
begin

section \<open>Strings of the Go standard library\<close>

text \<open>
  What the scraper, the configuration and the authentication use of \<open>strings\<close>, \<open>strconv\<close>, \<open>time\<close>,
  \<open>encoding/csv\<close> and \<open>regexp\<close>. A Go string is its list of bytes. Error values of the library are kept only as
  far as the source looks at them: \<open>None\<close> is a failed conversion.
\<close>

subsection \<open>Prefixes and spaces\<close>

definition bytes :: "nat list \<Rightarrow> string" where
  "bytes ns = map char_of ns"

text \<open>\<open>strip_prefix p s\<close> is the rest of \<open>s\<close> behind \<open>p\<close>.\<close>

fun strip_prefix :: "string \<Rightarrow> string \<Rightarrow> string option" where
  "strip_prefix [] s = Some s"
| "strip_prefix (p # ps) [] = None"
| "strip_prefix (p # ps) (c # cs) = (if p = c then strip_prefix ps cs else None)"

lemma strip_prefix_Some: "strip_prefix p s = Some t \<longleftrightarrow> s = p @ t"
  by (induction p s rule: strip_prefix.induct) auto

lemma strip_prefix_append [simp]: "strip_prefix p (p @ t) = Some t"
  by (simp add: strip_prefix_Some)

definition TrimPrefix :: "string \<Rightarrow> string \<Rightarrow> string" where
  "TrimPrefix s p = (case strip_prefix p s of None \<Rightarrow> s | Some t \<Rightarrow> t)"

text \<open>\<open>strings.TrimRight(s, "=")\<close>\<close>

definition TrimRight :: "string \<Rightarrow> char \<Rightarrow> string" where
  "TrimRight s c = rev (dropWhile (\<lambda>x. x = c) (rev s))"

text \<open>The UTF-8 encodings of the code points that \<open>unicode.IsSpace\<close> accepts.\<close>

definition space_codes :: "string list" where
  "space_codes = map bytes ([[9], [10], [11], [12], [13], [32], [0xC2, 0x85], [0xC2, 0xA0], [0xE1, 0x9A, 0x80]] @
     map (\<lambda>n. [0xE2, 0x80, 0x80 + n]) [0..<11] @
     [[0xE2, 0x80, 0xA8], [0xE2, 0x80, 0xA9], [0xE2, 0x80, 0xAF], [0xE2, 0x81, 0x9F], [0xE3, 0x80, 0x80]])"

fun first_prefix :: "string list \<Rightarrow> string \<Rightarrow> string option" where
  "first_prefix [] s = None"
| "first_prefix (p # ps) s = (case strip_prefix p s of Some t \<Rightarrow> Some t | None \<Rightarrow> first_prefix ps s)"

text \<open>Every round removes at least one byte, so the length of the string is enough fuel.\<close>

fun trim_start :: "string list \<Rightarrow> nat \<Rightarrow> string \<Rightarrow> string" where
  "trim_start codes 0 s = s"
| "trim_start codes (Suc n) s =
     (case first_prefix codes s of None \<Rightarrow> s | Some t \<Rightarrow> trim_start codes n t)"

definition TrimSpace :: "string \<Rightarrow> string" where
  "TrimSpace s =
     (let t = trim_start space_codes (length s) s
      in rev (trim_start (map rev space_codes) (length t) (rev t)))"

lemma first_prefix_None:
  "first_prefix codes s = None \<longleftrightarrow> (\<forall>p \<in> set codes. strip_prefix p s = None)"
  by (induction codes) (auto split: option.splits)

text \<open>Text without spaces at its ends is left alone.\<close>

definition plain_char :: "char \<Rightarrow> bool" where
  "plain_char c \<longleftrightarrow> 32 < (of_char c :: nat) \<and> (of_char c :: nat) < 128"

lemma space_codes_ends:
  "\<forall>p \<in> set space_codes. p \<noteq> [] \<and> \<not> plain_char (hd p) \<and> \<not> plain_char (last p)"
  by code_simp

lemma trim_start_plain:
  assumes "\<forall>p \<in> set codes. p \<noteq> [] \<and> \<not> plain_char (hd p)" and "s = [] \<or> plain_char (hd s)"
  shows "trim_start codes n s = s"
proof -
  have "strip_prefix p s = None" if "p \<in> set codes" for p
    using assms that by (cases p; cases s) auto
  then have "first_prefix codes s = None" by (simp add: first_prefix_None)
  then show ?thesis by (cases n) simp_all
qed

lemma TrimSpace_plain:
  assumes "\<forall>c \<in> set s. plain_char c"
  shows "TrimSpace s = s"
proof -
  have "s = [] \<or> plain_char (hd s)" "rev s = [] \<or> plain_char (hd (rev s))"
    using assms by (cases "s = []"; simp add: hd_rev)+
  moreover have "\<forall>p \<in> set (map rev space_codes). p \<noteq> [] \<and> \<not> plain_char (hd p)"
    using space_codes_ends by (auto simp: hd_rev)
  ultimately show ?thesis
    using space_codes_ends by (simp add: TrimSpace_def trim_start_plain)
qed

subsection \<open>Numbers\<close>

text \<open>\<open>strconv.Atoi\<close>: an optional sign and decimal digits in the range of an \<open>int\<close>.\<close>

definition in_int64 :: "int \<Rightarrow> bool" where
  "in_int64 n \<longleftrightarrow> - (2 ^ 63) \<le> n \<and> n < 2 ^ 63"

definition digits_value :: "string \<Rightarrow> int option" where
  "digits_value ds = (if ds \<noteq> [] \<and> list_all is_digit ds then Some (int (dec_val 0 ds)) else None)"

definition Atoi :: "string \<Rightarrow> int option" where
  "Atoi s =
     (let v = (case s of [] \<Rightarrow> None
        | c # cs \<Rightarrow> if c = CHR ''-'' then map_option uminus (digits_value cs)
                    else if c = CHR ''+'' then digits_value cs else digits_value s)
      in case v of None \<Rightarrow> None | Some n \<Rightarrow> if in_int64 n then Some n else None)"

lemma is_digit_sign: "is_digit c \<Longrightarrow> c \<noteq> CHR ''-'' \<and> c \<noteq> CHR ''+'' \<and> c \<noteq> CHR '','' \<and> plain_char c"
  by (auto simp: is_digit_def plain_char_def)

lemma digits_value_dec [simp]: "digits_value (dec n) = Some (int n)"
  using dec_digits [of n] by (simp add: digits_value_def list_all_iff)

lemma Atoi_Itoa:
  assumes "in_int64 n"
  shows "Atoi (Itoa n) = Some n"
proof (cases "n < 0")
  case True
  then show ?thesis using assms by (simp add: Itoa_def Atoi_def)
next
  case False
  obtain c cs where d: "dec (nat n) = c # cs" by (cases "dec (nat n)") auto
  moreover have "is_digit c" using dec_digits [of "nat n"] d by simp
  moreover have "digits_value (c # cs) = Some (int (nat n))" using digits_value_dec [of "nat n"] d by simp
  ultimately show ?thesis using False assms is_digit_sign [of c] by (simp add: Itoa_def Atoi_def)
qed

lemma Itoa_plain: "\<forall>c \<in> set (Itoa n). plain_char c \<and> c \<noteq> CHR '',''"
proof -
  have "plain_char (CHR ''-'')" by (simp add: plain_char_def)
  then show ?thesis
    using dec_digits [of "nat n"] dec_digits [of "nat (- n)"] is_digit_sign by (auto simp: Itoa_def)
qed

text \<open>\<open>strconv.ParseBool\<close>\<close>

definition ParseBool :: "string \<Rightarrow> bool option" where
  "ParseBool s =
     (if s \<in> set [''1'', ''t'', ''T'', ''TRUE'', ''true'', ''True''] then Some True
      else if s \<in> set [''0'', ''f'', ''F'', ''FALSE'', ''false'', ''False''] then Some False else None)"

subsection \<open>Dates\<close>

definition valid_date :: "int \<Rightarrow> nat \<Rightarrow> int \<Rightarrow> bool" where
  "valid_date y m d \<longleftrightarrow> 1 \<le> m \<and> m \<le> 12 \<and> 1 \<le> d \<and> d \<le> month_days y ! (m - 1)"

text \<open>\<open>time.Parse("02/01/2006", s)\<close>: fields of two, two and four digits, a date of the calendar.\<close>

definition ParseDMY :: "string \<Rightarrow> time option" where
  "ParseDMY s =
     (if length s = 10 \<and> s ! 2 = CHR ''/'' \<and> s ! 5 = CHR ''/'' \<and>
         list_all is_digit (take 2 s) \<and> list_all is_digit (take 2 (drop 3 s)) \<and> list_all is_digit (drop 6 s)
      then let d = int (dec_val 0 (take 2 s)); m = dec_val 0 (take 2 (drop 3 s)); y = int (dec_val 0 (drop 6 s))
           in if valid_date y m d then Some (Date y m d) else None
      else None)"

definition FormatDMY :: "int \<Rightarrow> nat \<Rightarrow> int \<Rightarrow> string" where
  "FormatDMY y m d = pad 2 (nat d) @ ''/'' @ pad 2 m @ ''/'' @ pad 4 (nat y)"

lemma length_pad_4: "n < 10000 \<Longrightarrow> length (pad 4 n) = 4"
proof -
  assume "n < 10000"
  then have "n div 10 < 1000" "n div 100 < 100" "n div 1000 < 10"
    by (simp_all add: less_mult_imp_div_less)
  then show ?thesis
    by (simp add: pad_def dec.simps [of n] dec.simps [of "n div 10"] dec.simps [of "n div 100"]
        dec.simps [of "n div 1000"] flip: div_mult2_eq)
qed

lemma month_days_nth_le: "1 \<le> m \<Longrightarrow> m \<le> 12 \<Longrightarrow> month_days y ! (m - 1) \<le> 31"
proof -
  assume "1 \<le> m" "m \<le> 12"
  moreover have "\<forall>l \<in> set (month_days y). l \<le> 31" "length (month_days y) = 12" by (simp_all add: month_days_def)
  ultimately show ?thesis by simp
qed

lemma ParseDMY_FormatDMY:
  assumes "valid_date y m d" and "0 \<le> y" and "y < 10000"
  shows "ParseDMY (FormatDMY y m d) = Some (Date y m d)"
proof -
  have b: "1 \<le> m" "m \<le> 12" "1 \<le> d" "d \<le> 31"
    using assms(1) month_days_nth_le [of m y] by (auto simp: valid_date_def)
  have len: "length (pad 2 (nat d)) = 2" "length (pad 2 m) = 2" "length (pad 4 (nat y)) = 4"
    using b assms(3) by (simp_all add: length_pad_2 length_pad_4)
  obtain d1 d2 where pd: "pad 2 (nat d) = [d1, d2]" using len(1) by (auto simp: length_Suc_conv numeral_eq_Suc)
  obtain m1 m2 where pm: "pad 2 m = [m1, m2]" using len(2) by (auto simp: length_Suc_conv numeral_eq_Suc)
  have digits: "list_all is_digit [d1, d2]" "list_all is_digit [m1, m2]" "list_all is_digit (pad 4 (nat y))"
    using pad_digits [of 2 "nat d"] pad_digits [of 2 m] pad_digits [of 4 "nat y"] pd pm
    by (auto simp: list_all_iff)
  have vals: "dec_val 0 [d1, d2] = nat d" "dec_val 0 [m1, m2] = m"
    using dec_val_pad [of 2 "nat d"] dec_val_pad [of 2 m] pd pm by simp_all
  show ?thesis
    unfolding ParseDMY_def FormatDMY_def pd pm
    using digits vals len(3) b assms by (simp add: Let_def)
qed

subsection \<open>Leftmost matches\<close>

text \<open>The search of \<open>FindStringSubmatch\<close>: the first position where the expression matches.\<close>

fun find_match :: "(string \<Rightarrow> 'a option) \<Rightarrow> string \<Rightarrow> 'a option" where
  "find_match p [] = p []"
| "find_match p (c # cs) = (case p (c # cs) of Some r \<Rightarrow> Some r | None \<Rightarrow> find_match p cs)"

lemma find_match_skip:
  "\<forall>i < length xs. p (drop i xs @ ys) = None \<Longrightarrow> find_match p (xs @ ys) = find_match p ys"
proof (induction xs)
  case (Cons x xs)
  have "p ((x # xs) @ ys) = None" using Cons.prems by (metis drop0 length_greater_0_conv list.distinct(1))
  moreover have "\<forall>i < length xs. p (drop i xs @ ys) = None" using Cons.prems by fastforce
  ultimately show ?case using Cons.IH by simp
qed simp

subsection \<open>CSV records\<close>

text \<open>
  \<open>encoding/csv\<close> with a comma and no comment character: \<open>readLine\<close> normalises the line ends,
  \<open>readRecord\<close> splits the fields, and the first record fixes the number of fields.
\<close>

fun break_at :: "char \<Rightarrow> string \<Rightarrow> string \<times> string option" where
  "break_at c [] = ([], None)"
| "break_at c (x # xs) =
     (if x = c then ([], Some xs) else let (before, behind) = break_at c xs in (x # before, behind))"

lemma break_at_cases:
  "case break_at c s of (p, None) \<Rightarrow> p = s \<and> c \<notin> set s | (p, Some t) \<Rightarrow> s = p @ c # t \<and> c \<notin> set p"
proof (induction s)
  case (Cons x xs)
  obtain p t where "break_at c xs = (p, t)" by fastforce
  then show ?case using Cons by (cases t) simp_all
qed simp

lemma break_at_None: "break_at c s = (p, None) \<Longrightarrow> p = s \<and> c \<notin> set s"
  using break_at_cases [where c = c and s = s] by simp

lemma break_at_Some: "break_at c s = (p, Some t) \<Longrightarrow> s = p @ c # t \<and> c \<notin> set p"
  using break_at_cases [where c = c and s = s] by simp

lemma break_at_length: "(p, Some t) = break_at c s \<Longrightarrow> length t < length s"
  using break_at_Some [of c s p t] by simp

lemma break_at_notin: "c \<notin> set s \<Longrightarrow> break_at c s = (s, None)"
  by (induction s) auto

lemma break_at_append: "c \<notin> set p \<Longrightarrow> break_at c (p @ c # t) = (p, Some t)"
  by (induction p) auto

definition newline :: char where "newline = char_of (10 :: nat)"
definition creturn :: char where "creturn = char_of (13 :: nat)"

text \<open>The lines of the input, each with its newline, \<open>\r\n\<close> read as \<open>\n\<close>.\<close>

definition drop_return :: "string \<Rightarrow> string" where
  "drop_return s = (if s \<noteq> [] \<and> last s = creturn then butlast s else s)"

fun read_lines :: "string \<Rightarrow> string \<Rightarrow> string list" where
  "read_lines [] cur = (if cur = [] then [] else [drop_return cur])"
| "read_lines (c # cs) cur =
     (if c = newline then (drop_return cur @ [newline]) # read_lines cs [] else read_lines cs (cur @ [c]))"

definition strip_newline :: "string \<Rightarrow> string" where
  "strip_newline s = (if s \<noteq> [] \<and> last s = newline then butlast s else s)"

definition quote :: char where "quote = char_of (34 :: nat)"

definition lines_size :: "string \<Rightarrow> string list \<Rightarrow> nat" where
  "lines_size line rest = length line + (\<Sum>l\<leftarrow>rest. Suc (length l))"

function (sequential) csv_fields :: "string \<Rightarrow> string list \<Rightarrow> string list \<Rightarrow> (string + string list) \<times> string list"
  and csv_quoted :: "string \<Rightarrow> string list \<Rightarrow> string \<Rightarrow> string list \<Rightarrow> (string + string list) \<times> string list" where
  "csv_fields line rest fields =
     (if line \<noteq> [] \<and> hd line = quote then csv_quoted (tl line) rest [] fields
      else case break_at CHR '','' line of
        (field, Some more) \<Rightarrow>
          if quote \<in> set field then (Inl ''bare quote'', rest) else csv_fields more rest (fields @ [field])
      | (field, None) \<Rightarrow>
          let field = strip_newline field in
          if quote \<in> set field then (Inl ''bare quote'', rest) else (Inr (fields @ [field]), rest))"
| "csv_quoted line rest cur fields =
     (case break_at quote line of
        (before, Some behind) \<Rightarrow>
          (case behind of
             [] \<Rightarrow> (Inr (fields @ [cur @ before]), rest)
           | c # more \<Rightarrow>
               if c = quote then csv_quoted more rest (cur @ before @ [quote]) fields
               else if c = CHR '','' then csv_fields more rest (fields @ [cur @ before])
               else if behind = [newline] then (Inr (fields @ [cur @ before]), rest)
               else (Inl ''quote'', rest))
      | (_, None) \<Rightarrow>
          if line = [] then (Inl ''quote'', rest)
          else case rest of
            [] \<Rightarrow> csv_quoted [] [] (cur @ line) fields
          | l # ls \<Rightarrow> csv_quoted l ls (cur @ line) fields)"
  by pat_completeness auto
termination
  by (relation "measure (case_sum (\<lambda>(line, rest, fields). lines_size line rest)
      (\<lambda>(line, rest, cur, fields). lines_size line rest))")
    (auto simp: lines_size_def dest!: break_at_length)

declare csv_fields.simps [simp del] csv_quoted.simps [simp del]

text \<open>\<open>Read\<close>: empty lines are skipped; \<open>width\<close> is \<open>FieldsPerRecord\<close>, 0 before the first record.\<close>

datatype csv_read = CsvEOF | CsvError string | CsvRecord "string list" "string list" nat

fun csv_Read :: "string list \<Rightarrow> nat \<Rightarrow> csv_read" where
  "csv_Read [] width = CsvEOF"
| "csv_Read (line # rest) width =
     (if line = [] \<or> line = [newline] then csv_Read rest width
      else case csv_fields line rest [] of
        (Inl e, _) \<Rightarrow> CsvError e
      | (Inr fields, rest) \<Rightarrow>
          if 0 < width \<and> length fields \<noteq> width then CsvError ''wrong number of fields''
          else CsvRecord fields rest (if width = 0 then length fields else width))"

end
