(* ===== verification/Scraper.thy ===== *)
theory Scraper
  imports Models Go_Strings
begin

section \<open>The scraper of pais.co.il\<close>

text \<open>
  \<open>internal/scraper/pais_scraper.go\<close>. The web is a parameter: \<open>get headers url\<close> is the transport error or the
  status code and body of the answer. \<open>html.Parse\<close> of \<open>golang.org/x/net/html\<close> is the parameter
  \<open>parse\<close>, giving the node tree the source walks over. Log lines are left out. A panic (index out of range) is
  \<open>None\<close>. The error that \<open>parseRecord\<close> returns is only logged, so of its text only the part before the
  cause is kept.
\<close>

type_synonym error = string
type_synonym response = "int \<times> string"
type_synonym headers = "(string \<times> string) list"
type_synonym web = "headers \<Rightarrow> string \<Rightarrow> error + response"

definition paisDownloadURL :: string where
  "paisDownloadURL = ''http://www.pais.co.il/Lotto/lotto_resultsDownload.aspx''"

definition paisDrawURL :: "int \<Rightarrow> string" where
  "paisDrawURL drawNumber = ''https://www.pais.co.il/lotto/currentlotto.aspx?lotteryId='' @ Itoa drawNumber"

definition browserHeaders :: headers where
  "browserHeaders =
    [(''User-Agent'', ''Mozilla/5.0 (Windows NT 10.0; Win64; x64) AppleWebKit/537.36 (KHTML, like Gecko) Chrome/120.0.0.0 Safari/537.36''),
     (''Accept'', ''text/html,application/xhtml+xml,application/xml;q=0.9,*/*;q=0.8''),
     (''Accept-Language'', ''he-IL,he;q=0.9,en;q=0.8''),
     (''Referer'', ''https://www.pais.co.il/Lotto/Pages/default.aspx'')]"

definition StatusOK :: int where "StatusOK = 200"

subsection \<open>The CSV file of all draws\<close>

text \<open>The loop over the six columns of numbers.\<close>

fun numbersLoop :: "string list \<Rightarrow> nat \<Rightarrow> nat \<Rightarrow> int list \<Rightarrow> error + int list" where
  "numbersLoop record i 0 numbers = Inr numbers"
| "numbersLoop record i (Suc n) numbers =
     (case Atoi (TrimSpace (record ! (i + 2))) of
        None \<Rightarrow> Inl (''invalid number at position '' @ Itoa (int i))
      | Some num \<Rightarrow> numbersLoop record (Suc i) n (numbers[i := num]))"

definition parseRecord :: "time \<Rightarrow> string list \<Rightarrow> (error + LotteryResult) option" where
  "parseRecord now record =
     (if length record < 8 then Some (Inl (''invalid record length: '' @ Itoa (int (length record))))
      else case Atoi (TrimSpace (record ! 0)) of
        None \<Rightarrow> Some (Inl ''invalid draw number'')
      | Some drawNumber \<Rightarrow>
      case ParseDMY (TrimSpace (record ! 1)) of
        None \<Rightarrow> Some (Inl ''invalid draw date'')
      | Some drawDate \<Rightarrow>
      case numbersLoop record 0 6 (replicate 6 0) of
        Inl e \<Rightarrow> Some (Inl e)
      | Inr numbers \<Rightarrow>
      if \<not> 8 < length record then None
      else case Atoi (TrimSpace (record ! 8)) of
        None \<Rightarrow> Some (Inl ''invalid strong number'')
      | Some strong \<Rightarrow>
          Some (Inr \<lparr>ID = 0, DrawNumber = drawNumber, DrawDate = drawDate, d_Numbers = numbers, d_Strong = strong,
            d_LotteryType = ''lotto'', PrizeAmounts = None, CreatedAt = now, UpdatedAt = now\<rparr>))"

text \<open>The loop of \<open>parseCSV\<close>; a line that is left is read in every round, so their number is enough fuel
  (lemma \<open>csvLoop_fuel\<close> of \<open>Scraper_Properties\<close>).\<close>

fun csvLoop ::
  "time \<Rightarrow> nat \<Rightarrow> string list \<Rightarrow> nat \<Rightarrow> int \<Rightarrow> LotteryResult list \<Rightarrow> (error + LotteryResult list) option" where
  "csvLoop now 0 input width lineNum results = None"
| "csvLoop now (Suc n) input width lineNum results =
     (case csv_Read input width of
        CsvEOF \<Rightarrow> Some (Inr results)
      | CsvError e \<Rightarrow> Some (Inl (''failed to read line '' @ Itoa lineNum @ '': '' @ e))
      | CsvRecord record rest w \<Rightarrow>
          (case parseRecord now record of
             None \<Rightarrow> None
           | Some (Inl _) \<Rightarrow> csvLoop now n rest w (lineNum + 1) results
           | Some (Inr result) \<Rightarrow> csvLoop now n rest w (lineNum + 1) (results @ [result])))"

definition parseCSV :: "time \<Rightarrow> string \<Rightarrow> (error + LotteryResult list) option" where
  "parseCSV now body =
     (let input = read_lines body [] in
      case csv_Read input 0 of
        CsvError e \<Rightarrow> Some (Inl (''failed to read header: '' @ e))
      | CsvEOF \<Rightarrow> csvLoop now 1 [] 0 1 []
      | CsvRecord header rest w \<Rightarrow> csvLoop now (Suc (length rest)) rest w 1 [])"

definition FetchLotteryData :: "web \<Rightarrow> time \<Rightarrow> (error + LotteryResult list) option" where
  "FetchLotteryData get now =
     (case get [] paisDownloadURL of
        Inl e \<Rightarrow> Some (Inl (''failed to fetch data: '' @ e))
      | Inr (status, body) \<Rightarrow>
          if status \<noteq> StatusOK then Some (Inl (''unexpected status code: '' @ Itoa status))
          else parseCSV now body)"

subsection \<open>The prize page of a draw\<close>

datatype html_node =
  ElementNode "(string \<times> string) list" "html_node list"
| TextNode string
| OtherNode "html_node list"

fun aria_walk :: "html_node \<Rightarrow> string list" where
  "aria_walk (ElementNode attrs children) =
     map snd (filter (\<lambda>a. fst a = ''aria-label'') attrs) @ concat (map aria_walk children)"
| "aria_walk (TextNode data) = []"
| "aria_walk (OtherNode children) = concat (map aria_walk children)"

fun textContent :: "html_node \<Rightarrow> string" where
  "textContent (TextNode data) = data"
| "textContent (ElementNode attrs children) = concat (map textContent children)"
| "textContent (OtherNode children) = concat (map textContent children)"

text \<open>The literals of the regular expressions, in UTF-8.\<close>

definition tier_text :: string where
  "tier_text = bytes [215, 168, 215, 158, 215, 170, 32, 215, 164, 215, 168, 215, 161, 32]"

definition strong_text :: string where
  "strong_text = bytes [32, 43, 32, 215, 151, 215, 150, 215, 167]"

definition winners_text :: string where
  "winners_text = bytes [215, 158, 215, 161, 215, 164, 215, 168, 32, 215, 150, 215, 149, 215, 155, 215, 153, 215, 157, 32]"

definition prize_text :: string where
  "prize_text = bytes [215, 161, 215, 155, 215, 149, 215, 157, 32, 215, 150, 215, 155, 215, 153, 215, 153, 215, 148, 32]"

definition first_text :: string where
  "first_text = bytes [215, 148, 215, 164, 215, 168, 215, 161, 32, 215, 148, 215, 168, 215, 144, 215, 169, 215, 149, 215, 159,
     32, 215, 145, 215, 148, 215, 146, 215, 168, 215, 156, 215, 148, 32, 215, 150, 215, 149, 32, 215, 162, 215, 158, 215, 147,
     32, 215, 162, 215, 156]"

definition second_text :: string where
  "second_text = bytes [215, 148, 215, 164, 215, 168, 215, 161, 32, 215, 148, 215, 169, 215, 160, 215, 153,
     32, 215, 145, 215, 148, 215, 146, 215, 168, 215, 156, 215, 148, 32, 215, 150, 215, 149, 32, 215, 162, 215, 158, 215, 147,
     32, 215, 162, 215, 156]"

definition shekel :: string where "shekel = bytes [226, 130, 170]"

text \<open>\<open>tierLabelRE\<close>: the digits and whether the optional group matched.\<close>

definition tierLabelRE :: "string \<Rightarrow> (string \<times> bool) option" where
  "tierLabelRE = find_match (\<lambda>s.
     case strip_prefix tier_text s of
       None \<Rightarrow> None
     | Some t \<Rightarrow> (let ds = takeWhile is_digit t; more = dropWhile is_digit t in
         if ds = [] then None else Some (ds, strip_prefix strong_text more \<noteq> None)))"

text \<open>The shape of \<open>winnersRE\<close> and \<open>prizeRE\<close>: a literal and a group of digits and commas.\<close>

definition amount_char :: "char \<Rightarrow> bool" where
  "amount_char c \<longleftrightarrow> is_digit c \<or> c = CHR '',''"

definition amount_after :: "string \<Rightarrow> string \<Rightarrow> string option" where
  "amount_after literal = find_match (\<lambda>s.
     case strip_prefix literal s of
       None \<Rightarrow> None
     | Some t \<Rightarrow> (let ds = takeWhile amount_char t in if ds = [] then None else Some ds))"

definition winnersRE :: "string \<Rightarrow> string option" where "winnersRE = amount_after winners_text"
definition prizeRE :: "string \<Rightarrow> string option" where "prizeRE = amount_after prize_text"

text \<open>The shape of \<open>firstPrizeRE\<close> and \<open>secondPrizeRE\<close>: \<open>literal.*?([\d,]+)\s*\<close> and the currency sign;
  \<open>.\<close> does not match a newline.\<close>

definition re_space :: "char \<Rightarrow> bool" where
  "re_space c \<longleftrightarrow> c \<in> set (bytes [9, 10, 12, 13, 32])"

fun lazy_amount :: "string \<Rightarrow> string option" where
  "lazy_amount s =
     (let ds = takeWhile amount_char s; more = dropWhile re_space (dropWhile amount_char s) in
      if ds \<noteq> [] \<and> strip_prefix shekel more \<noteq> None then Some ds
      else case s of [] \<Rightarrow> None | c # cs \<Rightarrow> if c = newline then None else lazy_amount cs)"

declare lazy_amount.simps [simp del]

definition advertised :: "string \<Rightarrow> string \<Rightarrow> string option" where
  "advertised literal = find_match (\<lambda>s.
     case strip_prefix literal s of None \<Rightarrow> None | Some t \<Rightarrow> lazy_amount t)"

definition firstPrizeRE :: "string \<Rightarrow> string option" where "firstPrizeRE = advertised first_text"
definition secondPrizeRE :: "string \<Rightarrow> string option" where "secondPrizeRE = advertised second_text"

definition tierLabelToIndex :: "string \<Rightarrow> bool \<Rightarrow> int" where
  "tierLabelToIndex numStr strong =
     (case Atoi numStr of
        None \<Rightarrow> - 1
      | Some n \<Rightarrow>
          if n = 6 then (if strong then 0 else 1)
          else if n = 5 then (if strong then 2 else 3)
          else if n = 4 then (if strong then 4 else 5)
          else if n = 3 then (if strong then 6 else 7)
          else - 1)"

definition parseHebrewNumber :: "string \<Rightarrow> int" where
  "parseHebrewNumber s =
     (case Atoi (TrimSpace (filter (\<lambda>c. c \<noteq> CHR '','') s)) of None \<Rightarrow> 0 | Some n \<Rightarrow> n)"

definition parseAmount :: "(string \<Rightarrow> string option) \<Rightarrow> string \<Rightarrow> f64" where
  "parseAmount re t = (case re t of None \<Rightarrow> Fin 0 | Some m \<Rightarrow> f64_of_int (parseHebrewNumber m))"

text \<open>The look-ahead over the at most four labels behind a tier label.\<close>

fun lookAhead :: "string list \<Rightarrow> int \<Rightarrow> f64 \<Rightarrow> int \<times> f64" where
  "lookAhead [] winners amount = (winners, amount)"
| "lookAhead (label # labels) winners amount =
     (let winners' = (if winners < 0 then (case winnersRE label of None \<Rightarrow> winners | Some w \<Rightarrow> parseHebrewNumber w)
                      else winners);
          amount' = (if flt amount (Fin 0)
                     then (case prizeRE label of None \<Rightarrow> amount | Some p \<Rightarrow> f64_of_int (parseHebrewNumber p))
                     else amount)
      in lookAhead labels winners' amount')"

record tiers =
  tierAmounts :: "f64 list"
  tierWinners :: "int list"
  tiersFound :: nat

fun labelLoop :: "string list \<Rightarrow> tiers \<Rightarrow> tiers" where
  "labelLoop [] t = t"
| "labelLoop (label # labels) t =
     (if \<not> tiersFound t < 8 then t
      else case tierLabelRE label of
        None \<Rightarrow> labelLoop labels t
      | Some (numStr, strong) \<Rightarrow>
          let tierIdx = tierLabelToIndex numStr strong in
          if tierIdx < 0 then labelLoop labels t
          else
            let (winners, amount) = lookAhead (take 4 labels) (- 1) (Fin (- 1)) in
            if 0 \<le> winners \<and> fle (Fin 0) amount
            then labelLoop labels \<lparr>tierAmounts = (tierAmounts t)[nat tierIdx := amount],
                   tierWinners = (tierWinners t)[nat tierIdx := winners], tiersFound = Suc (tiersFound t)\<rparr>
            else labelLoop labels t)"

definition no_tiers :: tiers where
  "no_tiers = \<lparr>tierAmounts = replicate 8 (Fin 0), tierWinners = replicate 8 0, tiersFound = 0\<rparr>"

definition parsePrizeHTML :: "(string \<Rightarrow> error + html_node) \<Rightarrow> string \<Rightarrow> int \<Rightarrow> error + f64 list" where
  "parsePrizeHTML parse body drawNumber =
     (case parse body of
        Inl e \<Rightarrow> Inl (''prize scraper: failed to parse HTML for draw '' @ Itoa drawNumber @ '': '' @ e)
      | Inr doc \<Rightarrow>
          let ariaLabels = aria_walk doc; pageText = textContent doc;
              firstPrize = parseAmount firstPrizeRE pageText;
              secondPrize = parseAmount secondPrizeRE pageText;
              t = labelLoop ariaLabels no_tiers in
          if tiersFound t < 8
          then Inl (''prize scraper: only found '' @ Itoa (int (tiersFound t)) @ ''/8 tiers for draw '' @ Itoa drawNumber)
          else
            let amounts = tierAmounts t;
                amounts = (if tierWinners t ! 0 = 0 \<and> flt (Fin 0) firstPrize then amounts[0 := firstPrize] else amounts);
                amounts = (if tierWinners t ! 1 = 0 \<and> flt (Fin 0) secondPrize then amounts[1 := secondPrize] else amounts)
            in Inr amounts)"

definition FetchPrizeAmounts ::
  "web \<Rightarrow> (string \<Rightarrow> error + html_node) \<Rightarrow> int \<Rightarrow> error + f64 list" where
  "FetchPrizeAmounts get parse drawNumber =
     (case get browserHeaders (paisDrawURL drawNumber) of
        Inl e \<Rightarrow> Inl (''prize scraper: request failed for draw '' @ Itoa drawNumber @ '': '' @ e)
      | Inr (status, body) \<Rightarrow>
          if status \<noteq> StatusOK
          then Inl (''prize scraper: unexpected status '' @ Itoa status @ '' for draw '' @ Itoa drawNumber)
          else parsePrizeHTML parse body drawNumber)"

end
