(* ===== verification/Seeder.thy ===== *)
theory Seeder
  imports Repository Scraper
begin

section \<open>Seeding the table (seeder)\<close>

text \<open>
  \<open>internal/seeder/lottery_seeder.go\<close> and \<open>prize_seeder.go\<close>: the first load of the draws and the backfill of
  the prize amounts. The state is the database; the web and the HTML parser are parameters (see \<open>Scraper\<close>). A
  panic of the CSV parser is \<open>None\<close>.
\<close>

subsection \<open>Draws\<close>

definition ForceSeedLotteryData :: "web \<Rightarrow> time \<Rightarrow> database \<Rightarrow> (error option \<times> database) option" where
  "ForceSeedLotteryData get now db =
     (case FetchLotteryData get now of
        None \<Rightarrow> None
      | Some (Inl e) \<Rightarrow> Some (Some e, db)
      | Some (Inr results) \<Rightarrow> Some (CreateBatch results db))"

definition SeedLotteryData :: "web \<Rightarrow> time \<Rightarrow> database \<Rightarrow> (error option \<times> database) option" where
  "SeedLotteryData get now db =
     (case Count db of
        (Inl e, db) \<Rightarrow> Some (Some e, db)
      | (Inr n, db) \<Rightarrow>
          if 0 < n then Some (None, db)
          else (case FetchLotteryData get now of
             None \<Rightarrow> None
           | Some (Inl e) \<Rightarrow> Some (Some e, db)
           | Some (Inr results) \<Rightarrow> Some (CreateBatch results db)))"

subsection \<open>Prizes\<close>

text \<open>The loop over the references: a draw that cannot be fetched or stored is passed over.\<close>

fun prizeLoop ::
  "(int \<Rightarrow> error + f64 list) \<Rightarrow> DrawRef list \<Rightarrow> int \<Rightarrow> time \<times> time \<Rightarrow> database \<Rightarrow> (int \<times> time \<times> time) \<times> database" where
  "prizeLoop fetch [] written w db = ((written, w), db)"
| "prizeLoop fetch (ref # refs) written w db =
     (case fetch (r_DrawNumber ref) of
        Inl _ \<Rightarrow> prizeLoop fetch refs written w db
      | Inr amounts \<Rightarrow>
          (case UpdatePrizeAmounts (r_DrawNumber ref) amounts db of
             (Inl _, db) \<Rightarrow> prizeLoop fetch refs written w db
           | (Inr drawDate, db) \<Rightarrow>
               prizeLoop fetch refs (written + 1) (if \<not> IsZero drawDate then widen drawDate w else w) db))"

definition SeedMissingPrizes ::
  "(int \<Rightarrow> error + f64 list) \<Rightarrow> int \<Rightarrow> database \<Rightarrow> (error + int \<times> time \<times> time) \<times> database" where
  "SeedMissingPrizes fetch batchSize db =
     (let batchSize = (if batchSize \<le> 0 then 50 else batchSize) in
      case GetDrawsWithoutPrizeRefs batchSize db of
        (Inl e, db) \<Rightarrow> (Inl e, db)
      | (Inr refs, db) \<Rightarrow>
          if refs = [] then (Inr (0, 0, 0), db)
          else (case prizeLoop fetch refs 0 (0, 0) db of (res, db) \<Rightarrow> (Inr res, db)))"

subsection \<open>What the backfill changes\<close>

text \<open>Two tables with the same draws, ids and dates, in the same order.\<close>

definition same_draws :: "database \<Rightarrow> database \<Rightarrow> bool" where
  "same_draws db db' \<longleftrightarrow> map DrawNumber (rows db') = map DrawNumber (rows db) \<and>
     map DrawDate (rows db') = map DrawDate (rows db) \<and> map ID (rows db') = map ID (rows db) \<and>
     next_id db' = next_id db"

lemma same_draws_refl [simp]: "same_draws db db"
  and same_draws_trans: "same_draws a b \<Longrightarrow> same_draws b c \<Longrightarrow> same_draws a c"
  by (simp_all add: same_draws_def)

lemma untouched_refl [simp]: "untouched_outside S db db"
  and untouched_rows: "rows db' = rows db \<Longrightarrow> untouched_outside S db db'"
  and untouched_trans: "untouched_outside S a b \<Longrightarrow> untouched_outside S b c \<Longrightarrow> untouched_outside S a c"
  by (simp_all add: untouched_outside_def)

lemma untouched_mono:
  assumes "untouched_outside S a b" and "S \<subseteq> T"
  shows "untouched_outside T a b"
proof -
  have "filter (\<lambda>r. DrawDate r \<notin> T) rs = filter (\<lambda>r. DrawDate r \<notin> T) (filter (\<lambda>r. DrawDate r \<notin> S) rs)" for rs
    using assms(2) by (auto intro!: filter_cong)
  then show ?thesis using assms(1) unfolding untouched_outside_def by metis
qed

lemma set_prizes_outside:
  assumes "\<And>r. r \<in> set rs \<Longrightarrow> DrawNumber r = n \<Longrightarrow> DrawDate r = d"
  shows "filter (\<lambda>r. DrawDate r \<notin> {d}) (set_prizes now n ps rs) = filter (\<lambda>r. DrawDate r \<notin> {d}) rs"
  using assms by (induction rs) (auto simp: set_prizes_def)

lemma set_prizes_absent: "n \<notin> DrawNumber ` set rs \<Longrightarrow> set_prizes now n ps rs = rs"
  unfolding set_prizes_def by (rule map_idI) auto

lemma unique_number:
  assumes "table_ok db" and "r \<in> set (rows db)" and "s \<in> set (rows db)" and "DrawNumber r = DrawNumber s"
  shows "r = s"
  using assms by (metis distinct_map inj_onD table_ok_def)

lemma UpdatePrizeAmounts_effect:
  assumes ok: "table_ok db" and out: "UpdatePrizeAmounts n ps db = (res, db')"
  shows "same_draws db db'" and "\<And>e. res = Inl e \<Longrightarrow> rows db' = rows db"
    and "\<And>d. res = Inr d \<Longrightarrow> untouched_outside {d} db db' \<and> (\<exists>r \<in> set (rows db). DrawNumber r = n \<and> DrawDate r = d)"
proof -
  note c = UpdatePrizeAmounts_cases [OF out]
  show "same_draws db db'" using c(1,2) by (auto simp: same_draws_def)
  show "rows db' = rows db" if "res = Inl e" for e
    using c(2) c(4) [OF that] set_prizes_absent by metis
  show "untouched_outside {d} db db' \<and> (\<exists>r \<in> set (rows db). DrawNumber r = n \<and> DrawDate r = d)" if d: "res = Inr d" for d
  proof -
    obtain r where r: "r \<in> set (rows db)" "DrawNumber r = n" "DrawDate r = d" using c(3) [OF d] by blast
    have "DrawDate s = d" if "s \<in> set (rows db)" "DrawNumber s = n" for s
      using unique_number [OF ok that(1) r(1)] that(2) r(2,3) by simp
    then have "untouched_outside {d} db db'"
      using c(3) [OF d] set_prizes_outside [of "rows db" n d] by (simp add: untouched_outside_def)
    then show ?thesis using r by blast
  qed
qed

lemma same_draws_table_ok:
  assumes "same_draws db db'" and "table_ok db"
  shows "table_ok db'"
proof -
  have "(\<forall>r \<in> set (rows x). ID r < next_id x) \<longleftrightarrow> (\<forall>i \<in> set (map ID (rows x)). i < next_id x)" for x by simp
  then show ?thesis using assms unfolding table_ok_def same_draws_def by metis
qed

lemma same_draws_date:
  assumes "same_draws db db'" and "r' \<in> set (rows db')"
  obtains r where "r \<in> set (rows db)" "DrawNumber r = DrawNumber r'" "DrawDate r = DrawDate r'"
proof -
  obtain i where i: "i < length (rows db')" "r' = rows db' ! i" using assms(2) by (metis in_set_conv_nth)
  have m: "map DrawNumber (rows db') = map DrawNumber (rows db)" "map DrawDate (rows db') = map DrawDate (rows db)"
    using assms(1) by (auto simp: same_draws_def)
  then have l: "i < length (rows db)" using i(1) by (metis length_map)
  have "DrawNumber (rows db ! i) = DrawNumber r'" "DrawDate (rows db ! i) = DrawDate r'"
    using m i l by (metis nth_map)+
  then show ?thesis using that l nth_mem by blast
qed

lemma prizeLoop_spec:
  "table_ok db \<Longrightarrow> proper w \<Longrightarrow> 0 \<le> k \<Longrightarrow>
   (\<forall>ref \<in> set refs. \<forall>r \<in> set (rows db). DrawNumber r = r_DrawNumber ref \<longrightarrow> \<not> IsZero (DrawDate r)) \<Longrightarrow>
   prizeLoop fetch refs k w db = ((n, w'), db') \<Longrightarrow>
   same_draws db db' \<and> proper w' \<and> k \<le> n \<and> n \<le> k + int (length refs) \<and> covered w \<subseteq> covered w' \<and>
   untouched_outside (covered w') db db' \<and> (n = k \<longrightarrow> rows db' = rows db)"
proof (induction refs arbitrary: k w db)
  case (Cons ref refs)
  note ok = Cons.prems(1) and pr = Cons.prems(2)
  show ?case
  proof (cases "fetch (r_DrawNumber ref)")
    case (Inl e)
    then have "prizeLoop fetch refs k w db = ((n, w'), db')" using Cons.prems(5) by simp
    from Cons.IH [OF ok pr Cons.prems(3) _ this] Cons.prems(4) show ?thesis by auto
  next
    case (Inr ps)
    obtain res db1 where u: "UpdatePrizeAmounts (r_DrawNumber ref) ps db = (res, db1)" by fastforce
    note eff = UpdatePrizeAmounts_effect [OF ok u]
    have ok1: "table_ok db1" using same_draws_table_ok [OF eff(1) ok] .
    have later: "\<forall>ref \<in> set refs. \<forall>r \<in> set (rows db1). DrawNumber r = r_DrawNumber ref \<longrightarrow> \<not> IsZero (DrawDate r)"
      using Cons.prems(4) same_draws_date [OF eff(1)] by (metis list.set_intros(2))
    show ?thesis
    proof (cases res)
      case failed: (Inl e)
      then have "prizeLoop fetch refs k w db1 = ((n, w'), db')" using Cons.prems(5) Inr u by simp
      from Cons.IH [OF ok1 pr Cons.prems(3) later this] show ?thesis
        using eff(2) [OF failed] same_draws_trans [OF eff(1), of db']
          untouched_trans [OF untouched_rows, of db1 db "covered w'" db'] by auto
    next
      case stored: (Inr d)
      obtain r where r: "r \<in> set (rows db)" "DrawNumber r = r_DrawNumber ref" "DrawDate r = d"
        using eff(3) [OF stored] by blast
      then have d: "\<not> IsZero d" using Cons.prems(4) by auto
      note wd = widen_covers [OF pr d]
      have "prizeLoop fetch refs (k + 1) (widen d w) db1 = ((n, w'), db')" using Cons.prems(5) Inr u stored d by simp
      from Cons.IH [OF ok1 wd(1) _ later this] Cons.prems(3)
      have IH: "same_draws db1 db'" "proper w'" "k + 1 \<le> n" "n \<le> k + 1 + int (length refs)"
        "covered (widen d w) \<subseteq> covered w'" "untouched_outside (covered w') db1 db'" by auto
      have "{d} \<subseteq> covered w'" using wd(3) IH(5) by blast
      then have "untouched_outside (covered w') db db1" using eff(3) [OF stored] untouched_mono by blast
      then show ?thesis
        using IH wd(2) eff(1) same_draws_trans [of db db1 db'] untouched_trans [of "covered w'" db db1 db'] by auto
    qed
  qed
qed auto

lemma GetDrawsWithoutPrizeRefs_refs:
  assumes "GetDrawsWithoutPrizeRefs limit db = (res, db')"
  shows "rows db' = rows db" and "next_id db' = next_id db"
    and "\<And>refs. res = Inr refs \<Longrightarrow> 0 < limit \<Longrightarrow> int (length refs) \<le> limit"
    and "\<And>refs ref. res = Inr refs \<Longrightarrow> ref \<in> set refs \<Longrightarrow>
      \<exists>r \<in> set (rows db). lacks_prizes r \<and> DrawNumber r = r_DrawNumber ref \<and> DrawDate r = r_DrawDate ref"
proof -
  let ?f = "\<lambda>r. \<lparr>r_DrawNumber = DrawNumber r, r_DrawDate = DrawDate r\<rparr>"
  let ?q = "\<lambda>db. map ?f (missing_prizes limit (rows db))"
  obtain r1 db1 where q: "query_rows ?q db = (r1, db1)" by fastforce
  have eq: "db' = db1" "res = wrap_error ''failed to get draws without prizes'' r1"
    using assms by (auto simp: GetDrawsWithoutPrizeRefs_def q)
  show "rows db' = rows db" "next_id db' = next_id db" using query_rows_state [OF q] eq by auto
  have prefix: "refs = ?q db \<or> (\<exists>n. refs = take n (?q db))" if "res = Inr refs" for refs
  proof -
    have "r1 = Inr refs" using that eq(2) by (auto simp: wrap_error_def split: sum.splits)
    then show ?thesis
      using q pop_fault_rows [of db]
      by (auto simp: query_rows_def Let_def split: prod.splits option.splits fault.splits)
  qed
  show "int (length refs) \<le> limit" if "res = Inr refs" "0 < limit" for refs
  proof -
    have "int (length (missing_prizes limit (rows db))) \<le> limit"
      using that(2) by (simp add: missing_prizes_def limited_def)
    then show ?thesis using prefix [OF that(1)] by auto
  qed
  show "\<exists>r \<in> set (rows db). lacks_prizes r \<and> DrawNumber r = r_DrawNumber ref \<and> DrawDate r = r_DrawDate ref"
    if "res = Inr refs" "ref \<in> set refs" for refs ref
  proof -
    have "ref \<in> set (?q db)" using prefix [OF that(1)] that(2) by (auto dest: in_set_takeD)
    then obtain r where "r \<in> set (missing_prizes limit (rows db))" "ref = ?f r" by auto
    moreover have "x \<in> set rs \<and> lacks_prizes x" if "x \<in> set (missing_prizes limit rs)" for x rs
      using that by (auto simp: missing_prizes_def limited_def by_date_desc_def dest: in_set_takeD split: if_splits)
    ultimately show ?thesis by fastforce
  qed
qed

lemma SeedMissingPrizes_effect:
  assumes ok: "table_ok db" and out: "SeedMissingPrizes fetch batchSize db = (res, db')"
  shows "same_draws db db'" and "\<And>e. res = Inl e \<Longrightarrow> rows db' = rows db"
    and "\<And>n w. res = Inr (n, w) \<Longrightarrow> 0 \<le> n \<and> n \<le> (if batchSize \<le> 0 then 50 else batchSize) \<and> proper w \<and> untouched_outside (covered w) db db' \<and>
      (n = 0 \<longrightarrow> rows db' = rows db)"
proof -
  define size where "size = (if batchSize \<le> 0 then 50 else batchSize)"
  have size: "0 < size" by (simp add: size_def)
  obtain r1 db1 where g: "GetDrawsWithoutPrizeRefs size db = (r1, db1)" by fastforce
  note refs = GetDrawsWithoutPrizeRefs_refs [OF g]
  have ok1: "table_ok db1" using table_ok_cong [of db1 db] refs(1,2) ok by simp
  have s1: "same_draws db db1" using refs(1,2) by (simp add: same_draws_def)
  have dates: "\<forall>ref \<in> set rs. \<forall>r \<in> set (rows db1). DrawNumber r = r_DrawNumber ref \<longrightarrow> \<not> IsZero (DrawDate r)"
    if rs: "r1 = Inr rs" for rs
  proof (intro ballI impI)
    fix ref r assume ref: "ref \<in> set rs" and r: "r \<in> set (rows db1)" "DrawNumber r = r_DrawNumber ref"
    obtain s where s: "s \<in> set (rows db)" "lacks_prizes s" "DrawNumber s = r_DrawNumber ref"
      using refs(4) [OF rs ref] by blast
    then have "r = s" using unique_number [OF ok, of r s] r refs(1) by simp
    moreover have "0 < minPrizeDrawDate" by code_simp
    ultimately show "\<not> IsZero (DrawDate r)" using s(2) by (auto simp: lacks_prizes_def IsZero_def)
  qed
  have main: "same_draws db db' \<and> (\<forall>e. res = Inl e \<longrightarrow> rows db' = rows db) \<and>
    (\<forall>n w. res = Inr (n, w) \<longrightarrow> 0 \<le> n \<and> n \<le> size \<and> proper w \<and> untouched_outside (covered w) db db' \<and> (n = 0 \<longrightarrow> rows db' = rows db))"
  proof (cases r1)
    case (Inl e)
    then have "db' = db1" "res = Inl e" using out g by (auto simp: SeedMissingPrizes_def size_def)
    then show ?thesis using s1 refs(1) by simp
  next
    case (Inr rs)
    show ?thesis
    proof (cases "rs = []")
      case True
      then have "db' = db1" "res = Inr (0, 0, 0)" using out g Inr by (auto simp: SeedMissingPrizes_def size_def)
      then show ?thesis using s1 refs(1) by (simp add: proper_def untouched_rows size_def)
    next
      case False
      obtain n lo hi db2 where l: "prizeLoop fetch rs 0 (0, 0) db1 = ((n, lo, hi), db2)"
        by (metis prod.exhaust)
      have eq: "db' = db2" "res = Inr (n, lo, hi)"
        using out g Inr False l by (auto simp: SeedMissingPrizes_def size_def)
      have "proper (0, 0)" by (simp add: proper_def)
      from prizeLoop_spec [OF ok1 this _ dates [OF Inr] l]
      show ?thesis
        using eq s1 refs(1) refs(3) [OF Inr] size same_draws_trans [of db db1 db2] untouched_trans [OF untouched_rows, of db1 db "covered (lo, hi)" db2]
        by auto
    qed
  qed
  then show "same_draws db db'" and "\<And>e. res = Inl e \<Longrightarrow> rows db' = rows db"
    and "\<And>n w. res = Inr (n, w) \<Longrightarrow> 0 \<le> n \<and> n \<le> (if batchSize \<le> 0 then 50 else batchSize) \<and> proper w \<and> untouched_outside (covered w) db db' \<and>
      (n = 0 \<longrightarrow> rows db' = rows db)" by (auto simp: size_def)
qed

end
