(* ===== verification/Redis.thy ===== *)
theory Redis
  imports Go_Strings
begin

section \<open>Commands to Redis\<close>

text \<open>
  What \<open>scrape_consumer.go\<close> sends to Redis. Redis is a service: the commands of a run are collected in their
  order, the replies the source ignores are left out, and the part of the server's state that the properties
  speak of (the fields of a hash, the acknowledged messages) is read off the commands.
\<close>

datatype redis_value = VStr string | VInt int

datatype command =
  SetKey string string int
| HSet string "(string \<times> redis_value) list"
| Expire string int
| XAdd string int "(string \<times> redis_value) list"
| XAck string string string
| XGroupCreateMkStream string string string

text \<open>The value of a field of a hash after the commands; the last write wins.\<close>

fun hget :: "string \<Rightarrow> string \<Rightarrow> command list \<Rightarrow> redis_value option \<Rightarrow> redis_value option" where
  "hget key field [] v = v"
| "hget key field (HSet k fs # cs) v =
     hget key field cs (if k = key then (case map_of (rev fs) field of None \<Rightarrow> v | Some w \<Rightarrow> Some w) else v)"
| "hget key field (_ # cs) v = hget key field cs v"

lemma hget_append: "hget key field (xs @ ys) v = hget key field ys (hget key field xs v)"
  by (induction key field xs v rule: hget.induct) auto

definition acked :: "command list \<Rightarrow> string list" where
  "acked cs = concat (map (\<lambda>c. case c of XAck s g i \<Rightarrow> [i] | _ \<Rightarrow> []) cs)"

lemma acked_append [simp]: "acked (xs @ ys) = acked xs @ acked ys"
  by (simp add: acked_def)

lemma acked_Cons [simp]: "acked (c # cs) = (case c of XAck s g i \<Rightarrow> [i] | _ \<Rightarrow> []) @ acked cs"
  and acked_Nil [simp]: "acked [] = []"
  by (simp_all add: acked_def)

end
