(* ===== verification/Runner.thy ===== *)
theory Runner
  imports Seeder Redis
begin

section \<open>The scrape run (scrape runner)\<close>

text \<open>
  \<open>internal/services/scrape_runner.go\<close>. The runner's four interfaces are the fields of the record
  \<open>ScraperRunner\<close>, operations on a state \<open>'s\<close>; a nil invalidator or seeder is \<open>None\<close>. The mutex makes runs
  follow one another, so a run is a function of the state. The backfill loop ends only if the seeder
  reports progress, so it is a partial function; \<open>None\<close> is a run that does not end or panics. The locale
  \<open>scrape_ports\<close> states what the runner relies on; it is interpreted on the repository, the seeder and the
  archive cache of this development.
\<close>

definition prizeBackfillBatchSize :: int where "prizeBackfillBatchSize = 50"
definition maxPrizeBackfillPerRun :: int where "maxPrizeBackfillPerRun = 2000"

record ScrapeResult =
  Inserted :: int
  PrizesWritten :: int

record 's ScraperRunner =
  fetcher :: "'s \<Rightarrow> ((error + LotteryResult list) \<times> 's) option"
  inserter :: "LotteryResult list \<Rightarrow> 's \<Rightarrow> (error + int \<times> time \<times> time) \<times> 's"
  invalidator :: "(time \<times> time \<Rightarrow> 's \<Rightarrow> 's) option"
  seeder :: "(int \<Rightarrow> 's \<Rightarrow> (error + int \<times> time \<times> time) \<times> 's) option"

definition NewScraperRunner ::
  "('s \<Rightarrow> ((error + LotteryResult list) \<times> 's) option) \<Rightarrow>
   (LotteryResult list \<Rightarrow> 's \<Rightarrow> (error + int \<times> time \<times> time) \<times> 's) \<Rightarrow> (time \<times> time \<Rightarrow> 's \<Rightarrow> 's) option \<Rightarrow>
   (int \<Rightarrow> 's \<Rightarrow> (error + int \<times> time \<times> time) \<times> 's) option \<Rightarrow> 's ScraperRunner" where
  "NewScraperRunner f i v p = \<lparr>fetcher = f, inserter = i, invalidator = v, seeder = p\<rparr>"

definition invalidate :: "'s ScraperRunner \<Rightarrow> time \<times> time \<Rightarrow> 's \<Rightarrow> 's" where
  "invalidate r w s = (case invalidator r of None \<Rightarrow> s | Some act \<Rightarrow> act w s)"

partial_function (option) backfillLoop ::
  "'s ScraperRunner \<Rightarrow> (int \<Rightarrow> 's \<Rightarrow> (error + int \<times> time \<times> time) \<times> 's) \<Rightarrow> int \<Rightarrow> 's \<Rightarrow> (int \<times> 's) option" where
  [code]: "backfillLoop r seed wrote s =
     (if wrote < maxPrizeBackfillPerRun then
        (case seed prizeBackfillBatchSize s of
           (Inl pErr, s) \<Rightarrow> Some (wrote, s)
         | (Inr (written, w), s) \<Rightarrow>
             if written = 0 then Some (wrote, s)
             else backfillLoop r seed (wrote + written) (invalidate r w s))
      else Some (wrote, s))"

definition RunOnce ::
  "'s ScraperRunner \<Rightarrow> (string \<Rightarrow> 's \<Rightarrow> 's) \<Rightarrow> 's \<Rightarrow> ((ScrapeResult \<times> error option) \<times> 's) option" where
  "RunOnce r onPhase s =
     (let res = \<lparr>Inserted = 0, PrizesWritten = 0\<rparr> in
      case fetcher r (onPhase ''fetch'' s) of
        None \<Rightarrow> None
      | Some (Inl err, s) \<Rightarrow> Some ((res, Some (''fetch lottery data: '' @ err)), s)
      | Some (Inr results, s) \<Rightarrow>
          (case inserter r results (onPhase ''insert'' s) of
             (Inl err, s) \<Rightarrow> Some ((res, Some (''insert new draws: '' @ err)), s)
           | (Inr (inserted, w), s) \<Rightarrow>
               let res = res\<lparr>Inserted := inserted\<rparr>;
                   s = (if 0 < inserted then invalidate r w s else s);
                   s = onPhase ''prizes'' s in
               (case seeder r of
                  None \<Rightarrow> Some ((res, None), s)
                | Some seed \<Rightarrow>
                    (case backfillLoop r seed 0 s of
                       None \<Rightarrow> None
                     | Some (wrote, s) \<Rightarrow> Some ((res\<lparr>PrizesWritten := wrote\<rparr>, None), s)))))"

subsection \<open>What a run needs of its ports\<close>

text \<open>
  \<open>good\<close> is the invariant between operations; \<open>dirty w\<close> weakens it after a write to the dates \<open>w\<close>, until
  those are invalidated. \<open>seen\<close> is what the fetcher promises of the draws it returns.
\<close>

locale scrape_ports =
  fixes r :: "'s ScraperRunner" and wipe :: "time \<times> time \<Rightarrow> 's \<Rightarrow> 's"
    and good :: "'s \<Rightarrow> bool" and dirty :: "time \<times> time \<Rightarrow> 's \<Rightarrow> bool" and fetched :: "LotteryResult list \<Rightarrow> bool"
  assumes invalidator_wipe: "invalidator r = Some wipe"
    and clean: "dirty w s \<Longrightarrow> good (wipe w s)"
    and fetch: "good s \<Longrightarrow> \<exists>res s'. fetcher r s = Some (res, s') \<and> good s' \<and> (\<forall>ds. res = Inr ds \<longrightarrow> fetched ds)"
    and insert_error: "good s \<Longrightarrow> fetched ds \<Longrightarrow> inserter r ds s = (Inl e, s') \<Longrightarrow> good s'"
    and insert_ok: "good s \<Longrightarrow> fetched ds \<Longrightarrow> inserter r ds s = (Inr (n, w), s') \<Longrightarrow>
      0 \<le> n \<and> dirty w s' \<and> (n = 0 \<longrightarrow> good s')"
    and seed_error: "good s \<Longrightarrow> seeder r = Some seed \<Longrightarrow> seed b s = (Inl e, s') \<Longrightarrow> good s'"
    and seed_ok: "good s \<Longrightarrow> seeder r = Some seed \<Longrightarrow> 0 < b \<Longrightarrow> seed b s = (Inr (n, w), s') \<Longrightarrow>
      0 \<le> n \<and> n \<le> b \<and> dirty w s' \<and> (n = 0 \<longrightarrow> good s')"
begin

lemma backfill:
  "good s \<Longrightarrow> seeder r = Some seed \<Longrightarrow> wrote \<le> maxPrizeBackfillPerRun \<Longrightarrow> 0 \<le> wrote \<Longrightarrow>
   \<exists>wrote' s'. backfillLoop r seed wrote s = Some (wrote', s') \<and> good s' \<and> wrote \<le> wrote' \<and>
     wrote' < maxPrizeBackfillPerRun + prizeBackfillBatchSize"
proof (induction "nat (maxPrizeBackfillPerRun - wrote)" arbitrary: wrote s rule: less_induct)
  case less
  have batch: "0 < prizeBackfillBatchSize" by (simp add: prizeBackfillBatchSize_def)
  show ?case
  proof (cases "wrote < maxPrizeBackfillPerRun")
    case False
    then show ?thesis using less.prems batch by (subst backfillLoop.simps) auto
  next
    case True
    obtain res s1 where one: "seed prizeBackfillBatchSize s = (res, s1)" by fastforce
    show ?thesis
    proof (cases res)
      case (Inl e)
      then show ?thesis
        using True one batch seed_error [OF less.prems(1,2)] by (subst backfillLoop.simps) auto
    next
      case (Inr nw)
      obtain n w where nw: "nw = (n, w)" by (cases nw)
      have ok: "0 \<le> n" "dirty w s1" "n = 0 \<longrightarrow> good s1" "n \<le> prizeBackfillBatchSize"
        using seed_ok [OF less.prems(1,2) batch] one Inr nw by auto
      show ?thesis
      proof (cases "n = 0")
        case True
        then show ?thesis
          using \<open>wrote < _\<close> one Inr nw ok batch by (subst backfillLoop.simps) auto
      next
        case False
        let ?s = "invalidate r w s1"
        have step: "backfillLoop r seed wrote s = backfillLoop r seed (wrote + n) ?s"
          using \<open>wrote < _\<close> one Inr nw False by (subst backfillLoop.simps) simp
        have good: "good ?s" using clean [OF ok(2)] by (simp add: invalidate_def invalidator_wipe)
        show ?thesis
        proof (cases "wrote + n \<le> maxPrizeBackfillPerRun")
          case True
          have "nat (maxPrizeBackfillPerRun - (wrote + n)) < nat (maxPrizeBackfillPerRun - wrote)"
            using \<open>wrote < _\<close> False ok(1) by simp
          from less.hyps [OF this good less.prems(2) True] show ?thesis using step ok(1) less.prems(4) by force
        next
          case False
          then have "backfillLoop r seed (wrote + n) ?s = Some (wrote + n, ?s)" by (subst backfillLoop.simps) simp
          then show ?thesis using step good ok(1,4) \<open>wrote < _\<close> by auto
        qed
      qed
    qed
  qed
qed

text \<open>A run ends, keeps the invariant, and reports a non-negative count of prizes.\<close>

lemma run:
  assumes "good s" and phase: "\<And>p s. good s \<Longrightarrow> good (onPhase p s)"
  shows "\<exists>res err s'. RunOnce r onPhase s = Some ((res, err), s') \<and> good s' \<and> 0 \<le> PrizesWritten res \<and>
    PrizesWritten res < maxPrizeBackfillPerRun + prizeBackfillBatchSize"
proof -
  have limits: "0 \<le> maxPrizeBackfillPerRun" "0 < maxPrizeBackfillPerRun + prizeBackfillBatchSize"
    by (simp_all add: maxPrizeBackfillPerRun_def prizeBackfillBatchSize_def)
  obtain f s1 where f: "fetcher r (onPhase ''fetch'' s) = Some (f, s1)" "good s1" "\<And>ds. f = Inr ds \<Longrightarrow> fetched ds"
    using fetch [OF phase [OF assms(1)]] by blast
  show ?thesis
  proof (cases f)
    case (Inl e)
    then show ?thesis using f limits by (simp add: RunOnce_def)
  next
    case (Inr ds)
    obtain i s2 where i: "inserter r ds (onPhase ''insert'' s1) = (i, s2)" by fastforce
    note g1 = phase [OF f(2), of "''insert''"]
    show ?thesis
    proof (cases i)
      case err: (Inl e)
      then show ?thesis using f Inr i limits insert_error [OF g1 f(3) [OF Inr]] by (auto simp: RunOnce_def)
    next
      case ins: (Inr nw)
      obtain n w where nw: "nw = (n, w)" by (cases nw)
      let ?s3 = "onPhase ''prizes'' (if 0 < n then invalidate r w s2 else s2)"
      have "good (if 0 < n then invalidate r w s2 else s2)"
        using insert_ok [OF g1 f(3) [OF Inr]] i ins nw clean by (auto simp: invalidate_def invalidator_wipe)
      then have g3: "good ?s3" by (rule phase)
      show ?thesis
      proof (cases "seeder r")
        case None
        then show ?thesis using f Inr i ins nw g3 limits by (simp add: RunOnce_def Let_def)
      next
        case (Some seed)
        from backfill [OF g3 Some limits(1)] obtain wrote s4 where
          "backfillLoop r seed 0 ?s3 = Some (wrote, s4)" "good s4" "0 \<le> wrote"
          "wrote < maxPrizeBackfillPerRun + prizeBackfillBatchSize" by auto
        then show ?thesis using f Inr i ins nw Some by (simp add: RunOnce_def Let_def)
      qed
    qed
  qed
qed

end

subsection \<open>The ports of the server\<close>

text \<open>
  What \<open>startup.NewServer\<close> wires together: the database and the archive cache, and the runner's ports on them.
  The world also holds what a run meets outside: the web, the HTML parser, the clock and the order in which Go
  visits the cache's map; and the commands sent to Redis. No port changes these.
\<close>

record world =
  w_db :: database
  w_cache :: LotteryManager
  w_web :: web
  w_parse :: "string \<Rightarrow> error + html_node"
  w_now :: time
  w_order :: "(string \<times> nat) list \<Rightarrow> (string \<times> nat) list"
  w_redis :: "command list"

definition fetch_port :: "world \<Rightarrow> ((error + LotteryResult list) \<times> world) option" where
  "fetch_port s = map_option (\<lambda>res. (res, s)) (FetchLotteryData (w_web s) (w_now s))"

definition insert_port :: "LotteryResult list \<Rightarrow> world \<Rightarrow> (error + int \<times> time \<times> time) \<times> world" where
  "insert_port results s = (let (res, db) = InsertNewDraws results (w_db s) in (res, s\<lparr>w_db := db\<rparr>))"

definition invalidate_port :: "time \<times> time \<Rightarrow> world \<Rightarrow> world" where
  "invalidate_port w s =
     s\<lparr>w_cache := InvalidateRange (fst w) (snd w) (w_order s (cache (w_cache s))) (w_cache s)\<rparr>"

definition seed_port :: "int \<Rightarrow> world \<Rightarrow> (error + int \<times> time \<times> time) \<times> world" where
  "seed_port batchSize s =
     (let (res, db) = SeedMissingPrizes (FetchPrizeAmounts (w_web s) (w_parse s)) batchSize (w_db s)
      in (res, s\<lparr>w_db := db\<rparr>))"

definition server_runner :: "world ScraperRunner" where
  "server_runner = NewScraperRunner fetch_port insert_port (Some invalidate_port) (Some seed_port)"

text \<open>A cached window is up to date when its archive is the one that would be built from the table now.\<close>

definition up_to_date :: "database \<Rightarrow> window \<Rightarrow> bool" where
  "up_to_date db w \<longleftrightarrow> w_key w = windowKey (w_from w) (w_to w) \<and>
     NewLotteryArchive Lottery (w_from w) (w_to w) (select_range (w_from w) (w_to w) (rows db)) = Some (w_arch w)"

text \<open>
  What the surroundings promise: the draws' file does not make the parser panic and dates no draw at the zero
  time, which the code uses for ``no date''; the visiting order of a map is one of its orders.
\<close>

definition dated :: "LotteryResult list \<Rightarrow> bool" where
  "dated ds \<longleftrightarrow> (\<forall>d \<in> set ds. \<not> IsZero (DrawDate d))"

definition good_web :: "web \<Rightarrow> time \<Rightarrow> bool" where
  "good_web get now \<longleftrightarrow> (case FetchLotteryData get now of None \<Rightarrow> False | Some (Inl _) \<Rightarrow> True | Some (Inr ds) \<Rightarrow> dated ds)"

definition good_order :: "('a list \<Rightarrow> 'a list) \<Rightarrow> bool" where
  "good_order order \<longleftrightarrow> (\<forall>c. distinct c \<longrightarrow> distinct (order c) \<and> set (order c) = set c)"

definition coherent :: "world \<Rightarrow> bool" where
  "coherent s \<longleftrightarrow> good_web (w_web s) (w_now s) \<and> good_order (w_order s) \<and> table_ok (w_db s) \<and>
     (\<exists>rs. cache_ok (w_cache s) rs \<and> (\<forall>w \<in> set (windows (w_cache s) rs). up_to_date (w_db s) w))"

definition coherent_except :: "time \<times> time \<Rightarrow> world \<Rightarrow> bool" where
  "coherent_except x s \<longleftrightarrow> good_web (w_web s) (w_now s) \<and> good_order (w_order s) \<and> table_ok (w_db s) \<and>
     (\<exists>rs. cache_ok (w_cache s) rs \<and> (\<forall>w \<in> set (windows (w_cache s) rs).
        \<not> rangesOverlap (w_from w) (w_to w) (fst x) (snd x) \<longrightarrow> up_to_date (w_db s) w))"

lemma select_range_untouched:
  assumes "untouched_outside S db db'" and "window_instants lo hi \<inter> S = {}"
  shows "select_range lo hi (rows db') = select_range lo hi (rows db)"
proof -
  have "filter (in_range lo hi) rs = filter (in_range lo hi) (filter (\<lambda>r. DrawDate r \<notin> S) rs)" for rs
    using assms(2) by (auto intro!: filter_cong simp: in_range_def window_instants_def)
  then show ?thesis using assms(1) unfolding select_range_def untouched_outside_def by metis
qed

lemma no_overlap_disjoint:
  assumes "proper x" and "\<not> rangesOverlap lo hi (fst x) (snd x)"
  shows "window_instants lo hi \<inter> covered x = {}"
  using assms by (auto simp: proper_def rangesOverlap_def window_instants_def covered_def split: if_splits)

lemma coherent_write:
  assumes "coherent s" and "table_ok db" and "proper x" and "untouched_outside (covered x) (w_db s) db"
  shows "coherent_except x (s\<lparr>w_db := db\<rparr>)"
proof -
  have "up_to_date db w" if "up_to_date (w_db s) w" "\<not> rangesOverlap (w_from w) (w_to w) (fst x) (snd x)" for w
    using that select_range_untouched [OF assms(4) no_overlap_disjoint [OF assms(3) that(2)]]
    by (simp add: up_to_date_def)
  then show ?thesis using assms(1,2) by (fastforce simp: coherent_def coherent_except_def)
qed

lemma coherent_same_rows:
  assumes "coherent s" and "rows db = rows (w_db s)" and "table_ok db"
  shows "coherent (s\<lparr>w_db := db\<rparr>)"
  using assms by (auto simp: coherent_def up_to_date_def)

lemma coherent_invalidate:
  assumes "coherent_except x s"
  shows "coherent (invalidate_port x s)"
proof -
  obtain rs where rs: "cache_ok (w_cache s) rs" "\<forall>w \<in> set (windows (w_cache s) rs).
      \<not> rangesOverlap (w_from w) (w_to w) (fst x) (snd x) \<longrightarrow> up_to_date (w_db s) w"
    using assms(1) by (auto simp: coherent_except_def)
  have "distinct (cache (w_cache s))"
    using rs(1) by (auto simp: cache_ok_def keyed_def distinct_map)
  from InvalidateRange_list [OF rs(1), of "w_order s (cache (w_cache s))" "fst x" "snd x"] this assms
  obtain rs' where "cache_ok (w_cache (invalidate_port x s)) rs'"
    "windows (w_cache (invalidate_port x s)) rs' =
      filter (\<lambda>w. \<not> rangesOverlap (w_from w) (w_to w) (fst x) (snd x)) (windows (w_cache s) rs)"
    by (auto simp: invalidate_port_def coherent_except_def good_order_def)
  then show ?thesis using rs(2) assms(1) by (auto simp: coherent_def coherent_except_def invalidate_port_def)
qed

lemma insert_outcome_untouched:
  assumes "insert_outcome ds db (Inr (n, w), db')"
  shows "0 \<le> n" and "proper w" and "untouched_outside (covered w) db db'" and "n = 0 \<Longrightarrow> rows db' = rows db"
  using assms by (cases w; auto simp: insert_outcome_def untouched_outside_def filter_empty_conv)+

interpretation server: scrape_ports server_runner invalidate_port
  "\<lambda>s. coherent s \<and> Q (w_redis s)" "\<lambda>w s. coherent_except w s \<and> Q (w_redis s)" dated
  for Q :: "command list \<Rightarrow> bool"
proof
  let ?r = server_runner
  show "invalidator ?r = Some invalidate_port" by (simp add: server_runner_def NewScraperRunner_def)
  show "coherent (invalidate_port w s) \<and> Q (w_redis (invalidate_port w s))"
    if "coherent_except w s \<and> Q (w_redis s)" for w s
    using coherent_invalidate [of w s] that by (simp add: invalidate_port_def)
  show "\<exists>res s'. fetcher ?r s = Some (res, s') \<and> (coherent s' \<and> Q (w_redis s')) \<and>
      (\<forall>ds. res = Inr ds \<longrightarrow> dated ds)" if "coherent s \<and> Q (w_redis s)" for s
    using that
    by (auto simp: server_runner_def NewScraperRunner_def fetch_port_def coherent_def good_web_def
        split: option.splits sum.splits)
  show "coherent s' \<and> Q (w_redis s')" if h: "coherent s \<and> Q (w_redis s)" "dated ds" "inserter ?r ds s = (Inl e, s')" for s ds e s'
  proof -
    obtain db where db: "InsertNewDraws ds (w_db s) = (Inl e, db)" "s' = s\<lparr>w_db := db\<rparr>"
      using h(3) by (auto simp: server_runner_def NewScraperRunner_def insert_port_def split: prod.splits)
    have coh: "coherent s" and red: "Q (w_redis s)" using h(1) by simp_all
    then have "table_ok (w_db s)" by (simp add: coherent_def)
    from InsertNewDraws_outcome [OF this, of ds] h(2) db
    show ?thesis using coherent_same_rows [OF coh, of db] red by (simp add: insert_outcome_def dated_def)
  qed
  show "0 \<le> n \<and> (coherent_except w s' \<and> Q (w_redis s')) \<and> (n = 0 \<longrightarrow> coherent s' \<and> Q (w_redis s'))"
    if h: "coherent s \<and> Q (w_redis s)" "dated ds" "inserter ?r ds s = (Inr (n, w), s')" for s ds n w s'
  proof -
    obtain db where db: "InsertNewDraws ds (w_db s) = (Inr (n, w), db)" "s' = s\<lparr>w_db := db\<rparr>"
      using h(3) by (auto simp: server_runner_def NewScraperRunner_def insert_port_def split: prod.splits)
    have coh: "coherent s" and red: "Q (w_redis s)" using h(1) by simp_all
    then have "table_ok (w_db s)" by (simp add: coherent_def)
    from InsertNewDraws_outcome [OF this, of ds] h(2) db
    have out: "insert_outcome ds (w_db s) (Inr (n, w), db)" "table_ok db" by (simp_all add: dated_def)
    note effect = insert_outcome_untouched [OF out(1)]
    show ?thesis
      using effect(1,4) coherent_write [OF coh out(2) effect(2,3)] coherent_same_rows [OF coh _ out(2)] db(2) red by auto
  qed
  fix s seed b
  assume both: "coherent s \<and> Q (w_redis s)" and seed: "seeder ?r = Some seed"
  then have s: "coherent s" and red: "Q (w_redis s)" by simp_all
  obtain res db where sm: "SeedMissingPrizes (FetchPrizeAmounts (w_web s) (w_parse s)) b (w_db s) = (res, db)" by fastforce
  have seeded: "seed b s = (res, s\<lparr>w_db := db\<rparr>)"
    using seed sm by (auto simp: server_runner_def NewScraperRunner_def seed_port_def)
  have ok: "table_ok (w_db s)" using s by (simp add: coherent_def)
  note eff = SeedMissingPrizes_effect [OF ok sm]
  have ok': "table_ok db" using same_draws_table_ok [OF eff(1) ok] .
  show "coherent s' \<and> Q (w_redis s')" if "seed b s = (Inl e, s')" for e s'
    using that seeded eff(2) coherent_same_rows [OF s _ ok'] red by auto
  show "0 \<le> n \<and> n \<le> b \<and> (coherent_except w s' \<and> Q (w_redis s')) \<and> (n = 0 \<longrightarrow> coherent s' \<and> Q (w_redis s'))"
    if "0 < b" "seed b s = (Inr (n, w), s')" for n w s'
    using that seeded eff(3) [of n w] coherent_write [OF s ok'] coherent_same_rows [OF s _ ok'] red by auto
qed

subsection \<open>Requests and runs together\<close>

text \<open>A request's \<open>Archive\<close> call on the world; its query reads the table as it is.\<close>

definition archive_port :: "time \<Rightarrow> time \<Rightarrow> world \<Rightarrow> ((error + LotteryArchive option) \<times> world) option" where
  "archive_port lo hi s =
     map_option (\<lambda>(res, m). (res, s\<lparr>w_cache := m\<rparr>))
       (Archive (Some (\<lambda>lo hi. Inr (select_range lo hi (rows (w_db s))))) lo hi (w_cache s))"

text \<open>The key a request is served under.\<close>

definition requestKey :: "time \<Rightarrow> time \<Rightarrow> string" where
  "requestKey lo hi = (let (f, t) = normalizeWindow lo hi in windowKey f t)"

lemma lru_archive_up_to_date:
  assumes "\<forall>w \<in> set ws. up_to_date db w"
  shows "\<forall>w \<in> set (snd (lru_archive (Some (\<lambda>lo hi. Inr (select_range lo hi (rows db)))) lo hi ws)). up_to_date db w"
    and "\<exists>a f t. fst (lru_archive (Some (\<lambda>lo hi. Inr (select_range lo hi (rows db)))) lo hi ws) = Inr a \<and>
      windowKey f t = requestKey lo hi \<and> NewLotteryArchive Lottery f t (select_range f t (rows db)) = Some a"
proof -
  let ?repo = "Some (\<lambda>lo hi. Inr (select_range lo hi (rows db)) :: error + LotteryResult list)"
  obtain f t where nw: "normalizeWindow lo hi = (f, t)" by fastforce
  obtain a where a: "NewLotteryArchive Lottery f t (select_range f t (rows db)) = Some a"
    using NewLotteryArchive_ok by blast
  have b: "build ?repo f t = Some (Inr a)" by (simp add: build_def a)
  have "(\<forall>w \<in> set (snd (lru_archive ?repo lo hi ws)). up_to_date db w) \<and>
    (\<exists>a f t. fst (lru_archive ?repo lo hi ws) = Inr a \<and>
      windowKey f t = requestKey lo hi \<and> NewLotteryArchive Lottery f t (select_range f t (rows db)) = Some a)"
  proof (cases "find (\<lambda>w. w_key w = windowKey f t) ws")
    case None
    have "\<forall>w \<in> set (if length ws < 8 then ws else butlast ws). up_to_date db w"
      using assms by (auto dest: in_set_butlastD)
    then show ?thesis using None a b by (auto simp: lru_archive_def nw up_to_date_def requestKey_def Let_def)
  next
    case (Some w)
    then have w: "w \<in> set ws" "w_key w = windowKey f t" by (auto simp: find_Some_iff)
    then have "up_to_date db w" using assms by blast
    then show ?thesis using Some assms w(2) by (auto simp: lru_archive_def nw up_to_date_def requestKey_def Let_def)
  qed
  then show "\<forall>w \<in> set (snd (lru_archive ?repo lo hi ws)). up_to_date db w"
    and "\<exists>a f t. fst (lru_archive ?repo lo hi ws) = Inr a \<and>
      windowKey f t = requestKey lo hi \<and> NewLotteryArchive Lottery f t (select_range f t (rows db)) = Some a" by blast+
qed

lemma archive_port_coherent:
  assumes "coherent s"
  shows "\<exists>a s' f t. archive_port lo hi s = Some (Inr (Some a), s') \<and> coherent s' \<and> w_db s' = w_db s \<and>
    windowKey f t = requestKey lo hi \<and> NewLotteryArchive Lottery f t (select_range f t (rows (w_db s))) = Some a"
proof -
  let ?repo = "Some (\<lambda>lo hi. Inr (select_range lo hi (rows (w_db s))) :: error + LotteryResult list)"
  obtain rs where rs: "cache_ok (w_cache s) rs" "\<forall>w \<in> set (windows (w_cache s) rs). up_to_date (w_db s) w"
    using assms by (auto simp: coherent_def)
  note new = lru_archive_up_to_date [OF rs(2), of lo hi]
  obtain m' rs' where m': "Archive ?repo lo hi (w_cache s) =
      Some (map_sum id Some (fst (lru_archive ?repo lo hi (windows (w_cache s) rs))), m')"
    "cache_ok m' rs'" "windows m' rs' = snd (lru_archive ?repo lo hi (windows (w_cache s) rs))"
    using Archive_step [OF rs(1), of ?repo lo hi] by blast
  obtain a f t where a: "fst (lru_archive ?repo lo hi (windows (w_cache s) rs)) = Inr a"
    "windowKey f t = requestKey lo hi" "NewLotteryArchive Lottery f t (select_range f t (rows (w_db s))) = Some a"
    using new(2) by blast
  have "coherent (s\<lparr>w_cache := m'\<rparr>)" using m'(2,3) new(1) assms by (auto simp: coherent_def)
  then show ?thesis using m'(1) a by (auto simp: archive_port_def)
qed

text \<open>Any history of requests and scrape runs; every run meets its own web, at its own time.\<close>

datatype event = Request time time | Scrape web time "(string \<times> nat) list \<Rightarrow> (string \<times> nat) list"

inductive history :: "world \<Rightarrow> event list \<Rightarrow> world \<Rightarrow> bool" where
  history_none: "history s [] s"
| history_request: "history s es s' \<Longrightarrow> archive_port lo hi s' = Some (res, s'') \<Longrightarrow>
    history s (es @ [Request lo hi]) s''"
| history_scrape: "history s es s' \<Longrightarrow> good_web get now \<Longrightarrow> good_order order \<Longrightarrow>
    RunOnce server_runner (\<lambda>p s. s) (s'\<lparr>w_web := get, w_now := now, w_order := order\<rparr>) = Some (out, s'') \<Longrightarrow>
    history s (es @ [Scrape get now order]) s''"

lemma RunOnce_coherent:
  assumes "coherent s"
  shows "\<exists>res err s'. RunOnce server_runner (\<lambda>p s. s) s = Some ((res, err), s') \<and> coherent s' \<and>
    0 \<le> PrizesWritten res \<and> PrizesWritten res < 2050"
  using server.run [of s "\<lambda>_. True" "\<lambda>p s. s"] assms by (simp add: maxPrizeBackfillPerRun_def prizeBackfillBatchSize_def)

lemma history_coherent: "history s es s' \<Longrightarrow> coherent s \<Longrightarrow> coherent s'"
proof (induction rule: history.induct)
  case (history_request s es s' lo hi res s'')
  then show ?case using archive_port_coherent [of s' lo hi] by auto
next
  case (history_scrape s es s' get now order out s'')
  let ?s = "s'\<lparr>w_web := get, w_now := now, w_order := order\<rparr>"
  have "coherent ?s" using history_scrape by (simp add: coherent_def)
  from RunOnce_coherent [OF this] show ?case using history_scrape.hyps by auto
qed

subsection \<open>Properties\<close>


text \<open>The server after start-up with an empty table, and no web.\<close>

definition new_world :: world where
  "new_world = \<lparr>w_db = empty_db, w_cache = NewLotteryManager, w_web = (\<lambda>_ _. Inl ''no route to host''),
     w_parse = (\<lambda>_. Inl ''no parser''), w_now = 0, w_order = (\<lambda>c. c), w_redis = []\<rparr>"

lemma new_world_coherent: "coherent new_world"
  using cache_ok_new empty_db_ok
  by (auto simp: coherent_def new_world_def good_web_def FetchLotteryData_def good_order_def windows_def intro!: exI [of _ "[]"])


text \<open>C20: Every scrape run ends, with the cache up to date again and fewer than 2050 prize rows reported (the cap of 2000
  is tested between batches of at most 50).\<close>

theorem RunOnce_ends:
  assumes "coherent s"
  shows "\<exists>res err s'. RunOnce server_runner (\<lambda>p s. s) s = Some ((res, err), s') \<and> coherent s' \<and>
    0 \<le> PrizesWritten res \<and> PrizesWritten res < 2050"
  by (rule RunOnce_coherent [OF assms])

theorem RunOnce_ends_witness:
  "\<exists>res err s'. RunOnce server_runner (\<lambda>p s. s) new_world = Some ((res, err), s') \<and> PrizesWritten res < 2050"
  using RunOnce_ends [OF new_world_coherent] by blast

text \<open>C36: The backfill can starve: a batch is always the fifty newest draws without prizes, so when none of their pages
  can be read (they are asked for again on every call), the loop stops at once and no older draw gets its prizes,
  in this run or any later one.\<close>

theorem backfill_starves:
  assumes "fst (pop_fault (w_db s)) = None"
    and "\<forall>r \<in> set (missing_prizes 50 (rows (w_db s))).
      \<exists>e. FetchPrizeAmounts (w_web s) (w_parse s) (DrawNumber r) = Inl e"
  shows "\<exists>s'. backfillLoop server_runner seed_port 0 s = Some (0, s') \<and> rows (w_db s') = rows (w_db s)"
proof -
  let ?fetch = "FetchPrizeAmounts (w_web s) (w_parse s)"
  obtain db1 where p: "pop_fault (w_db s) = (None, db1)" using assms(1) by (metis prod.collapse)
  note same = pop_fault_rows [OF p]
  let ?refs = "map (\<lambda>r. \<lparr>r_DrawNumber = DrawNumber r, r_DrawDate = DrawDate r\<rparr>) (missing_prizes 50 (rows (w_db s)))"
  have g: "GetDrawsWithoutPrizeRefs 50 (w_db s) = (Inr ?refs, db1)"
    using p same by (simp add: GetDrawsWithoutPrizeRefs_def query_rows_def wrap_error_def)
  have loop: "prizeLoop ?fetch refs k w db = ((k, w), db)"
    if "\<forall>ref \<in> set refs. \<exists>e. ?fetch (r_DrawNumber ref) = Inl e" for refs k w db
    using that by (induction refs) auto
  have "prizeLoop ?fetch ?refs 0 (0, 0) db1 = ((0, 0, 0), db1)"
    by (rule loop) (use assms(2) in auto)
  then have "SeedMissingPrizes ?fetch 50 (w_db s) = (Inr (0, 0, 0), db1)"
    using g by (auto simp: SeedMissingPrizes_def)
  then have "seed_port 50 s = (Inr (0, 0, 0), s\<lparr>w_db := db1\<rparr>)" by (simp add: seed_port_def)
  then have "backfillLoop server_runner seed_port 0 s = Some (0, s\<lparr>w_db := db1\<rparr>)"
    by (subst backfillLoop.simps) (simp add: prizeBackfillBatchSize_def maxPrizeBackfillPerRun_def)
  then show ?thesis using same by auto
qed

text \<open>Fifty-one draws without prizes, of which only the oldest has a page.\<close>

definition starved_world :: world where
  "starved_world = new_world\<lparr>
     w_db := empty_db\<lparr>rows := map (\<lambda>i. dated_draw (3000 + int i) (Date 2020 1 1 + int i) [1, 2, 3, 4, 5, 6] 1) (rev [0..<51])\<rparr>,
     w_web := (\<lambda>_ url. if url = paisDrawURL 3000 then Inr (StatusOK, []) else Inl ''not found'')\<rparr>"

theorem backfill_starves_witness:
  "\<exists>s'. backfillLoop server_runner seed_port 0 starved_world = Some (0, s') \<and>
     rows (w_db s') = rows (w_db starved_world)"
proof (rule backfill_starves)
  show "fst (pop_fault (w_db starved_world)) = None" by (simp add: starved_world_def empty_db_def pop_fault_def)
  let ?f = "\<lambda>i. dated_draw (3000 + int i) (Date 2020 1 1 + int i) [1, 2, 3, 4, 5, 6] 1"
  have d: "minPrizeDrawDate \<le> Date 2020 1 1" by code_simp
  have "lacks_prizes (?f i)" for i
    using d by (simp add: lacks_prizes_def dated_draw_def sample_draw_def minPrizeDrawNumber_def)
  then have "filter lacks_prizes (map ?f (rev [0..<51])) = map ?f (rev [0..<51])" by (simp add: filter_map comp_def del: upt_rec_numeral)
  moreover have "sorted (map (\<lambda>r. - DrawDate r) (map ?f (rev [0..<51])))"
    by (simp add: dated_draw_def rev_map [symmetric] sorted_wrt_rev sorted_wrt_map comp_def del: upt_rec_numeral)
  moreover have "take 50 (rev [0..<51]) = rev [1..<51]" by (simp add: take_rev del: upt_rec_numeral)
  ultimately have "missing_prizes 50 (rows (w_db starved_world)) = map ?f (rev [1..<51])"
    by (simp add: missing_prizes_def limited_def by_date_desc_def starved_world_def sort_key_id_if_sorted take_map
        del: upt_rec_numeral)
  moreover have "FetchPrizeAmounts (w_web starved_world) (w_parse starved_world) (DrawNumber (?f i)) =
      Inl (''prize scraper: request failed for draw '' @ Itoa (3000 + int i) @ '': not found'')" if "1 \<le> i" for i
  proof -
    have "dec (nat (3000 + int i)) \<noteq> dec 3000" using that unfolding dec_inj by simp
    then have "paisDrawURL (3000 + int i) \<noteq> paisDrawURL 3000" by (simp add: paisDrawURL_def Itoa_def)
    then show ?thesis
      by (simp add: FetchPrizeAmounts_def starved_world_def dated_draw_def sample_draw_def)
  qed
  ultimately show "\<forall>r \<in> set (missing_prizes 50 (rows (w_db starved_world))).
      \<exists>e. FetchPrizeAmounts (w_web starved_world) (w_parse starved_world) (DrawNumber r) = Inl e"
    by (auto simp del: upt_rec_numeral)
qed

end
