(* ===== verification/Transitions.thy ===== *)
theory Transitions
  imports Main
begin

section \<open>Systems that take steps\<close>

text \<open>
  What the interleaved models share: \<open>step e s\<close> is the state after the event \<open>e\<close>, or \<open>None\<close> when \<open>e\<close> cannot happen in
  \<open>s\<close>; \<open>steps\<close> runs a list of events, \<open>reaches\<close> is reachability from the start states. The locale \<open>kept_invariant\<close> is
  the contract between a system and an invariant of it.
\<close>

fun steps :: "('e \<Rightarrow> 's \<Rightarrow> 's option) \<Rightarrow> 'e list \<Rightarrow> 's \<Rightarrow> 's option" where
  "steps step [] s = Some s"
| "steps step (e # es) s = Option.bind (step e s) (steps step es)"

inductive reaches :: "('s \<Rightarrow> bool) \<Rightarrow> ('e \<Rightarrow> 's \<Rightarrow> 's option) \<Rightarrow> 's \<Rightarrow> bool"
  for start :: "'s \<Rightarrow> bool" and step :: "'e \<Rightarrow> 's \<Rightarrow> 's option" where
  at_start: "start s \<Longrightarrow> reaches start step s"
| next_step: "reaches start step s \<Longrightarrow> step e s = Some s' \<Longrightarrow> reaches start step s'"

lemma steps_Cons: "steps step (e # es) s = Some s' \<longleftrightarrow> (\<exists>s1. step e s = Some s1 \<and> steps step es s1 = Some s')"
  by (simp add: bind_eq_Some_conv)

lemma steps_reaches: "reaches start step s \<Longrightarrow> steps step es s = Some s' \<Longrightarrow> reaches start step s'"
  by (induction es arbitrary: s) (auto simp: bind_eq_Some_conv intro: next_step)

locale kept_invariant =
  fixes step :: "'e \<Rightarrow> 's \<Rightarrow> 's option" and start :: "'s \<Rightarrow> bool" and inv :: "'s \<Rightarrow> bool"
  assumes starts: "start s \<Longrightarrow> inv s"
    and keeps: "inv s \<Longrightarrow> step e s = Some s' \<Longrightarrow> inv s'"
begin

lemma along: "inv s \<Longrightarrow> steps step es s = Some s' \<Longrightarrow> inv s'"
  by (induction es arbitrary: s) (auto simp: bind_eq_Some_conv intro: keeps)

lemma from_start: "start s \<Longrightarrow> steps step es s = Some s' \<Longrightarrow> inv s'"
  using along starts by blast

lemma reached: "reaches start step s \<Longrightarrow> inv s"
  by (induction rule: reaches.induct) (auto intro: starts keeps)

end

declare steps.simps [simp del]

end
