(* ===== verification/Manager_Concurrent.thy ===== *)
theory Manager_Concurrent
  imports Manager Transitions
begin

section \<open>Concurrent calls of the archive cache\<close>

text \<open>
  \<open>Archive\<close> as concurrent callers run it: each caller is a small state machine whose steps are the
  locked sections and the unlocked reads of \<open>internal/services/lottery_manager.go\<close> between them, and
  the callers interleave with each other and with the invalidations. After a hit the source reads
  \<open>e.done\<close> twice without the lock, once in \<open>if e.done != nil\<close> and once in the \<open>select\<close>; both reads are
  steps of their own.

  \<open>Inv\<close> is the invariant of the reachable states: one loader per entry in flight, map entries under
  their own key, loaded entries hold an archive built for their window. The last theorems exhibit
  reachable states that the unlocked reads make possible.
\<close>

datatype pc =
    Start
  | Found nat
  | Selecting nat
  | Blocked nat
  | NilWait nat
  | Touching nat
  | Loading nat
  | Built nat "error + LotteryArchive"
  | Returned "error + LotteryArchive option"

record sys =
  mgr :: LotteryManager
  pcs :: "nat \<Rightarrow> pc"

datatype action =
    Lookup nat
  | ReadDone nat
  | Select nat
  | Wake nat
  | Cancel nat
  | Touch nat
  | Load nat
  | Finish nat
  | InvRange time time "(string \<times> nat) list"
  | InvAll

type_synonym requests = "nat \<Rightarrow> time \<times> time"

definition request_key :: "requests \<Rightarrow> nat \<Rightarrow> string" where
  "request_key req t = (let (from, to) = req t; (from, to) = normalizeWindow from to in windowKey from to)"

definition goto :: "nat \<Rightarrow> pc \<Rightarrow> sys \<Rightarrow> sys" where
  "goto t p s = s\<lparr>pcs := (pcs s)(t := p)\<rparr>"

text \<open>Lines 75-109: the lookup under the lock, with the whole locked section of a miss.\<close>

definition do_lookup :: "requests \<Rightarrow> nat \<Rightarrow> sys \<Rightarrow> sys option" where
  "do_lookup req t s =
     (case pcs s t of
        Start \<Rightarrow>
          let (from, to) = req t; (from, to) = normalizeWindow from to; key = windowKey from to in
          (case map_of (cache (mgr s)) key of
             Some e \<Rightarrow> Some (goto t (Found e) s)
           | None \<Rightarrow>
               let (e, m) = archive_start key from to (mgr s)
               in Some (goto t (Loading e) (s\<lparr>mgr := m\<rparr>)))
      | _ \<Rightarrow> None)"

text \<open>Lines 82-91: the unlocked reads of \<open>e.done\<close> and the wait.\<close>

definition do_read_done :: "nat \<Rightarrow> sys \<Rightarrow> sys option" where
  "do_read_done t s =
     (case pcs s t of
        Found e \<Rightarrow> Some (goto t (if e_done (heap (mgr s) e) then Selecting e else Touching e) s)
      | _ \<Rightarrow> None)"

definition do_select :: "nat \<Rightarrow> sys \<Rightarrow> sys option" where
  "do_select t s =
     (case pcs s t of
        Selecting e \<Rightarrow> Some (goto t (if e_done (heap (mgr s) e) then Blocked e else NilWait e) s)
      | _ \<Rightarrow> None)"

text \<open>The channel that \<open>Blocked e\<close> waits on is closed once \<open>e\<close> is no longer in flight.\<close>

definition do_wake :: "nat \<Rightarrow> sys \<Rightarrow> sys option" where
  "do_wake t s =
     (case pcs s t of
        Blocked e \<Rightarrow>
          if e_done (heap (mgr s) e) then None
          else Some (goto t (case e_err (heap (mgr s) e) of
                               Some err \<Rightarrow> Returned (Inl err) | None \<Rightarrow> Touching e) s)
      | _ \<Rightarrow> None)"

definition do_cancel :: "nat \<Rightarrow> sys \<Rightarrow> sys option" where
  "do_cancel t s =
     (case pcs s t of
        Blocked e \<Rightarrow> Some (goto t (Returned (Inl ''context canceled'')) s)
      | NilWait e \<Rightarrow> Some (goto t (Returned (Inl ''context canceled'')) s)
      | _ \<Rightarrow> None)"

text \<open>Lines 92-95.\<close>

definition do_touch :: "nat \<Rightarrow> sys \<Rightarrow> sys option" where
  "do_touch t s =
     (case pcs s t of
        Touching e \<Rightarrow>
          let m = moveToFront e (mgr s)
          in Some (goto t (Returned (Inr (e_arch (heap m e)))) (s\<lparr>mgr := m\<rparr>))
      | _ \<Rightarrow> None)"

text \<open>Lines 111-125.\<close>

definition do_load :: "range_query option \<Rightarrow> requests \<Rightarrow> nat \<Rightarrow> sys \<Rightarrow> sys option" where
  "do_load repo req t s =
     (case pcs s t of
        Loading e \<Rightarrow>
          let (from, to) = req t; (from, to) = normalizeWindow from to
          in map_option (\<lambda>res. goto t (Built e res) s) (build repo from to)
      | _ \<Rightarrow> None)"

definition do_finish :: "requests \<Rightarrow> nat \<Rightarrow> sys \<Rightarrow> sys option" where
  "do_finish req t s =
     (case pcs s t of
        Built e res \<Rightarrow>
          Some (goto t (Returned (case res of Inl err \<Rightarrow> Inl err | Inr a \<Rightarrow> Inr (Some a)))
            (s\<lparr>mgr := archive_finish e (request_key req t) res (mgr s)\<rparr>))
      | _ \<Rightarrow> None)"

fun perform :: "range_query option \<Rightarrow> requests \<Rightarrow> action \<Rightarrow> sys \<Rightarrow> sys option" where
  "perform repo req (Lookup t) s = do_lookup req t s"
| "perform repo req (ReadDone t) s = do_read_done t s"
| "perform repo req (Select t) s = do_select t s"
| "perform repo req (Wake t) s = do_wake t s"
| "perform repo req (Cancel t) s = do_cancel t s"
| "perform repo req (Touch t) s = do_touch t s"
| "perform repo req (Load t) s = do_load repo req t s"
| "perform repo req (Finish t) s = do_finish req t s"
| "perform repo req (InvRange lo hi visit) s =
     (if mset visit = mset (cache (mgr s)) then Some (s\<lparr>mgr := InvalidateRange lo hi visit (mgr s)\<rparr>) else None)"
| "perform repo req InvAll s = Some (s\<lparr>mgr := InvalidateAll (mgr s)\<rparr>)"

definition init_sys :: sys where
  "init_sys = \<lparr>mgr = NewLotteryManager, pcs = (\<lambda>_. Start)\<rparr>"

abbreviation performs :: "range_query option \<Rightarrow> requests \<Rightarrow> action list \<Rightarrow> sys \<Rightarrow> sys option" where
  "performs repo req \<equiv> steps (perform repo req)"

abbreviation reachable :: "range_query option \<Rightarrow> requests \<Rightarrow> sys \<Rightarrow> bool" where
  "reachable repo req \<equiv> reaches (\<lambda>s. s = init_sys) (perform repo req)"

lemma performs_reachable: "performs repo req as init_sys = Some s \<Longrightarrow> reachable repo req s"
  by (rule steps_reaches [OF at_start]) simp_all

subsection \<open>The invariant\<close>

definition flying :: "sys \<Rightarrow> nat \<Rightarrow> nat \<Rightarrow> bool" where
  "flying s t e \<longleftrightarrow> pcs s t = Loading e \<or> (\<exists>res. pcs s t = Built e res)"

definition holds :: "pc \<Rightarrow> nat \<Rightarrow> bool" where
  "holds p e \<longleftrightarrow> p \<in> {Found e, Selecting e, Blocked e, NilWait e, Touching e}"

definition Inv :: "range_query option \<Rightarrow> requests \<Rightarrow> sys \<Rightarrow> bool" where
  "Inv repo req s \<longleftrightarrow>
     (\<forall>e. e_done (heap (mgr s) e) \<longrightarrow> e < fresh (mgr s) \<and> (\<exists>t. flying s t e)) \<and>
     (\<forall>t u e. flying s t e \<longrightarrow> flying s u e \<longrightarrow> t = u) \<and>
     (\<forall>t e. flying s t e \<longrightarrow> e < fresh (mgr s) \<and> e_done (heap (mgr s) e) \<and>
        e_key (heap (mgr s) e) = request_key req t) \<and>
     (\<forall>k e. map_of (cache (mgr s)) k = Some e \<longrightarrow> e < fresh (mgr s) \<and> e_key (heap (mgr s) e) = k) \<and>
     (\<forall>t e. holds (pcs s t) e \<longrightarrow>
        e < fresh (mgr s) \<and> e_key (heap (mgr s) e) = request_key req t) \<and>
     (\<forall>e a. e_arch (heap (mgr s) e) = Some a \<longrightarrow>
        (\<exists>lo hi. windowKey lo hi = e_key (heap (mgr s) e) \<and> build repo lo hi = Some (Inr a))) \<and>
     (\<forall>t e res. pcs s t = Built e res \<longrightarrow>
        (\<exists>lo hi. windowKey lo hi = request_key req t \<and> build repo lo hi = Some res)) \<and>
     (\<forall>t a. pcs s t = Returned (Inr (Some a)) \<longrightarrow>
        (\<exists>lo hi. windowKey lo hi = request_key req t \<and> build repo lo hi = Some (Inr a)))"

text \<open>The manager's part of the invariant only reads entry contents, the map and the allocation pointer.\<close>

definition submap :: "(string \<times> nat) list \<Rightarrow> (string \<times> nat) list \<Rightarrow> bool" where
  "submap c' c \<longleftrightarrow> (\<forall>k e. map_of c' k = Some e \<longrightarrow> map_of c k = Some e)"

lemma submap_refl [simp]: "submap c c"
  by (simp add: submap_def)

lemma submap_delete [simp]: "submap (AList.delete k c) c"
  by (simp add: submap_def delete_conv')

lemma submap_trans: "submap a b \<Longrightarrow> submap b c \<Longrightarrow> submap a c"
  by (simp add: submap_def)

lemma Inv_frame:
  assumes "Inv repo req s" and "\<forall>e. contents (heap (mgr s') e) = contents (heap (mgr s) e)"
    and "fresh (mgr s') = fresh (mgr s)" and "submap (cache (mgr s')) (cache (mgr s))" and "pcs s' = pcs s"
  shows "Inv repo req s'"
proof -
  have "e_done (heap (mgr s') e) = e_done (heap (mgr s) e)" "e_key (heap (mgr s') e) = e_key (heap (mgr s) e)"
    "e_arch (heap (mgr s') e) = e_arch (heap (mgr s) e)" for e
    using assms(2) by (auto simp: contents_def)
  moreover have "flying s' t e = flying s t e" for t e using assms(5) by (simp add: flying_def)
  moreover have "e < fresh (mgr s) \<and> e_key (heap (mgr s) e) = k" if "map_of (cache (mgr s')) k = Some e" for k e
    using that assms(1,4) unfolding Inv_def submap_def by metis
  ultimately show ?thesis using assms(1,3,5) unfolding Inv_def by simp
qed

lemma Inv_goto:
  assumes inv: "Inv repo req s" and fly: "\<And>e. \<not> flying s t e"
    and p: "\<And>e. p \<noteq> Loading e" "\<And>e res. p \<noteq> Built e res"
    and at: "\<And>e. holds p e \<Longrightarrow>
       e < fresh (mgr s) \<and> e_key (heap (mgr s) e) = request_key req t"
    and ret: "\<And>a. p = Returned (Inr (Some a)) \<Longrightarrow>
       \<exists>lo hi. windowKey lo hi = request_key req t \<and> build repo lo hi = Some (Inr a)"
  shows "Inv repo req (goto t p s)"
proof -
  have f: "flying (goto t p s) u e = flying s u e" for u e
    using fly p by (auto simp: flying_def goto_def)
  have m: "mgr (goto t p s) = mgr s" "pcs (goto t p s) = (pcs s)(t := p)" by (simp_all add: goto_def)
  show ?thesis
    using inv at ret p unfolding Inv_def f m by auto
qed

lemma evict_oldest_frame:
  "contents (heap (evict_oldest m) x) = contents (heap m x) \<and> fresh (evict_oldest m) = fresh m \<and>
   submap (cache (evict_oldest m)) (cache m)"
  by (auto simp: evict_oldest_def contents_def Let_def split: option.splits)

lemma archive_start_frame:
  assumes "archive_start key lo hi m = (r, m')"
  shows "r = fresh m \<and> fresh m' = Suc r \<and> contents (heap m' r) = (key, lo, hi, None, True, None) \<and>
    (\<forall>x. x \<noteq> r \<longrightarrow> contents (heap m' x) = contents (heap m x)) \<and>
    (\<forall>k e. map_of (cache m') k = Some e \<longrightarrow> map_of (cache m) k = Some e \<or> k = key \<and> e = r)"
proof -
  let ?m0 = "m\<lparr>heap := (heap m)(fresh m := zero_entry\<lparr>e_key := key, e_from := lo, e_to := hi, e_done := True\<rparr>),
                fresh := Suc (fresh m), cache := AList.update key (fresh m) (cache m)\<rparr>"
  let ?m1 = "addToFront (fresh m) ?m0"
  have m1: "same_contents ?m1 ?m0" by (rule addToFront_contents)
  have p: "(fresh m, evict_oldest ?m1) = (r, m')" using assms by (simp only: archive_start_def Let_def)
  from p have m1': "evict_oldest ?m1 = m'" by (rule Pair_inject)
  from p have m2': "fresh m = r" by (rule Pair_inject)
  note m' = m1' m2'
  have h: "contents (heap m' x) = contents (heap ?m1 x)" "fresh m' = fresh ?m1" "submap (cache m') (cache ?m1)" for x
    using evict_oldest_frame [of ?m1] m'(1) by auto
  have c: "contents (heap m' x) = contents (heap ?m0 x)" "fresh m' = Suc (fresh m)"
    "submap (cache m') (cache ?m0)" for x
    using h m1 by (simp_all add: same_contents_def)
  show ?thesis
    using c m'(2) by (auto simp: submap_def update_conv' contents_def zero_entry_def split: if_splits)
qed

lemma archive_finish_frame:
  shows "fresh (archive_finish r key res m) = fresh m"
    "submap (cache (archive_finish r key res m)) (cache m)"
    "x \<noteq> r \<Longrightarrow> contents (heap (archive_finish r key res m) x) = contents (heap m x)"
    "contents (heap (archive_finish r key res m) r) = (e_key (heap m r), e_from (heap m r), e_to (heap m r),
       (case res of Inl _ \<Rightarrow> None | Inr a \<Rightarrow> Some a), False, (case res of Inl e \<Rightarrow> Some e | Inr _ \<Rightarrow> None))"
  by (auto simp: archive_finish_def Let_def set_entry_def contents_def split: sum.splits)

lemma invalidateLoop_frame:
  "contents (heap (invalidateLoop lo hi visit m) x) = contents (heap m x) \<and>
   fresh (invalidateLoop lo hi visit m) = fresh m \<and> submap (cache (invalidateLoop lo hi visit m)) (cache m)"
proof (induction visit arbitrary: m)
  case Nil
  then show ?case by (simp add: submap_def)
next
  case (Cons v visit)
  obtain key e where v: "v = (key, e)" by fastforce
  let ?m1 = "(remove_entry e m)\<lparr>cache := AList.delete key (cache m)\<rparr>"
  have "contents (heap ?m1 x) = contents (heap m x)" by (simp add: contents_def)
  moreover have "submap (cache ?m1) (cache m)" by (simp add: submap_delete)
  ultimately show ?case
    using Cons [of m] Cons [of ?m1] submap_trans by (auto simp: v Let_def)
qed

lemma Inv_init: "Inv repo req init_sys"
  by (simp add: Inv_def init_sys_def NewLotteryManager_def zero_entry_def flying_def holds_def)

lemma InvD:
  assumes "Inv repo req s"
  shows "e_done (heap (mgr s) e) \<Longrightarrow> e < fresh (mgr s) \<and> (\<exists>t. flying s t e)"
    and "flying s t e \<Longrightarrow> flying s u e \<Longrightarrow> t = u"
    and "flying s t e \<Longrightarrow> e < fresh (mgr s) \<and> e_done (heap (mgr s) e) \<and>
        e_key (heap (mgr s) e) = request_key req t"
    and "map_of (cache (mgr s)) k = Some e \<Longrightarrow> e < fresh (mgr s) \<and> e_key (heap (mgr s) e) = k"
    and "holds (pcs s t) e \<Longrightarrow> e < fresh (mgr s) \<and> e_key (heap (mgr s) e) = request_key req t"
    and "e_arch (heap (mgr s) e) = Some a \<Longrightarrow>
        \<exists>lo hi. windowKey lo hi = e_key (heap (mgr s) e) \<and> build repo lo hi = Some (Inr a)"
    and "pcs s t = Built e res \<Longrightarrow> \<exists>lo hi. windowKey lo hi = request_key req t \<and> build repo lo hi = Some res"
    and "pcs s t = Returned (Inr (Some a)) \<Longrightarrow>
        \<exists>lo hi. windowKey lo hi = request_key req t \<and> build repo lo hi = Some (Inr a)"
  using assms unfolding Inv_def by blast+

lemma not_flying: "pcs s t = p \<Longrightarrow> (\<And>e. p \<noteq> Loading e) \<Longrightarrow> (\<And>e r. p \<noteq> Built e r) \<Longrightarrow> \<not> flying s t e"
  by (auto simp: flying_def)

lemma Inv_lookup:
  assumes inv: "Inv repo req s" and s: "do_lookup req t s = Some s'"
  shows "Inv repo req s'"
proof -
  obtain lo hi where w: "(case req t of (f, u) \<Rightarrow> normalizeWindow f u) = (lo, hi)" by fastforce
  have key: "request_key req t = windowKey lo hi"
    using w by (simp add: request_key_def split: prod.splits)
  have st: "pcs s t = Start" using s by (simp add: do_lookup_def split: pc.splits)
  have nf: "\<not> flying s t e" for e using st by (auto simp: flying_def)
  show ?thesis
  proof (cases "map_of (cache (mgr s)) (windowKey lo hi)")
    case (Some e)
    have "s' = goto t (Found e) s" using s st w Some by (auto simp: do_lookup_def Let_def split: prod.splits)
    moreover have "e < fresh (mgr s) \<and> e_key (heap (mgr s) e) = request_key req t"
      using inv Some key unfolding Inv_def by metis
    ultimately show ?thesis using nf by (auto intro!: Inv_goto [OF inv] simp: holds_def)
  next
    case None
    obtain e m where a: "archive_start (windowKey lo hi) lo hi (mgr s) = (e, m)" by fastforce
    have s': "s' = goto t (Loading e) (s\<lparr>mgr := m\<rparr>)"
      using s st w None a by (auto simp: do_lookup_def Let_def split: prod.splits)
    note f = archive_start_frame [OF a]
    have e: "e = fresh (mgr s)" "fresh m = Suc e" "e_done (heap m e)" "e_key (heap m e) = request_key req t"
      "e_arch (heap m e) = None"
      using f key by (auto simp: contents_def)
    have o: "e_done (heap m x) = e_done (heap (mgr s) x)" "e_key (heap m x) = e_key (heap (mgr s) x)"
      "e_arch (heap m x) = e_arch (heap (mgr s) x)" if "x \<noteq> e" for x
      using f that by (auto simp: contents_def)
    have old: "flying s u x \<Longrightarrow> x < e \<and> x \<noteq> e" for u x using InvD(3) [OF inv] e(1) by fastforce
    have c: "x < Suc e \<and> e_key (heap m x) = k" if "map_of (cache m) k = Some x" for k x
    proof -
      consider "map_of (cache (mgr s)) k = Some x" | "k = windowKey lo hi" "x = e" using f \<open>map_of (cache m) k = Some x\<close> by blast
      then show ?thesis
      proof cases
        case 1
        then have "x < e" "e_key (heap (mgr s) x) = k" using InvD(4) [OF inv] e(1) by auto
        then show ?thesis using o [of x] by auto
      next
        case 2
        then show ?thesis using e(4) key by simp
      qed
    qed
    have fl: "flying s' u x \<longleftrightarrow> flying s u x \<or> u = t \<and> x = e" for u x
      using nf by (auto simp: s' flying_def goto_def)
    have m: "mgr s' = m" "pcs s' = (pcs s)(t := Loading e)" by (simp_all add: s' goto_def)
    have h: "holds (pcs s u) x \<Longrightarrow> x < e \<and> x \<noteq> e \<and> e_key (heap (mgr s) x) = request_key req u" for u x
      using InvD(5) [OF inv] e(1) by fastforce
    show ?thesis
      unfolding Inv_def m fl
    proof (intro conjI allI impI)
      fix x assume x: "e_done (heap m x)"
      then show "x < fresh m" "\<exists>u. flying s u x \<or> u = t \<and> x = e"
        using InvD(1) [OF inv, of x] e o [of x] by (cases "x = e"; auto)+
    next
      fix u v x assume "flying s u x \<or> u = t \<and> x = e" "flying s v x \<or> v = t \<and> x = e"
      then show "u = v" using InvD(2) [OF inv] old by blast
    next
      fix u x assume x: "flying s u x \<or> u = t \<and> x = e"
      then show "x < fresh m" "e_done (heap m x)" "e_key (heap m x) = request_key req u"
        using InvD(3) [OF inv, of u x] e o [of x] old [of u x] by (cases "x = e"; auto)+
    next
      fix k x assume "map_of (cache m) k = Some x"
      then show "x < fresh m" "e_key (heap m x) = k" using c e(2) by auto
    next
      fix u x assume "holds (((pcs s)(t := Loading e)) u) x"
      then have "holds (pcs s u) x" by (auto simp: holds_def split: if_splits)
      then show "x < fresh m" "e_key (heap m x) = request_key req u"
        using h [of u x] e(2) o [of x] by auto
    next
      fix x a assume "e_arch (heap m x) = Some a"
      then show "\<exists>lo hi. windowKey lo hi = e_key (heap m x) \<and> build repo lo hi = Some (Inr a)"
        using InvD(6) [OF inv, of x a] e(5) o [of x] by (cases "x = e") auto
    next
      fix u x res assume "((pcs s)(t := Loading e)) u = Built x res"
      then show "\<exists>lo hi. windowKey lo hi = request_key req u \<and> build repo lo hi = Some res"
        using InvD(7) [OF inv, of u x res] by (auto split: if_splits)
    next
      fix u a assume "((pcs s)(t := Loading e)) u = Returned (Inr (Some a))"
      then show "\<exists>lo hi. windowKey lo hi = request_key req u \<and> build repo lo hi = Some (Inr a)"
        using InvD(8) [OF inv, of u a] by (auto split: if_splits)
    qed
  qed
qed

lemma Inv_read_done:
  assumes inv: "Inv repo req s" and s: "do_read_done t s = Some s'"
  shows "Inv repo req s'"
proof -
  obtain e where e: "pcs s t = Found e" using s by (auto simp: do_read_done_def split: pc.splits)
  have "s' = goto t (if e_done (heap (mgr s) e) then Selecting e else Touching e) s"
    using s e by (simp add: do_read_done_def)
  then show ?thesis
    using InvD(5) [OF inv, of t e] e by (auto intro!: Inv_goto [OF inv] simp: flying_def holds_def split: if_splits)
qed

lemma Inv_select:
  assumes inv: "Inv repo req s" and s: "do_select t s = Some s'"
  shows "Inv repo req s'"
proof -
  obtain e where e: "pcs s t = Selecting e" using s by (auto simp: do_select_def split: pc.splits)
  have "s' = goto t (if e_done (heap (mgr s) e) then Blocked e else NilWait e) s"
    using s e by (simp add: do_select_def)
  then show ?thesis
    using InvD(5) [OF inv, of t e] e by (auto intro!: Inv_goto [OF inv] simp: flying_def holds_def split: if_splits)
qed

lemma Inv_wake:
  assumes inv: "Inv repo req s" and s: "do_wake t s = Some s'"
  shows "Inv repo req s'"
proof -
  obtain e where e: "pcs s t = Blocked e" using s by (auto simp: do_wake_def split: pc.splits)
  have "s' = goto t (case e_err (heap (mgr s) e) of Some err \<Rightarrow> Returned (Inl err) | None \<Rightarrow> Touching e) s"
    using s e by (simp add: do_wake_def split: if_splits)
  then show ?thesis
    using InvD(5) [OF inv, of t e] e
    by (auto intro!: Inv_goto [OF inv] simp: flying_def holds_def split: option.splits)
qed

lemma Inv_cancel:
  assumes inv: "Inv repo req s" and s: "do_cancel t s = Some s'"
  shows "Inv repo req s'"
  using s by (auto simp: do_cancel_def flying_def holds_def intro!: Inv_goto [OF inv] split: pc.splits)

lemma Inv_touch:
  assumes inv: "Inv repo req s" and s: "do_touch t s = Some s'"
  shows "Inv repo req s'"
proof -
  obtain e where e: "pcs s t = Touching e" using s by (auto simp: do_touch_def split: pc.splits)
  let ?s1 = "s\<lparr>mgr := moveToFront e (mgr s)\<rparr>"
  have s': "s' = goto t (Returned (Inr (e_arch (heap (mgr s) e)))) ?s1"
    using s e by (simp add: do_touch_def Let_def)
  have i1: "Inv repo req ?s1"
    using moveToFront_contents [of e "mgr s"] by (intro Inv_frame [OF inv]) (auto simp: same_contents_def)
  show ?thesis
    unfolding s'
  proof (rule Inv_goto [OF i1])
    fix a assume "Returned (Inr (e_arch (heap (mgr s) e))) = Returned (Inr (Some a))"
    then have "e_arch (heap (mgr s) e) = Some a" by simp
    from InvD(6) [OF inv this] InvD(5) [OF inv, of t e] e
    show "\<exists>lo hi. windowKey lo hi = request_key req t \<and> build repo lo hi = Some (Inr a)"
      by (simp add: holds_def)
  qed (use e in \<open>auto simp: flying_def holds_def\<close>)
qed

lemma Inv_load:
  assumes inv: "Inv repo req s" and s: "do_load repo req t s = Some s'"
  shows "Inv repo req s'"
proof -
  obtain lo hi where w: "(case req t of (f, u) \<Rightarrow> normalizeWindow f u) = (lo, hi)" by fastforce
  have key: "request_key req t = windowKey lo hi"
    using w by (simp add: request_key_def split: prod.splits)
  obtain e where e: "pcs s t = Loading e" using s by (auto simp: do_load_def split: pc.splits)
  obtain res where res: "build repo lo hi = Some res" "s' = goto t (Built e res) s"
    using s e w by (auto simp: do_load_def split: prod.splits)
  have fl: "flying s' u x = flying s u x" for u x using e by (auto simp: res(2) flying_def goto_def)
  have m: "mgr s' = mgr s" "pcs s' = (pcs s)(t := Built e res)" by (simp_all add: res(2) goto_def)
  have "\<exists>lo hi. windowKey lo hi = request_key req t \<and> build repo lo hi = Some res" using res(1) key by metis
  then show ?thesis
    using inv unfolding Inv_def fl m by (auto simp: holds_def)
qed

lemma Inv_finish:
  assumes inv: "Inv repo req s" and s: "do_finish req t s = Some s'"
  shows "Inv repo req s'"
proof -
  obtain e res where e: "pcs s t = Built e res" using s by (auto simp: do_finish_def split: pc.splits)
  let ?m = "archive_finish e (request_key req t) res (mgr s)"
  let ?p = "Returned (case res of Inl err \<Rightarrow> Inl err | Inr a \<Rightarrow> Inr (Some a))"
  have s': "mgr s' = ?m" "pcs s' = (pcs s)(t := ?p)" using s e by (auto simp: do_finish_def goto_def)
  have fe: "flying s t e" using e by (simp add: flying_def)
  have fl: "flying s' u x \<longleftrightarrow> u \<noteq> t \<and> flying s u x" for u x by (auto simp: s'(2) flying_def)
  have only: "u = t" if "flying s u e" for u using InvD(2) [OF inv that fe] .
  have ent: "e_done (heap ?m x) = (x \<noteq> e \<and> e_done (heap (mgr s) x))" "e_key (heap ?m x) = e_key (heap (mgr s) x)"
    "e_arch (heap ?m x) = (if x = e then (case res of Inl _ \<Rightarrow> None | Inr a \<Rightarrow> Some a) else e_arch (heap (mgr s) x))"
    for x
    using archive_finish_frame(3) [of x e "request_key req t" res "mgr s"]
      archive_finish_frame(4) [of e "request_key req t" res "mgr s"]
    by (cases "x = e"; simp add: contents_def)+
  have fresh: "fresh ?m = fresh (mgr s)" by (rule archive_finish_frame)
  have sub: "map_of (cache (mgr s)) k = Some x" if "map_of (cache ?m) k = Some x" for k x
    using that archive_finish_frame(2) [of e "request_key req t" res "mgr s"] by (simp add: submap_def)
  have built: "\<exists>lo hi. windowKey lo hi = request_key req t \<and> build repo lo hi = Some res"
    by (rule InvD(7) [OF inv e])
  have key: "e_key (heap (mgr s) e) = request_key req t" using InvD(3) [OF inv fe] by blast
  show ?thesis
    unfolding Inv_def s' fl fresh ent
  proof (intro conjI allI impI)
    fix x assume "x \<noteq> e \<and> e_done (heap (mgr s) x)"
    then obtain u where u: "x < fresh (mgr s)" "flying s u x" using InvD(1) [OF inv, of x] by blast
    moreover have "u \<noteq> t" using u(2) e \<open>x \<noteq> e \<and> _\<close> by (auto simp: flying_def)
    ultimately show "x < fresh (mgr s)" "\<exists>u. u \<noteq> t \<and> flying s u x" by blast+
  next
    fix u v x assume "u \<noteq> t \<and> flying s u x" "v \<noteq> t \<and> flying s v x"
    then show "u = v" using InvD(2) [OF inv] by blast
  next
    fix u x assume ux: "u \<noteq> t \<and> flying s u x"
    then show "x < fresh (mgr s)" "e_done (heap (mgr s) x)" "e_key (heap (mgr s) x) = request_key req u"
      using InvD(3) [OF inv] by blast+
    show "x \<noteq> e" using ux only by blast
  next
    fix k x assume "map_of (cache ?m) k = Some x"
    then show "x < fresh (mgr s)" "e_key (heap (mgr s) x) = k" using InvD(4) [OF inv sub] by auto
  next
    fix u x assume "holds (((pcs s)(t := ?p)) u) x"
    then have "holds (pcs s u) x" by (auto simp: holds_def split: if_splits)
    then show "x < fresh (mgr s)" "e_key (heap (mgr s) x) = request_key req u"
      using InvD(5) [OF inv] by blast+
  next
    fix x a assume "(if x = e then (case res of Inl _ \<Rightarrow> None | Inr a \<Rightarrow> Some a) else e_arch (heap (mgr s) x)) = Some a"
    then show "\<exists>lo hi. windowKey lo hi = e_key (heap (mgr s) x) \<and> build repo lo hi = Some (Inr a)"
      using built key InvD(6) [OF inv, of x a] by (auto split: if_splits sum.splits)
  next
    fix u x r assume "((pcs s)(t := ?p)) u = Built x r"
    then show "\<exists>lo hi. windowKey lo hi = request_key req u \<and> build repo lo hi = Some r"
      using InvD(7) [OF inv, of u x r] by (auto split: if_splits)
  next
    fix u a assume "((pcs s)(t := ?p)) u = Returned (Inr (Some a))"
    then show "\<exists>lo hi. windowKey lo hi = request_key req u \<and> build repo lo hi = Some (Inr a)"
      using InvD(8) [OF inv, of u a] built by (auto split: if_splits sum.splits)
  qed
qed

lemma Inv_invalidate:
  assumes inv: "Inv repo req s"
  shows "Inv repo req (s\<lparr>mgr := InvalidateRange lo hi visit (mgr s)\<rparr>)"
    and "Inv repo req (s\<lparr>mgr := InvalidateAll (mgr s)\<rparr>)"
  using invalidateLoop_frame [of lo hi visit "mgr s"]
  by (auto intro!: Inv_frame [OF inv] simp: InvalidateRange_def InvalidateAll_def submap_def)

lemma Inv_perform: "Inv repo req s \<Longrightarrow> perform repo req a s = Some s' \<Longrightarrow> Inv repo req s'"
  by (cases a) (auto intro: Inv_lookup Inv_read_done Inv_select Inv_wake Inv_cancel Inv_touch Inv_load
      Inv_finish Inv_invalidate split: if_splits)

interpretation concurrent: kept_invariant "perform repo req" "\<lambda>s. s = init_sys" "Inv repo req"
  for repo :: "range_query option" and req :: requests
  by unfold_locales (auto intro: Inv_init Inv_perform)

subsection \<open>Properties\<close>

text \<open>Requests for windows of their own: caller \<open>t\<close> asks for one day.\<close>

definition own_window :: requests where
  "own_window t = ((int t + 1) * ns_day, (int t + 1) * ns_day)"

definition pair_windows :: requests where
  "pair_windows t = own_window (t div 2)"

definition same_window :: requests where
  "same_window t = (ns_day, ns_day)"

definition no_draws :: range_query where
  "no_draws from to = Inr []"

definition failing :: range_query where
  "failing from to = Inl ''connection refused''"

text \<open>C16: In every reachable state each entry in flight is being loaded by exactly one caller, whatever
  hits, cancellations and invalidations happened in between.\<close>

theorem single_flight:
  assumes "reachable repo req s" and "e_done (heap (mgr s) e)"
  shows "\<exists>!t. flying s t e"
  using InvD(1,2) [OF concurrent.reached [OF assms(1)]] assms(2) by metis

lemma one_lookup:
  obtains s where "performs None same_window [Lookup 0] init_sys = Some s"
    "pcs s 0 = Loading 0" "e_done (heap (mgr s) 0)"
proof -
  have "case performs None same_window [Lookup 0] init_sys of
      None \<Rightarrow> False | Some s \<Rightarrow> pcs s 0 = Loading 0 \<and> e_done (heap (mgr s) 0)"
    by code_simp
  then show thesis using that by (auto split: option.splits)
qed

theorem single_flight_witness:
  "\<exists>s. reachable None same_window s \<and> e_done (heap (mgr s) 0) \<and> (\<exists>!t. flying s t 0)"
proof -
  obtain s where s: "performs None same_window [Lookup 0] init_sys = Some s" "e_done (heap (mgr s) 0)"
    using one_lookup by blast
  have "reachable None same_window s" using performs_reachable [OF s(1)] .
  then show ?thesis using single_flight [OF _ s(2)] s(2) by blast
qed



text \<open>an archive returned to a caller was built, from the repository's draws, for a window with the
  key of the caller's own window.\<close>

theorem returned_archive:
  assumes "reachable repo req s" and "pcs s t = Returned (Inr (Some a))"
  shows "\<exists>lo hi. windowKey lo hi = request_key req t \<and> build repo lo hi = Some (Inr a)"
  using InvD(8) [OF concurrent.reached [OF assms(1)] assms(2)] .

theorem returned_archive_witness:
  "\<exists>s a. reachable (Some no_draws) same_window s \<and> pcs s 0 = Returned (Inr (Some a)) \<and>
     (\<exists>lo hi. windowKey lo hi = request_key same_window 0 \<and> build (Some no_draws) lo hi = Some (Inr a))"
proof -
  have "case performs (Some no_draws) same_window [Lookup 0, Load 0, Finish 0] init_sys of
      None \<Rightarrow> False | Some s \<Rightarrow> (case pcs s 0 of Returned (Inr (Some a)) \<Rightarrow> True | _ \<Rightarrow> False)"
    by code_simp
  then obtain s a where s: "performs (Some no_draws) same_window [Lookup 0, Load 0, Finish 0] init_sys = Some s"
    "pcs s 0 = Returned (Inr (Some a))" by (auto split: option.splits pc.splits sum.splits)
  have "reachable (Some no_draws) same_window s" using performs_reachable [OF s(1)] .
  then show ?thesis using returned_archive [OF _ s(2)] s(2) by blast
qed

text \<open>C38: A caller that finds an entry just before its load fails reads a nil \<open>done\<close>, skips the error
  check and is answered with a nil archive and no error; the failed entry is put back into the list,
  which then no longer agrees with the (empty) map.\<close>

theorem nil_archive_reachable:
  "\<exists>s. reachable (Some failing) same_window s \<and> pcs s 1 = Returned (Inr None) \<and>
     cache (mgr s) = [] \<and> m_head (mgr s) = Some 0"
proof -
  let ?as = "[Lookup 0, Lookup 1, Load 0, Finish 0, ReadDone 1, Touch 1]"
  have "case performs (Some failing) same_window ?as init_sys of
      None \<Rightarrow> False
    | Some s \<Rightarrow> (case pcs s 1 of Returned (Inr None) \<Rightarrow> True | _ \<Rightarrow> False) \<and>
        cache (mgr s) = [] \<and> m_head (mgr s) = Some 0"
    by code_simp
  then obtain s where s: "performs (Some failing) same_window ?as init_sys = Some s"
    "pcs s 1 = Returned (Inr None)" "cache (mgr s) = []" "m_head (mgr s) = Some 0"
    by (auto split: option.splits pc.splits sum.splits)
  then show ?thesis using performs_reachable [OF s(1)] by blast
qed

text \<open>No step other than its own cancellation moves the caller.\<close>

definition stays_until_cancel :: "range_query option \<Rightarrow> requests \<Rightarrow> nat \<Rightarrow> sys \<Rightarrow> bool" where
  "stays_until_cancel repo req t s \<longleftrightarrow>
     (\<forall>a s'. perform repo req a s = Some s' \<longrightarrow> a \<noteq> Cancel t \<longrightarrow> pcs s' t = pcs s t)"

text \<open>a caller whose second read of \<open>e.done\<close> comes after the loader has set it to nil waits on a nil
  channel although its entry is loaded: only the end of its own context moves it.\<close>

theorem nil_channel_reachable:
  "\<exists>s. reachable (Some no_draws) same_window s \<and> pcs s 1 = NilWait 0 \<and> \<not> e_done (heap (mgr s) 0) \<and>
     stays_until_cancel (Some no_draws) same_window 1 s"
proof -
  let ?as = "[Lookup 0, Lookup 1, ReadDone 1, Load 0, Finish 0, Select 1]"
  have "case performs (Some no_draws) same_window ?as init_sys of
      None \<Rightarrow> False | Some s \<Rightarrow> pcs s 1 = NilWait 0 \<and> \<not> e_done (heap (mgr s) 0)"
    by code_simp
  then obtain s where s: "performs (Some no_draws) same_window ?as init_sys = Some s"
    "pcs s 1 = NilWait 0" "\<not> e_done (heap (mgr s) 0)" by (auto split: option.splits)
  have "pcs s' 1 = NilWait 0"
    if "perform (Some no_draws) same_window a s = Some s'" "a \<noteq> Cancel 1" for a s'
    using that s(2)
    by (cases a) (auto simp: do_lookup_def do_read_done_def do_select_def do_wake_def do_cancel_def
        do_touch_def do_load_def do_finish_def goto_def Let_def split: pc.splits if_splits option.splits prod.splits)
  then show ?thesis
    using performs_reachable [OF s(1)] s unfolding stays_until_cancel_def by metis
qed

text \<open>a caller that touches an entry after it was dropped makes it the whole recency list; the entry of
  another window, cached in the meantime, stays in the map but has left the list, so that it can no
  longer be evicted.\<close>

theorem lost_entry_reachable:
  "\<exists>s. reachable (Some failing) pair_windows s \<and> lru_list (mgr s) [0] \<and>
     map snd (cache (mgr s)) = [1]"
proof -
  let ?as = "[Lookup 0, Lookup 1, Load 0, Finish 0, ReadDone 1, Lookup 2]"
  have "case performs (Some failing) pair_windows ?as init_sys of
      None \<Rightarrow> False
    | Some s \<Rightarrow> pcs s 1 = Touching 0 \<and> m_head (mgr s) = Some 1 \<and> e_prev (heap (mgr s) 0) = None \<and>
        e_next (heap (mgr s) 0) = None \<and> map snd (cache (mgr s)) = [1]"
    by code_simp
  then obtain s where s: "performs (Some failing) pair_windows ?as init_sys = Some s"
    "pcs s 1 = Touching 0" "m_head (mgr s) = Some 1" "e_prev (heap (mgr s) 0) = None"
    "e_next (heap (mgr s) 0) = None" "map snd (cache (mgr s)) = [1]" by (auto split: option.splits)
  let ?s = "goto 1 (Returned (Inr (e_arch (heap (mgr s) 0)))) (s\<lparr>mgr := moveToFront 0 (mgr s)\<rparr>)"
  have "perform (Some failing) pair_windows (Touch 1) s = Some ?s"
    using s(2) by (simp add: do_touch_def Let_def)
  then have "reachable (Some failing) pair_windows ?s"
    using performs_reachable [OF s(1)] by (rule next_step [rotated])
  moreover have "lru_list (moveToFront 0 (mgr s)) [0]"
    using s by (intro moveToFront_detached) auto
  ultimately show ?thesis using s(6) by (intro exI [of _ ?s]) (simp add: goto_def)
qed

text \<open>entries in flight are never evicted, so nine concurrent misses leave nine entries resident, one
  more than \<open>maxCacheEntries\<close>.\<close>

theorem cache_overflow_reachable:
  "\<exists>s. reachable (Some no_draws) own_window s \<and> CacheSize (mgr s) = 9"
proof -
  let ?as = "map Lookup [0..<9]"
  have "case performs (Some no_draws) own_window ?as init_sys of
      None \<Rightarrow> False | Some s \<Rightarrow> CacheSize (mgr s) = 9"
    by code_simp
  then obtain s where s: "performs (Some no_draws) own_window ?as init_sys = Some s" "CacheSize (mgr s) = 9"
    by (auto simp del: upt_rec_numeral split: option.splits)
  then show ?thesis using performs_reachable [OF s(1)] by blast
qed

end
