(* ===== verification/Cache_Freshness.thy ===== *)
theory Cache_Freshness
  imports Runner Manager_Concurrent
begin

section \<open>Concurrent callers over a changing table\<close>

text \<open>
  The callers of \<open>Manager_Concurrent\<close> interleaved with the writes of the scrape runs: every SQL transaction
  (\<open>InsertNewDraws\<close>) and statement (\<open>UpdatePrizeAmounts\<close>) is an event of its own, loads read the table of their
  moment, and invalidations come later. \<open>pending\<close> is a ghost: the dates written but not yet invalidated.

  The invariant is that a resident archive whose window meets no pending date is the archive of the current table;
  an entry that was being loaded during a write is never an exception, because it is in the map while it is in flight.
  \<open>answers_current\<close> draws the conclusion for a caller.
\<close>

record site =
  s_db :: database
  s_sys :: sys
  pending :: "(time \<times> time) list"

datatype event =
    Caller action
  | LoadFails nat error
  | InsertDraws "LotteryResult list"
  | SetPrizes int "f64 list"

definition rows_query :: "database \<Rightarrow> range_query option" where
  "rows_query db = Some (\<lambda>lo hi. Inr (select_range lo hi (rows db)))"

text \<open>Every window that overlaps \<open>x\<close> overlaps \<open>w\<close>.\<close>

definition inside :: "time \<times> time \<Rightarrow> time \<times> time \<Rightarrow> bool" where
  "inside x w \<longleftrightarrow> (IsZero (fst w) \<or> \<not> IsZero (fst x) \<and> fst w \<le> fst x) \<and>
     (IsZero (snd w) \<or> \<not> IsZero (snd x) \<and> snd x \<le> snd w)"

fun still_pending :: "action \<Rightarrow> (time \<times> time) list \<Rightarrow> (time \<times> time) list" where
  "still_pending (InvRange lo hi visit) xs = filter (\<lambda>x. \<not> inside x (lo, hi)) xs"
| "still_pending InvAll xs = []"
| "still_pending _ xs = xs"

fun happens :: "requests \<Rightarrow> event \<Rightarrow> site \<Rightarrow> site option" where
  "happens req (Caller a) s =
     map_option (\<lambda>y. s\<lparr>s_sys := y, pending := still_pending a (pending s)\<rparr>)
       (perform (rows_query (s_db s)) req a (s_sys s))"
| "happens req (LoadFails t err) s =
     map_option (\<lambda>y. s\<lparr>s_sys := y\<rparr>) (do_load (Some (\<lambda>_ _. Inl err)) req t (s_sys s))"
| "happens req (InsertDraws ds) s =
     (if dated ds then
        (case InsertNewDraws ds (s_db s) of
           (Inl err, db) \<Rightarrow> Some (s\<lparr>s_db := db\<rparr>)
         | (Inr (n, w), db) \<Rightarrow> Some (s\<lparr>s_db := db, pending := (if 0 < n then w # pending s else pending s)\<rparr>))
      else None)"
| "happens req (SetPrizes n ps) s =
     (case UpdatePrizeAmounts n ps (s_db s) of
        (Inl err, db) \<Rightarrow> Some (s\<lparr>s_db := db\<rparr>)
      | (Inr d, db) \<Rightarrow> Some (s\<lparr>s_db := db, pending := (d, d) # pending s\<rparr>))"

definition first_site :: "database \<Rightarrow> site" where
  "first_site db = \<lparr>s_db = db, s_sys = init_sys, pending = []\<rparr>"

abbreviation site_reachable :: "requests \<Rightarrow> site \<Rightarrow> bool" where
  "site_reachable req \<equiv> reaches (\<lambda>s. \<exists>db. table_ok db \<and> s = first_site db) (happens req)"

text \<open>The events between two writes.\<close>

fun writes :: "event \<Rightarrow> bool" where
  "writes (InsertDraws ds) = True"
| "writes (SetPrizes n ps) = True"
| "writes _ = False"

definition between_writes :: "requests \<Rightarrow> event \<Rightarrow> site \<Rightarrow> site option" where
  "between_writes req ev s = (if writes ev then None else happens req ev s)"

subsection \<open>What a caller's step keeps\<close>

definition current :: "database \<Rightarrow> cacheEntry \<Rightarrow> LotteryArchive \<Rightarrow> bool" where
  "current db e a \<longleftrightarrow>
     NewLotteryArchive Lottery (e_from e) (e_to e) (select_range (e_from e) (e_to e) (rows db)) = Some a"

text \<open>What the entry holds or is about to hold is the archive of the table.\<close>

definition sound :: "database \<Rightarrow> sys \<Rightarrow> nat \<Rightarrow> bool" where
  "sound db y e \<longleftrightarrow> (\<forall>a. e_arch (heap (mgr y) e) = Some a \<longrightarrow> current db (heap (mgr y) e) a) \<and>
     (\<forall>t a. pcs y t = Built e (Inr a) \<longrightarrow> current db (heap (mgr y) e) a)"

definition placed :: "requests \<Rightarrow> sys \<Rightarrow> bool" where
  "placed req y \<longleftrightarrow>
     (\<forall>t e. flying y t e \<longrightarrow> e < fresh (mgr y) \<and>
        case_prod normalizeWindow (req t) = (e_from (heap (mgr y) e), e_to (heap (mgr y) e))) \<and>
     (\<forall>k e. map_of (cache (mgr y)) k = Some e \<longrightarrow> e < fresh (mgr y) \<and>
        windowKey (e_from (heap (mgr y) e)) (e_to (heap (mgr y) e)) = k) \<and>
     (\<forall>t e. holds (pcs y t) e \<longrightarrow> e < fresh (mgr y) \<and>
        windowKey (e_from (heap (mgr y) e)) (e_to (heap (mgr y) e)) = request_key req t)"

lemma placedD:
  assumes "placed req y"
  shows "flying y t e \<Longrightarrow> e < fresh (mgr y) \<and>
      case_prod normalizeWindow (req t) = (e_from (heap (mgr y) e), e_to (heap (mgr y) e))"
    and "map_of (cache (mgr y)) k = Some e \<Longrightarrow> e < fresh (mgr y) \<and>
      windowKey (e_from (heap (mgr y) e)) (e_to (heap (mgr y) e)) = k"
    and "holds (pcs y t) e \<Longrightarrow> e < fresh (mgr y) \<and>
      windowKey (e_from (heap (mgr y) e)) (e_to (heap (mgr y) e)) = request_key req t"
  using assms unfolding placed_def by blast+

definition keeps :: "database \<Rightarrow> sys \<Rightarrow> sys \<Rightarrow> bool" where
  "keeps db y y' \<longleftrightarrow> fresh (mgr y) \<le> fresh (mgr y') \<and>
     (\<forall>e < fresh (mgr y). e_from (heap (mgr y') e) = e_from (heap (mgr y) e) \<and>
        e_to (heap (mgr y') e) = e_to (heap (mgr y) e) \<and> (sound db y e \<longrightarrow> sound db y' e)) \<and>
     (\<forall>k e. map_of (cache (mgr y')) k = Some e \<longrightarrow>
        map_of (cache (mgr y)) k = Some e \<or> sound db y' e)"

text \<open>Steps that leave the entries as they are.\<close>

lemma still_frame:
  assumes "placed req y" and "\<forall>e. contents (heap (mgr y') e) = contents (heap (mgr y) e)"
    and "fresh (mgr y') = fresh (mgr y)" and "submap (cache (mgr y')) (cache (mgr y))"
    and "\<And>u. pcs y' u = pcs y u \<or> (\<exists>e. holds (pcs y u) e \<and> holds (pcs y' u) e) \<or> (\<exists>r. pcs y' u = Returned r) \<or>
      (\<exists>e. pcs y' u = Found e \<and> map_of (cache (mgr y)) (request_key req u) = Some e)"
  shows "placed req y' \<and> keeps db y y'"
proof -
  have same: "e_from (heap (mgr y') e) = e_from (heap (mgr y) e)" "e_to (heap (mgr y') e) = e_to (heap (mgr y) e)"
    "e_arch (heap (mgr y') e) = e_arch (heap (mgr y) e)" for e
    using assms(2) by (auto simp: contents_def)
  have fly: "flying y u e" if "flying y' u e" for u e
    using assms(5) [of u] that unfolding flying_def holds_def by (elim disjE exE) auto
  have built: "pcs y u = Built e r" if "pcs y' u = Built e r" for u e r
    using assms(5) [of u] that by (auto simp: holds_def)
  have held: "e < fresh (mgr y) \<and>
      windowKey (e_from (heap (mgr y) e)) (e_to (heap (mgr y) e)) = request_key req u" if h: "holds (pcs y' u) e" for u e
  proof -
    have "holds (pcs y u) e \<or> map_of (cache (mgr y)) (request_key req u) = Some e"
      using assms(5) [of u] h by (auto simp: holds_def)
    then show ?thesis using placedD(2,3) [OF assms(1)] by blast
  qed
  have sub: "map_of (cache (mgr y)) k = Some e" if "map_of (cache (mgr y')) k = Some e" for k e
    using that assms(4) by (simp add: submap_def)
  have "placed req y'"
    unfolding placed_def same assms(3)
    using fly held sub placedD(1,2) [OF assms(1)] by blast
  moreover have "sound db y e \<Longrightarrow> sound db y' e" for e
    unfolding sound_def current_def same using built by blast
  ultimately show ?thesis using sub by (auto simp: keeps_def same assms(3))
qed

lemma miss_keeps:
  assumes pl: "placed req y" and st: "pcs y t = Start"
    and w: "case_prod normalizeWindow (req t) = (lo, hi)"
    and a: "archive_start (windowKey lo hi) lo hi (mgr y) = (e, m)"
  shows "placed req (goto t (Loading e) (y\<lparr>mgr := m\<rparr>)) \<and> keeps db y (goto t (Loading e) (y\<lparr>mgr := m\<rparr>)) \<and>
    sound db (goto t (Loading e) (y\<lparr>mgr := m\<rparr>)) e"
proof -
  let ?y = "goto t (Loading e) (y\<lparr>mgr := m\<rparr>)"
  note f = archive_start_frame [OF a]
  have new: "e = fresh (mgr y)" "fresh m = Suc e" "e_from (heap m e) = lo" "e_to (heap m e) = hi" "e_arch (heap m e) = None"
    using f by (auto simp: contents_def)
  have old: "e_from (heap m x) = e_from (heap (mgr y) x)" "e_to (heap m x) = e_to (heap (mgr y) x)"
    "e_arch (heap m x) = e_arch (heap (mgr y) x)" if "x < e" for x
    using f that by (auto simp: contents_def)
  have m: "mgr ?y = m" "pcs ?y = (pcs y)(t := Loading e)" by (simp_all add: goto_def)
  have fly: "flying ?y u x \<longleftrightarrow> flying y u x \<or> u = t \<and> x = e" for u x
    using st by (auto simp: flying_def m)
  have held: "holds (pcs ?y u) x \<Longrightarrow> holds (pcs y u) x" for u x
    by (auto simp: m holds_def split: if_splits)
  have map: "map_of (cache (mgr y)) k = Some x \<or> k = windowKey lo hi \<and> x = e" if "map_of (cache m) k = Some x" for k x
    using f that by blast
  have "\<not> flying y u e" for u using placedD(1) [OF pl, of u e] new(1) by auto
  then have sound_e: "sound db ?y e"
    unfolding sound_def m using new(5) by (auto simp: flying_def)
  have "placed req ?y"
    unfolding placed_def fly m(1)
  proof (intro conjI allI impI)
    fix u x assume "flying y u x \<or> u = t \<and> x = e"
    then show "x < fresh m" "case_prod normalizeWindow (req u) = (e_from (heap m x), e_to (heap m x))"
      using placedD(1) [OF pl, of u x] w new old [of x] by auto
  next
    fix k x assume "map_of (cache m) k = Some x"
    from map [OF this] show "x < fresh m" "windowKey (e_from (heap m x)) (e_to (heap m x)) = k"
      using placedD(2) [OF pl, of k x] new old [of x] by auto
  next
    fix u x assume "holds (pcs ?y u) x"
    from placedD(3) [OF pl held [OF this]]
    show "x < fresh m" "windowKey (e_from (heap m x)) (e_to (heap m x)) = request_key req u"
      using new old [of x] by auto
  qed
  moreover have stays: "sound db ?y x" if "sound db y x" "x < e" for x
    using that old [of x] unfolding sound_def current_def m by (auto split: if_splits)
  moreover have "keeps db y ?y"
    unfolding keeps_def m(1) using stays sound_e map old new(1,2) by (metis le_SucI order_refl)
  ultimately show ?thesis using sound_e by blast
qed

lemma load_keeps:
  assumes pl: "placed req y" and y': "do_load repo req t y = Some y'"
    and repo: "repo = rows_query db \<or> repo = Some (\<lambda>_ _. Inl err)"
  shows "placed req y' \<and> keeps db y y'"
proof -
  obtain lo hi where w: "case_prod normalizeWindow (req t) = (lo, hi)" by fastforce
  obtain e res where e: "pcs y t = Loading e" "build repo lo hi = Some res" "y' = goto t (Built e res) y"
    using y' w by (auto simp: do_load_def split: pc.splits prod.splits)
  have m: "mgr y' = mgr y" "pcs y' = (pcs y)(t := Built e res)" by (simp_all add: e(3) goto_def)
  have fly: "flying y' u x = flying y u x" for u x using e(1) by (auto simp: m flying_def)
  have held: "holds (pcs y' u) x \<Longrightarrow> holds (pcs y u) x" for u x by (auto simp: m holds_def split: if_splits)
  have win: "e_from (heap (mgr y) e) = lo" "e_to (heap (mgr y) e) = hi"
    using placedD(1) [OF pl, of t e] e(1) w by (auto simp: flying_def)
  have "current db (heap (mgr y) e) a" if "res = Inr a" for a
    using e(2) that repo by (auto simp: build_def rows_query_def current_def win)
  then have "sound db y x \<Longrightarrow> sound db y' x" for x
    by (auto simp: sound_def m split: if_splits)
  moreover have "placed req y'"
    unfolding placed_def fly m(1) using placedD [OF pl] held by blast
  ultimately show ?thesis by (simp add: keeps_def m(1))
qed

lemma finish_keeps:
  assumes pl: "placed req y" and y': "do_finish req t y = Some y'"
  shows "placed req y' \<and> keeps db y y'"
proof -
  obtain e res where e: "pcs y t = Built e res" using y' by (auto simp: do_finish_def split: pc.splits)
  let ?m = "archive_finish e (request_key req t) res (mgr y)"
  let ?p = "Returned (case res of Inl err \<Rightarrow> Inl err | Inr a \<Rightarrow> Inr (Some a))"
  have m: "mgr y' = ?m" "pcs y' = (pcs y)(t := ?p)" using y' e by (auto simp: do_finish_def goto_def)
  have ent: "e_from (heap ?m x) = e_from (heap (mgr y) x)" "e_to (heap ?m x) = e_to (heap (mgr y) x)"
    "e_arch (heap ?m x) = (if x = e then (case res of Inl _ \<Rightarrow> None | Inr a \<Rightarrow> Some a) else e_arch (heap (mgr y) x))"
    for x
    using archive_finish_frame(3) [of x e "request_key req t" res "mgr y"]
      archive_finish_frame(4) [of e "request_key req t" res "mgr y"]
    by (cases "x = e"; simp add: contents_def)+
  have fr: "fresh ?m = fresh (mgr y)" by (rule archive_finish_frame)
  have sub: "map_of (cache (mgr y)) k = Some x" if "map_of (cache ?m) k = Some x" for k x
    using that archive_finish_frame(2) [of e "request_key req t" res "mgr y"] by (simp add: submap_def)
  have fly: "flying y' u x \<Longrightarrow> flying y u x" for u x by (auto simp: m flying_def split: if_splits)
  have held: "holds (pcs y' u) x \<Longrightarrow> holds (pcs y u) x" for u x by (auto simp: m holds_def split: if_splits)
  have "placed req y'"
    unfolding placed_def m(1) ent(1,2) fr using placedD [OF pl] fly held sub by blast
  moreover have "sound db y' x" if "sound db y x" for x
    using that e by (auto simp: sound_def current_def m ent split: if_splits sum.splits)
  ultimately show ?thesis using sub by (auto simp: keeps_def m(1) ent(1,2) fr)
qed

text \<open>What a step may do to a caller's program counter.\<close>

lemma caller_step:
  assumes "perform repo req a y = Some y'" and "\<And>t. a \<noteq> Load t" "\<And>t. a \<noteq> Finish t"
  shows "pcs y' u = pcs y u \<or> (\<exists>e. holds (pcs y u) e \<and> holds (pcs y' u) e) \<or>
    (\<exists>e. pcs y' u = Found e \<and> map_of (cache (mgr y)) (request_key req u) = Some e) \<or>
    (\<exists>e m lo hi. a = Lookup u \<and> y' = goto u (Loading e) (y\<lparr>mgr := m\<rparr>) \<and> pcs y u = Start \<and>
       case_prod normalizeWindow (req u) = (lo, hi) \<and> archive_start (windowKey lo hi) lo hi (mgr y) = (e, m)) \<or>
    (\<exists>err. pcs y' u = Returned (Inl err)) \<or>
    (\<exists>e. pcs y u = Touching e \<and> pcs y' u = Returned (Inr (e_arch (heap (mgr y) e))))"
  using assms
  by (cases a) (auto simp: do_lookup_def do_read_done_def do_select_def do_wake_def do_cancel_def do_touch_def
      goto_def holds_def request_key_def Let_def split: pc.splits if_splits option.splits prod.splits)

lemma manager_still:
  assumes "perform repo req a y = Some y'" and "\<And>t. a \<noteq> Lookup t" "\<And>t. a \<noteq> Finish t"
  shows "contents (heap (mgr y') e) = contents (heap (mgr y) e) \<and> fresh (mgr y') = fresh (mgr y) \<and>
    submap (cache (mgr y')) (cache (mgr y))"
proof (cases a)
  case (Touch t)
  then obtain e' where "y' = goto t (Returned (Inr (e_arch (heap (moveToFront e' (mgr y)) e')))) (y\<lparr>mgr := moveToFront e' (mgr y)\<rparr>)"
    using assms(1) by (auto simp: do_touch_def Let_def split: pc.splits)
  then show ?thesis using moveToFront_contents [of e' "mgr y"] by (simp add: goto_def same_contents_def)
next
  case (InvRange lo hi visit)
  then show ?thesis
    using assms(1) invalidateLoop_frame [of lo hi visit "mgr y" e] by (auto simp: InvalidateRange_def split: if_splits)
next
  case InvAll
  then show ?thesis using assms(1) by (auto simp: InvalidateAll_def submap_def)
qed (use assms in \<open>auto simp: do_read_done_def do_select_def do_wake_def do_cancel_def do_load_def goto_def
    split: pc.splits if_splits option.splits prod.splits\<close>)

lemma perform_keeps:
  assumes pl: "placed req y" and y': "perform (rows_query db) req a y = Some y'"
  shows "placed req y' \<and> keeps db y y'"
proof -
  consider t where "a = Load t" | t where "a = Finish t" | t where "a = Lookup t"
    | "\<And>t. a \<noteq> Load t" "\<And>t. a \<noteq> Finish t" "\<And>t. a \<noteq> Lookup t"
    by (cases a) auto
  then show ?thesis
  proof cases
    case 1
    then show ?thesis using load_keeps [OF pl _ disjI1 [OF refl]] y' by simp
  next
    case 2
    then show ?thesis using finish_keeps [OF pl] y' by simp
  next
    case (3 t)
    obtain lo hi where w: "case_prod normalizeWindow (req t) = (lo, hi)" by fastforce
    have st: "pcs y t = Start" using y' 3 by (simp add: do_lookup_def split: pc.splits)
    show ?thesis
    proof (cases "map_of (cache (mgr y)) (windowKey lo hi)")
      case (Some e)
      then have "y' = goto t (Found e) y" using y' 3 st w by (auto simp: do_lookup_def Let_def split: prod.splits)
      moreover have "request_key req t = windowKey lo hi" using w by (simp add: request_key_def split: prod.splits)
      ultimately show ?thesis using Some by (intro still_frame [OF pl]) (auto simp: goto_def)
    next
      case None
      obtain e m where a: "archive_start (windowKey lo hi) lo hi (mgr y) = (e, m)" by fastforce
      then have "y' = goto t (Loading e) (y\<lparr>mgr := m\<rparr>)"
        using y' 3 st w None by (auto simp: do_lookup_def Let_def split: prod.splits)
      then show ?thesis using miss_keeps [OF pl st w a] by blast
    qed
  next
    case 4
    note same = manager_still [OF y' 4(3,2)]
    show ?thesis
    proof (rule still_frame [OF pl])
      fix u
      show "pcs y' u = pcs y u \<or> (\<exists>e. holds (pcs y u) e \<and> holds (pcs y' u) e) \<or> (\<exists>r. pcs y' u = Returned r) \<or>
        (\<exists>e. pcs y' u = Found e \<and> map_of (cache (mgr y)) (request_key req u) = Some e)"
        using caller_step [OF y' 4(1,2), of u] 4(3) by blast
    qed (use same in blast)+
  qed
qed

subsection \<open>The invariant\<close>

definition quiet :: "(time \<times> time) list \<Rightarrow> cacheEntry \<Rightarrow> bool" where
  "quiet xs e \<longleftrightarrow> (\<forall>x \<in> set xs. \<not> rangesOverlap (e_from e) (e_to e) (fst x) (snd x))"

lemma quiet_Cons [simp]:
  "quiet (x # xs) e \<longleftrightarrow> \<not> rangesOverlap (e_from e) (e_to e) (fst x) (snd x) \<and> quiet xs e"
  by (simp add: quiet_def)

definition residents_sound :: "requests \<Rightarrow> site \<Rightarrow> bool" where
  "residents_sound req s \<longleftrightarrow> table_ok (s_db s) \<and> placed req (s_sys s) \<and>
     (\<forall>k e. map_of (cache (mgr (s_sys s))) k = Some e \<longrightarrow> quiet (pending s) (heap (mgr (s_sys s)) e) \<longrightarrow>
        sound (s_db s) (s_sys s) e)"

lemma residents_soundD:
  assumes "residents_sound req s"
  shows "table_ok (s_db s)" and "placed req (s_sys s)"
    and "map_of (cache (mgr (s_sys s))) k = Some e \<Longrightarrow> quiet (pending s) (heap (mgr (s_sys s)) e) \<Longrightarrow>
      sound (s_db s) (s_sys s) e"
  using assms unfolding residents_sound_def by blast+

lemma first_site_sound: "table_ok db \<Longrightarrow> residents_sound req (first_site db)"
  by (simp add: residents_sound_def first_site_def init_sys_def NewLotteryManager_def placed_def flying_def holds_def)

lemma inside_overlap: "inside x (lo, hi) \<Longrightarrow> rangesOverlap a b (fst x) (snd x) \<Longrightarrow> rangesOverlap a b lo hi"
  by (auto simp: inside_def rangesOverlap_def split: if_splits)

lemma invalidateLoop_drops:
  "map_of (cache (invalidateLoop lo hi visit m)) k = Some e \<Longrightarrow> (k, e) \<in> set visit \<Longrightarrow>
   \<not> rangesOverlap (e_from (heap m e)) (e_to (heap m e)) lo hi"
proof (induction visit arbitrary: m)
  case (Cons v visit)
  obtain key e' where v: "v = (key, e')" by fastforce
  let ?m1 = "(remove_entry e' m)\<lparr>cache := AList.delete key (cache m)\<rparr>"
  have h: "e_from (heap ?m1 x) = e_from (heap m x)" "e_to (heap ?m1 x) = e_to (heap m x)" for x
    using same_contentsD(2,3) [OF remove_entry_contents] by simp_all
  show ?case
  proof (cases "rangesOverlap (e_from (heap m e')) (e_to (heap m e')) lo hi")
    case True
    then have loop: "invalidateLoop lo hi (v # visit) m = invalidateLoop lo hi visit ?m1"
      using same_contentsD(7) [OF remove_entry_contents] by (simp add: v Let_def)
    then have "map_of (cache ?m1) k = Some e"
      using Cons.prems(1) invalidateLoop_frame [of lo hi visit ?m1] by (simp add: submap_def)
    then have "k \<noteq> key" by (auto simp: delete_conv')
    then have "(k, e) \<in> set visit" using Cons.prems(2) v by simp
    then show ?thesis using Cons.IH [of ?m1] Cons.prems(1) loop h by simp
  next
    case False
    then show ?thesis using Cons v by auto
  qed
qed simp

lemma caller_sound:
  assumes inv: "residents_sound req s" and y': "perform (rows_query (s_db s)) req a (s_sys s) = Some y'"
  shows "residents_sound req (s\<lparr>s_sys := y', pending := still_pending a (pending s)\<rparr>)"
proof -
  let ?y = "s_sys s"
  note pl = residents_soundD(2) [OF inv]
  have k: "placed req y'" "keeps (s_db s) ?y y'" using perform_keeps [OF pl y'] by blast+
  have before: "sound (s_db s) y' e"
    if "map_of (cache (mgr y')) k = Some e" "quiet (pending s) (heap (mgr y') e)" for k e
  proof (cases "map_of (cache (mgr ?y)) k = Some e")
    case True
    then have "e < fresh (mgr ?y)" using placedD(2) [OF pl] by blast
    moreover from this have "quiet (pending s) (heap (mgr ?y) e)" using that(2) k(2) by (simp add: keeps_def quiet_def)
    ultimately show ?thesis using residents_soundD(3) [OF inv True] k(2) unfolding keeps_def by blast
  next
    case False
    then show ?thesis using that(1) k(2) unfolding keeps_def by blast
  qed
  have "sound (s_db s) y' e"
    if e: "map_of (cache (mgr y')) k = Some e" "quiet (still_pending a (pending s)) (heap (mgr y') e)" for k e
  proof (cases a)
    case (InvRange lo hi visit)
    then have v: "mset visit = mset (cache (mgr ?y))" and m: "mgr y' = invalidateLoop lo hi visit (mgr ?y)"
      using y' by (auto simp: InvalidateRange_def split: if_splits)
    have "map_of (cache (mgr ?y)) k = Some e"
      using e(1) invalidateLoop_frame [of lo hi visit "mgr ?y"] by (simp add: m submap_def)
    then have "(k, e) \<in> set visit" using mset_eq_setD [OF v] by (auto dest: map_of_SomeD)
    then have "\<not> rangesOverlap (e_from (heap (mgr ?y) e)) (e_to (heap (mgr ?y) e)) lo hi"
      using invalidateLoop_drops e(1) m by metis
    moreover have "e_from (heap (mgr y') e) = e_from (heap (mgr ?y) e)" "e_to (heap (mgr y') e) = e_to (heap (mgr ?y) e)"
      using invalidateLoop_frame [of lo hi visit "mgr ?y" e] by (auto simp: m contents_def)
    ultimately have "quiet (pending s) (heap (mgr y') e)"
      unfolding quiet_def using e(2) inside_overlap InvRange by (fastforce simp: quiet_def)
    then show ?thesis using before e(1) by blast
  next
    case InvAll
    then show ?thesis using e(1) y' by (auto simp: InvalidateAll_def)
  qed (use before e in auto)
  then show ?thesis using residents_soundD(1) [OF inv] k(1) unfolding residents_sound_def by simp
qed

lemma current_untouched:
  assumes "untouched_outside (covered w) db db'" and "proper w"
    and "\<not> rangesOverlap (e_from e) (e_to e) (fst w) (snd w)"
  shows "current db' e = current db e"
  using select_range_untouched [OF assms(1) no_overlap_disjoint [OF assms(2,3)]] by (simp add: current_def [abs_def])

lemma write_sound:
  assumes inv: "residents_sound req s" and "table_ok db" and "proper w" and "untouched_outside (covered w) (s_db s) db"
  shows "residents_sound req (s\<lparr>s_db := db, pending := w # pending s\<rparr>)"
  using assms(2) residents_soundD(2,3) [OF inv] current_untouched [OF assms(4,3)]
  by (simp add: residents_sound_def sound_def)

lemma same_rows_sound:
  assumes "residents_sound req s" and "table_ok db" and "rows db = rows (s_db s)"
  shows "residents_sound req (s\<lparr>s_db := db\<rparr>)"
  using assms by (simp add: residents_sound_def sound_def current_def)

lemma any_point_untouched:
  assumes "untouched_outside {d} db db'"
  shows "proper (d, d) \<and> (IsZero d \<or> untouched_outside (covered (d, d)) db db')"
  using assms by (auto simp: proper_def covered_def IsZero_def)

lemma happens_sound:
  assumes inv: "residents_sound req s" and "happens req e s = Some s'"
  shows "residents_sound req s'"
proof (cases e)
  case (Caller a)
  then show ?thesis using assms caller_sound [OF inv] by auto
next
  case (LoadFails t err)
  then obtain y where y: "do_load (Some (\<lambda>_ _. Inl err)) req t (s_sys s) = Some y" "s' = s\<lparr>s_sys := y\<rparr>"
    using assms(2) by auto
  then have k: "placed req y" "keeps (s_db s) (s_sys s) y"
    using load_keeps [OF residents_soundD(2) [OF inv] y(1) disjI2] by blast+
  have "mgr y = mgr (s_sys s)" using y(1) by (auto simp: do_load_def goto_def split: pc.splits prod.splits)
  then show ?thesis
    using k residents_soundD [OF inv] by (auto simp: residents_sound_def keeps_def y(2) placed_def)
next
  case (InsertDraws ds)
  obtain res db where out: "InsertNewDraws ds (s_db s) = (res, db)" by fastforce
  have dd: "dated ds" using assms(2) InsertDraws by (simp split: if_splits)
  from InsertNewDraws_outcome [OF residents_soundD(1) [OF inv], of ds] dd out
  have o: "insert_outcome ds (s_db s) (res, db)" "table_ok db" by (simp_all add: dated_def)
  show ?thesis
  proof (cases res)
    case (Inl err)
    then show ?thesis
      using assms(2) InsertDraws dd out o same_rows_sound [OF inv o(2)] by (simp add: insert_outcome_def)
  next
    case (Inr nw)
    obtain n w where nw: "nw = (n, w)" by (cases nw)
    note eff = insert_outcome_untouched [OF o(1) [unfolded Inr nw]]
    show ?thesis
      using assms(2) InsertDraws dd out Inr nw eff(1,4) same_rows_sound [OF inv o(2)] write_sound [OF inv o(2) eff(2,3)]
      by (auto split: if_splits)
  qed
next
  case (SetPrizes n ps)
  obtain res db where out: "UpdatePrizeAmounts n ps (s_db s) = (res, db)" by fastforce
  note ok = residents_soundD(1) [OF inv]
  note eff = UpdatePrizeAmounts_effect [OF ok out]
  have ok': "table_ok db" using same_draws_table_ok [OF eff(1) ok] .
  show ?thesis
  proof (cases res)
    case (Inl err)
    then show ?thesis using assms(2) SetPrizes out same_rows_sound [OF inv ok' eff(2)] by simp
  next
    case (Inr d)
    from eff(3) [OF Inr] any_point_untouched have d: "proper (d, d)" "IsZero d \<or> untouched_outside (covered (d, d)) (s_db s) db"
      by blast+
    have "residents_sound req (s\<lparr>s_db := db, pending := (d, d) # pending s\<rparr>)"
    proof (cases "IsZero d")
      case True
      then show ?thesis
        using ok' residents_soundD(2) [OF inv] by (simp add: residents_sound_def rangesOverlap_def)
    next
      case False
      then show ?thesis using write_sound [OF inv ok' d(1)] d(2) by blast
    qed
    then show ?thesis using assms(2) SetPrizes out Inr by simp
  qed
qed

interpretation residents: kept_invariant "happens req" "\<lambda>s. \<exists>db. table_ok db \<and> s = first_site db" "residents_sound req"
  for req :: requests
  by unfold_locales (auto intro: first_site_sound happens_sound)

subsection \<open>A caller between two writes\<close>

definition served :: "requests \<Rightarrow> nat \<Rightarrow> site \<Rightarrow> bool" where
  "served req t s \<longleftrightarrow> (\<forall>e. holds (pcs (s_sys s) t) e \<or> flying (s_sys s) t e \<longrightarrow> sound (s_db s) (s_sys s) e) \<and>
     (\<forall>a. pcs (s_sys s) t = Returned (Inr (Some a)) \<longrightarrow>
        (\<exists>lo hi. windowKey lo hi = request_key req t \<and>
           NewLotteryArchive Lottery lo hi (select_range lo hi (rows (s_db s))) = Some a))"

lemma sound_archive:
  assumes "sound db y e" and "e_arch (heap (mgr y) e) = Some a"
    and "windowKey (e_from (heap (mgr y) e)) (e_to (heap (mgr y) e)) = k"
  shows "\<exists>lo hi. windowKey lo hi = k \<and> NewLotteryArchive Lottery lo hi (select_range lo hi (rows db)) = Some a"
  using assms unfolding sound_def current_def by blast

lemma served_unmoved:
  assumes "served req t s" and "placed req (s_sys s)" and "keeps (s_db s) (s_sys s) y'" and "pcs y' t = pcs (s_sys s) t"
  shows "served req t (s\<lparr>s_sys := y', pending := xs\<rparr>)"
proof -
  have "flying y' t e = flying (s_sys s) t e" for e using assms(4) by (simp add: flying_def)
  moreover have "e < fresh (mgr (s_sys s))" if "holds (pcs (s_sys s) t) e \<or> flying (s_sys s) t e" for e
    using that placedD(1,3) [OF assms(2)] by blast
  ultimately show ?thesis using assms(1,3,4) by (auto simp: served_def keeps_def)
qed

lemma served_load:
  assumes sv: "served req t s" and pl: "placed req (s_sys s)" and y': "do_load repo req u (s_sys s) = Some y'"
    and k: "keeps (s_db s) (s_sys s) y'"
  shows "served req t (s\<lparr>s_sys := y', pending := xs\<rparr>)"
proof (cases "u = t")
  case True
  then obtain e res where e: "pcs (s_sys s) t = Loading e" "pcs y' t = Built e res"
    using y' by (auto simp: do_load_def goto_def split: pc.splits prod.splits)
  then have f: "flying (s_sys s) t e" by (simp add: flying_def)
  then have "sound (s_db s) y' e" using sv k placedD(1) [OF pl f] unfolding served_def keeps_def by blast
  then show ?thesis using e(2) by (auto simp: served_def flying_def holds_def)
next
  case False
  then have "pcs y' t = pcs (s_sys s) t"
    using y' by (auto simp: do_load_def goto_def split: pc.splits prod.splits)
  then show ?thesis by (rule served_unmoved [OF sv pl k])
qed

lemma served_finish:
  assumes sv: "served req t s" and pl: "placed req (s_sys s)" and y': "do_finish req u (s_sys s) = Some y'"
    and k: "keeps (s_db s) (s_sys s) y'"
  shows "served req t (s\<lparr>s_sys := y', pending := xs\<rparr>)"
proof (cases "u = t")
  case True
  let ?h = "heap (mgr (s_sys s))"
  obtain e res where e: "pcs (s_sys s) t = Built e res"
    "pcs y' t = Returned (case res of Inl err \<Rightarrow> Inl err | Inr a \<Rightarrow> Inr (Some a))"
    using True y' by (auto simp: do_finish_def goto_def split: pc.splits)
  then have f: "flying (s_sys s) t e" by (simp add: flying_def)
  then have "sound (s_db s) (s_sys s) e" using sv by (simp add: served_def)
  then have "current (s_db s) (?h e) a" if "res = Inr a" for a using e(1) that by (auto simp: sound_def)
  moreover have "windowKey (e_from (?h e)) (e_to (?h e)) = request_key req t"
    using placedD(1) [OF pl f] by (auto simp: request_key_def split: prod.splits)
  ultimately show ?thesis using e(2)
    unfolding served_def current_def by (auto simp: flying_def holds_def split: sum.splits) 
next
  case False
  then have "pcs y' t = pcs (s_sys s) t" using y' by (auto simp: do_finish_def goto_def split: pc.splits)
  then show ?thesis by (rule served_unmoved [OF sv pl k])
qed

lemma served_other:
  assumes inv: "residents_sound req s" and none: "pending s = []" and sv: "served req t s"
    and y': "perform (rows_query (s_db s)) req a (s_sys s) = Some y'" and a: "\<And>t. a \<noteq> Load t" "\<And>t. a \<noteq> Finish t"
  shows "served req t (s\<lparr>s_sys := y', pending := xs\<rparr>)"
proof -
  let ?y = "s_sys s" and ?h = "heap (mgr (s_sys s))"
  note pl = residents_soundD(2) [OF inv]
  have k: "keeps (s_db s) ?y y'" using perform_keeps [OF pl y'] by blast
  have kept: "sound (s_db s) y' e" if "sound (s_db s) ?y e" "e < fresh (mgr ?y)" for e
    using k that unfolding keeps_def by blast
  from caller_step [OF y' a, of t] show ?thesis
  proof (elim disjE exE conjE)
    assume "pcs y' t = pcs ?y t"
    then show ?thesis by (rule served_unmoved [OF sv pl k])
  next
    fix e assume e: "holds (pcs ?y t) e" "holds (pcs y' t) e"
    then have "sound (s_db s) y' e" using kept placedD(3) [OF pl e(1)] sv by (auto simp: served_def)
    then show ?thesis using e(2) by (auto simp: served_def holds_def flying_def)
  next
    fix e assume e: "pcs y' t = Found e" "map_of (cache (mgr ?y)) (request_key req t) = Some e"
    then have "sound (s_db s) y' e"
      using kept placedD(2) [OF pl e(2)] residents_soundD(3) [OF inv e(2)] by (simp add: none quiet_def)
    then show ?thesis using e(1) by (auto simp: served_def holds_def flying_def)
  next
    fix e m lo hi
    assume m: "y' = goto t (Loading e) (?y\<lparr>mgr := m\<rparr>)" "pcs ?y t = Start"
      "case_prod normalizeWindow (req t) = (lo, hi)" "archive_start (windowKey lo hi) lo hi (mgr ?y) = (e, m)"
    then have "sound (s_db s) y' e" using miss_keeps [OF pl m(2-4)] by blast
    moreover have "pcs y' t = Loading e" by (simp add: m(1) goto_def)
    ultimately show ?thesis by (auto simp: served_def holds_def flying_def)
  next
    fix err assume "pcs y' t = Returned (Inl err)"
    then show ?thesis by (auto simp: served_def holds_def flying_def)
  next
    fix e assume e: "pcs ?y t = Touching e" "pcs y' t = Returned (Inr (e_arch (?h e)))"
    then have "holds (pcs ?y t) e" by (simp add: holds_def)
    then have "sound (s_db s) ?y e" "windowKey (e_from (?h e)) (e_to (?h e)) = request_key req t"
      using sv placedD(3) [OF pl] by (auto simp: served_def)
    then show ?thesis using e(2) sound_archive [of "s_db s" ?y e _ "request_key req t"]
      by (auto simp: served_def holds_def flying_def)
  qed
qed

lemma served_step:
  assumes inv: "residents_sound req s" and none: "pending s = []" and sv: "served req t s"
    and ev: "happens req ev s = Some s'" "\<not> writes ev"
  shows "served req t s' \<and> pending s' = [] \<and> s_db s' = s_db s"
proof -
  note pl = residents_soundD(2) [OF inv]
  have still: "still_pending a [] = []" for a by (cases a) auto
  show ?thesis
  proof (cases ev)
    case (Caller a)
    then obtain y' where y': "perform (rows_query (s_db s)) req a (s_sys s) = Some y'"
      "s' = s\<lparr>s_sys := y', pending := []\<rparr>" using ev(1) by (auto simp: none still)
    have k: "keeps (s_db s) (s_sys s) y'" using perform_keeps [OF pl y'(1)] by blast
    consider u where "a = Load u" | u where "a = Finish u" | "\<And>u. a \<noteq> Load u" "\<And>u. a \<noteq> Finish u"
      by (cases a) auto
    then have "served req t s'"
    proof cases
      case 1
      then show ?thesis using served_load [OF sv pl _ k] y' by simp
    next
      case 2
      then show ?thesis using served_finish [OF sv pl _ k] y' by simp
    next
      case 3
      then show ?thesis using served_other [OF inv none sv y'(1)] y'(2) by simp
    qed
    then show ?thesis by (simp add: y'(2))
  next
    case (LoadFails u err)
    then obtain y' where y': "do_load (Some (\<lambda>_ _. Inl err)) req u (s_sys s) = Some y'" "s' = s\<lparr>s_sys := y', pending := []\<rparr>"
      using ev(1) none by (cases s) auto
    then show ?thesis using served_load [OF sv pl y'(1)] load_keeps [OF pl y'(1) disjI2] by auto
  qed (use ev(2) in auto)
qed

lemma between_writes_happens: "steps (between_writes req) es s = Some s' \<Longrightarrow> steps (happens req) es s = Some s'"
  by (induction es arbitrary: s) (auto simp: steps.simps between_writes_def bind_eq_Some_conv split: if_splits)

interpretation undisturbed: kept_invariant "between_writes req"
  "\<lambda>s. reaches (\<lambda>s. \<exists>db. table_ok db \<and> s = first_site db) (happens req) s \<and> pending s = [] \<and> pcs (s_sys s) t = Start \<and> s_db s = db"
  "\<lambda>s. residents_sound req s \<and> pending s = [] \<and> served req t s \<and> s_db s = db"
  for req :: requests and t :: nat and db :: database
proof
  fix s
  assume "site_reachable req s \<and> pending s = [] \<and> pcs (s_sys s) t = Start \<and> s_db s = db"
  then show "residents_sound req s \<and> pending s = [] \<and> served req t s \<and> s_db s = db"
    by (auto simp: residents.reached served_def holds_def flying_def)
next
  fix s e s'
  assume "residents_sound req s \<and> pending s = [] \<and> served req t s \<and> s_db s = db" "between_writes req e s = Some s'"
  then show "residents_sound req s' \<and> pending s' = [] \<and> served req t s' \<and> s_db s' = db"
    using served_step [of req s t e s'] happens_sound [of req s e s'] by (auto simp: between_writes_def split: if_splits)
qed

text \<open>A draw is inserted while the first caller has already read the table.\<close>

definition late_write :: "event list" where
  "late_write = [Caller (Lookup 0), Caller (Load 0), InsertDraws [dated_draw 7 ns_day [1, 2, 3, 4, 5, 6] 1],
     Caller (Finish 0)]"

definition after_write :: "event list" where
  "after_write = late_write @ [Caller (InvRange ns_day ns_day [(request_key same_window 0, 0)])]"

definition next_caller :: "event list" where
  "next_caller = [Caller (Lookup 1), Caller (Load 1), Caller (Finish 1)]"

text \<open>The first caller's archive misses the draw; the invalidation drops it, and the next caller loads a new one.\<close>

lemma late_write_run:
  obtains s s' a where "site_reachable same_window s" "site_reachable same_window s'"
    "length (rows (s_db s)) = 1" "pending s = []" "pcs (s_sys s) 1 = Start"
    "steps (between_writes same_window) next_caller s = Some s'" "pending s' = []" "pcs (s_sys s') 1 = Returned (Inr (Some a))"
    "map_of (cache (mgr (s_sys s'))) (request_key same_window 1) = Some 1"
    "e_arch (heap (mgr (s_sys s')) 1) = Some a"
proof -
  have "case steps (happens same_window) after_write (first_site empty_db) of
      None \<Rightarrow> False
    | Some s \<Rightarrow> length (rows (s_db s)) = 1 \<and> pending s = [] \<and> pcs (s_sys s) 1 = Start \<and>
       (case steps (between_writes same_window) next_caller s of
          None \<Rightarrow> False
        | Some s' \<Rightarrow> pending s' = [] \<and> map_of (cache (mgr (s_sys s'))) (request_key same_window 1) = Some 1 \<and>
            (case pcs (s_sys s') 1 of
               Returned (Inr (Some a)) \<Rightarrow> e_arch (heap (mgr (s_sys s')) 1) = Some a
             | _ \<Rightarrow> False))"
    by code_simp
  then obtain s s' a where s: "steps (happens same_window) after_write (first_site empty_db) = Some s"
    "length (rows (s_db s)) = 1" "pending s = []" "pcs (s_sys s) 1 = Start"
    "steps (between_writes same_window) next_caller s = Some s'" "pending s' = []"
    "pcs (s_sys s') 1 = Returned (Inr (Some a))"
    "map_of (cache (mgr (s_sys s'))) (request_key same_window 1) = Some 1" "e_arch (heap (mgr (s_sys s')) 1) = Some a"
    by (auto split: option.splits pc.splits sum.splits)
  have r: "site_reachable same_window s"
    by (rule steps_reaches [OF at_start s(1)]) (use empty_db_ok in blast)
  have "site_reachable same_window s'" by (rule steps_reaches [OF r between_writes_happens [OF s(5)]])
  with r show thesis using that s(2-) by blast
qed

subsection \<open>Properties\<close>

text \<open>C29: However callers, loads, transactions and invalidations interleave, a loaded archive in the map whose window
  meets no date that was written and not yet invalidated is the archive of the table as it is now.\<close>

theorem residents_current:
  assumes "site_reachable req s" and "map_of (cache (mgr (s_sys s))) k = Some e"
    and "quiet (pending s) (heap (mgr (s_sys s)) e)" and "e_arch (heap (mgr (s_sys s)) e) = Some a"
  shows "current (s_db s) (heap (mgr (s_sys s)) e) a"
  using residents_soundD(3) [OF residents.reached [OF assms(1)] assms(2,3)] assms(4) by (auto simp: sound_def)

theorem residents_current_witness:
  "\<exists>s a. site_reachable same_window s \<and> rows (s_db s) \<noteq> [] \<and> current (s_db s) (heap (mgr (s_sys s)) 1) a"
proof -
  obtain s s' a where s: "site_reachable same_window s" "site_reachable same_window s'" "length (rows (s_db s)) = 1"
    "pending s = []" "pcs (s_sys s) 1 = Start" "steps (between_writes same_window) next_caller s = Some s'" "pending s' = []"
    "map_of (cache (mgr (s_sys s'))) (request_key same_window 1) = Some 1" "e_arch (heap (mgr (s_sys s')) 1) = Some a"
    by (rule late_write_run)
  have "s_db s' = s_db s" using undisturbed.from_start [of same_window s 1 "s_db s" next_caller s'] s by blast
  moreover have "current (s_db s') (heap (mgr (s_sys s')) 1) a"
    by (rule residents_current [OF s(2,8) _ s(9)]) (simp add: quiet_def s(7))
  moreover have "rows (s_db s) \<noteq> []" using s(3) by auto
  ultimately show ?thesis using s(2) by (intro exI [of _ s'] exI [of _ a]) simp
qed

text \<open>C4: A caller that starts when every write has been invalidated, and is answered with an archive before the next
  write, is answered with the archive of the current table, in a window with the key of its request, whatever other
  callers, failing loads, evictions and invalidations happen in between.\<close>

theorem answers_current:
  assumes "site_reachable req s" and "pending s = []" and "pcs (s_sys s) t = Start"
    and "steps (between_writes req) evs s = Some s'" and "pcs (s_sys s') t = Returned (Inr (Some a))"
  shows "s_db s' = s_db s \<and> (\<exists>lo hi. windowKey lo hi = request_key req t \<and>
    NewLotteryArchive Lottery lo hi (select_range lo hi (rows (s_db s'))) = Some a)"
  using undisturbed.from_start [of req s t "s_db s" evs s'] assms unfolding served_def by metis

theorem answers_current_witness:
  "\<exists>s s' a lo hi. site_reachable same_window s \<and> rows (s_db s) \<noteq> [] \<and>
     steps (between_writes same_window) next_caller s = Some s' \<and> pcs (s_sys s') 1 = Returned (Inr (Some a)) \<and>
     NewLotteryArchive Lottery lo hi (select_range lo hi (rows (s_db s'))) = Some a"
proof -
  obtain s s' a where s: "site_reachable same_window s" "length (rows (s_db s)) = 1" "pending s = []"
    "pcs (s_sys s) 1 = Start" "steps (between_writes same_window) next_caller s = Some s'"
    "pcs (s_sys s') 1 = Returned (Inr (Some a))" by (rule late_write_run)
  have "rows (s_db s) \<noteq> []" using s(2) by auto
  then show ?thesis using answers_current [OF s(1,3-6)] s(1,5,6) by blast
qed

end
