(* ===== verification/Scraper_Properties.thy ===== *)
theory Scraper_Properties
  imports Scraper
begin

section \<open>What the scraper reads\<close>

text \<open>
  Every draw written as a line of the download page is read back. The lemmas go by layers, as the reader does:
  a line among the lines (\<open>read_lines_line\<close>), the fields of a line (\<open>csv_fields_print\<close>), a
  record among the records (\<open>csv_Read_print\<close>), a draw from its fields (\<open>parseRecord_line\<close>).
\<close>

subsection \<open>Printing\<close>

definition field_char :: "char \<Rightarrow> bool" where
  "field_char c \<longleftrightarrow> plain_char c \<and> c \<noteq> CHR '','' \<and> c \<noteq> quote"

lemma field_char_ends: "\<not> field_char newline" "\<not> field_char creturn" "\<not> field_char quote" "\<not> field_char (CHR '','')"
  by (simp_all add: field_char_def plain_char_def newline_def creturn_def)

lemma separators [simp]:
  "CHR '','' \<noteq> newline" "newline \<noteq> CHR '',''" "CHR '','' \<noteq> creturn" "creturn \<noteq> CHR '',''"
  "newline \<noteq> quote" "quote \<noteq> newline" "CHR '','' \<noteq> quote" "quote \<noteq> CHR '',''" "CHR ''/'' \<noteq> quote" "quote \<noteq> CHR ''/''"
  "CHR ''-'' \<noteq> quote" "quote \<noteq> CHR ''-''"
  by (code_simp)+

lemma field_char_plain: "list_all field_char s \<Longrightarrow> \<forall>c \<in> set s. plain_char c"
  by (simp add: list_all_iff field_char_def)

fun print_fields :: "string list \<Rightarrow> string" where
  "print_fields [] = []"
| "print_fields [f] = f"
| "print_fields (f # fs) = f @ '','' @ print_fields fs"

definition print_file :: "string list list \<Rightarrow> string" where
  "print_file rows = concat (map (\<lambda>fs. print_fields fs @ [newline]) rows)"

definition row_ok :: "string list \<Rightarrow> bool" where
  "row_ok fs \<longleftrightarrow> fs \<noteq> [] \<and> list_all (list_all field_char) fs"

lemma csv_fields_print:
  assumes "row_ok fs"
  shows "csv_fields (print_fields fs @ [newline]) rest acc = (Inr (acc @ fs), rest)"
  using assms
proof (induction fs arbitrary: acc rule: print_fields.induct)
  case (2 f)
  then have f: "list_all field_char f" by (simp add: row_ok_def)
  then have "CHR '','' \<notin> set (f @ [newline])" "quote \<notin> set f" "f @ [newline] \<noteq> []" "hd (f @ [newline]) \<noteq> quote"
    using field_char_ends by (auto simp: list_all_iff hd_append dest: hd_in_set)
  then show ?case by (simp add: csv_fields.simps break_at_notin strip_newline_def)
next
  case (3 f g fs)
  then have f: "list_all field_char f" and gs: "row_ok (g # fs)" by (simp_all add: row_ok_def)
  from f have "CHR '','' \<notin> set f" "quote \<notin> set f" and q: "f \<noteq> [] \<Longrightarrow> hd f \<noteq> quote"
    using field_char_ends by (auto simp: list_all_iff dest: hd_in_set)
  moreover have "hd (f @ CHR '','' # t) \<noteq> quote" for t
    using q by (cases f) simp_all
  ultimately show ?case
    using 3(1) [OF gs, of "acc @ [f]"] by (simp add: csv_fields.simps break_at_append)
qed (simp add: row_ok_def)

lemma print_fields_chars: "row_ok fs \<Longrightarrow> newline \<notin> set (print_fields fs) \<and> creturn \<notin> set (print_fields fs)"
  using field_char_ends
  by (induction fs rule: print_fields.induct) (auto simp: row_ok_def list_all_iff)

lemma read_lines_line:
  assumes "newline \<notin> set l" "creturn \<notin> set (cur @ l)"
  shows "read_lines (l @ newline # rest) cur = (cur @ l @ [newline]) # read_lines rest []"
  using assms
proof (induction l arbitrary: cur)
  case Nil
  then have "drop_return cur = cur" by (auto simp: drop_return_def dest: last_in_set)
  then show ?case by simp
next
  case (Cons c l)
  then have "c \<noteq> newline" by auto
  then show ?case using Cons.prems Cons.IH [of "cur @ [c]"] by simp
qed

lemma read_lines_print:
  "list_all row_ok rows \<Longrightarrow> read_lines (print_file rows) [] = map (\<lambda>fs. print_fields fs @ [newline]) rows"
proof (induction rows)
  case (Cons fs rows)
  then show ?case
    using print_fields_chars [of fs] by (simp add: print_file_def read_lines_line)
qed (simp add: print_file_def)

lemma csv_Read_print:
  assumes "row_ok fs" "print_fields fs \<noteq> []" "width = 0 \<or> width = length fs"
  shows "csv_Read ((print_fields fs @ [newline]) # rest) width = CsvRecord fs rest (length fs)"
  using assms csv_fields_print [of fs rest "[]"] by (auto simp: row_ok_def)

subsection \<open>A draw as a line\<close>

type_synonym line = "int \<times> (int \<times> nat \<times> int) \<times> int list \<times> int"

fun line_fields :: "line \<Rightarrow> string list" where
  "line_fields (n, (y, m, d), ns, s) = Itoa n # FormatDMY y m d # map Itoa ns @ [Itoa s]"

fun line_result :: "time \<Rightarrow> line \<Rightarrow> LotteryResult" where
  "line_result now (n, (y, m, d), ns, s) =
     \<lparr>ID = 0, DrawNumber = n, DrawDate = Date y m d, d_Numbers = ns, d_Strong = s, d_LotteryType = ''lotto'',
      PrizeAmounts = None, CreatedAt = now, UpdatedAt = now\<rparr>"

fun line_ok :: "line \<Rightarrow> bool" where
  "line_ok (n, (y, m, d), ns, s) \<longleftrightarrow>
     in_int64 n \<and> valid_date y m d \<and> 0 \<le> y \<and> y < 10000 \<and> length ns = 6 \<and> list_all in_int64 ns \<and> in_int64 s"

lemma Itoa_field: "list_all field_char (Itoa n)"
proof -
  have "quote \<notin> set (Itoa n)"
  proof -
    have "\<not> is_digit quote" by (simp add: is_digit_def quote_def)
    then show ?thesis
      using dec_digits [of "nat n"] dec_digits [of "nat (- n)"] by (auto simp: Itoa_def)
  qed
  then show ?thesis using Itoa_plain [of n] by (auto simp: list_all_iff field_char_def)
qed

lemma digit_field: "is_digit c \<Longrightarrow> field_char c"
  using is_digit_sign [of c] by (auto simp: field_char_def quote_def is_digit_def)

lemma FormatDMY_field: "list_all field_char (FormatDMY y m d)"
proof -
  have "field_char (CHR ''/'')" by (simp add: field_char_def plain_char_def)
  then show ?thesis
    using pad_digits [of 2 m] pad_digits [of 2 "nat d"] pad_digits [of 4 "nat y"] digit_field
    by (auto simp: FormatDMY_def list_all_iff)
qed

lemma line_fields_ok: "row_ok (line_fields l)"
  by (cases l rule: line_fields.cases)
    (auto simp: row_ok_def list_all_iff intro: Itoa_field [unfolded list_all_iff, rule_format]
      FormatDMY_field [unfolded list_all_iff, rule_format])

lemma TrimSpace_Itoa [simp]: "TrimSpace (Itoa n) = Itoa n"
  by (rule TrimSpace_plain) (rule field_char_plain [OF Itoa_field])

lemma TrimSpace_FormatDMY [simp]: "TrimSpace (FormatDMY y m d) = FormatDMY y m d"
  by (rule TrimSpace_plain) (rule field_char_plain [OF FormatDMY_field])

lemma six: "length xs = 6 \<Longrightarrow> \<exists>a b c d e f. xs = [a, b, c, d, e, f]"
  by (auto simp: length_Suc_conv numeral_eq_Suc)

lemma parseRecord_line:
  assumes "line_ok l"
  shows "parseRecord now (line_fields l) = Some (Inr (line_result now l))"
proof -
  obtain n y m d ns s where l: "l = (n, (y, m, d), ns, s)" by (cases l rule: line_ok.cases) auto
  with assms have "length ns = 6" by simp
  then obtain a b c e f g where ns: "ns = [a, b, c, e, f, g]" using six by blast
  show ?thesis
    using assms unfolding l ns
    by (simp add: parseRecord_def Atoi_Itoa ParseDMY_FormatDMY numeral_eq_Suc)
qed

lemma csvLoop_print:
  assumes "list_all line_ok ls" and "length ls < fuel"
  shows "csvLoop now fuel (map (\<lambda>fs. print_fields fs @ [newline]) (map line_fields ls)) 9 k acc =
    Some (Inr (acc @ map (line_result now) ls))"
  using assms
proof (induction ls arbitrary: fuel k acc)
  case Nil
  then show ?case by (cases fuel) simp_all
next
  case (Cons l ls)
  then obtain n where fuel: "fuel = Suc n" by (cases fuel) auto
  have "length (line_fields l) = 9" "print_fields (line_fields l) \<noteq> []"
    using Cons.prems(1) by (cases l rule: line_fields.cases; simp add: Itoa_def)+
  then have "csv_Read ((print_fields (line_fields l) @ [newline]) # rest) 9 = CsvRecord (line_fields l) rest 9" for rest
    using csv_Read_print [OF line_fields_ok, of l 9 rest] by simp
  then show ?case
    using Cons.prems parseRecord_line [of l now] Cons.IH [of n "k + 1" "acc @ [line_result now l]"] fuel
    by (simp del: csv_Read.simps)
qed

subsection \<open>The download page\<close>

lemma print_fields_long: "1 < length fs \<Longrightarrow> print_fields fs \<noteq> []"
  by (cases fs rule: print_fields.cases) auto

lemma parseCSV_header:
  assumes "row_ok h" "1 < length h" "list_all row_ok rows"
  shows "parseCSV now (print_file (h # rows)) =
    csvLoop now (Suc (length rows)) (map (\<lambda>fs. print_fields fs @ [newline]) rows) (length h) 1 []"
  using assms read_lines_print [of "h # rows"] csv_Read_print [of h 0] print_fields_long [of h]
  by (simp add: parseCSV_def del: csv_Read.simps csvLoop.simps)

definition header_row :: "string list" where
  "header_row = [''Draw'', ''Date'', ''n1'', ''n2'', ''n3'', ''n4'', ''n5'', ''n6'', ''Strong'']"

lemma header_row_ok: "row_ok header_row" "length header_row = 9" "row_ok (butlast header_row)" "length (butlast header_row) = 8"
  by code_simp+

definition draw_line :: line where
  "draw_line = (3500, (2022, 9, 10), [1, 2, 3, 14, 25, 36], 7)"

lemma draw_line_ok: "line_ok draw_line"
  by code_simp

text \<open>C13: Every list of draws written as a CSV file, with any header of nine plain fields, is read back
  as those draws, in order and with nothing dropped.\<close>

theorem parseCSV_roundtrip:
  assumes "row_ok h" and "length h = 9" and "list_all line_ok ls"
  shows "parseCSV now (print_file (h # map line_fields ls)) = Some (Inr (map (line_result now) ls))"
proof -
  have "list_all row_ok (map line_fields ls)" by (simp add: list_all_iff line_fields_ok)
  then show ?thesis
    using assms csvLoop_print [of ls "Suc (length ls)" now 1 "[]"] parseCSV_header [of h "map line_fields ls" now]
    by simp
qed

theorem parseCSV_roundtrip_witness:
  "parseCSV 5 (print_file [header_row, line_fields draw_line]) = Some (Inr [line_result 5 draw_line])"
  using parseCSV_roundtrip [OF header_row_ok(1,2), of "[draw_line]" 5] draw_line_ok by simp

text \<open>A record of eight fields passes the length check and is then indexed at 8.\<close>

lemma parseRecord_short:
  assumes "line_ok l"
  shows "parseRecord now (butlast (line_fields l)) = None"
proof -
  obtain n y m d ns s where l: "l = (n, (y, m, d), ns, s)" by (cases l rule: line_ok.cases) auto
  with assms have "length ns = 6" by simp
  then obtain a b c e f g where ns: "ns = [a, b, c, e, f, g]" using six by blast
  show ?thesis
    using assms unfolding l ns
    by (simp add: parseRecord_def Atoi_Itoa ParseDMY_FormatDMY numeral_eq_Suc)
qed

lemma row_ok_butlast: "row_ok fs \<Longrightarrow> 1 < length fs \<Longrightarrow> row_ok (butlast fs)"
  by (cases fs rule: rev_cases) (auto simp: row_ok_def)

text \<open>C34: A download page whose columns end before the strong number crashes the fetch at its first well-formed
  draw, whatever follows: the length check of \<open>parseRecord\<close> admits eight fields and then reads the ninth.\<close>

theorem eight_columns_panic:
  assumes page: "get [] paisDownloadURL = Inr (200, print_file (h # butlast (line_fields l) # rows))"
    and "row_ok h" and "length h = 8" and "line_ok l" and "list_all row_ok rows"
  shows "FetchLotteryData get now = None"
proof -
  have len: "length (line_fields l) = 9" using assms(4) by (cases l rule: line_fields.cases) auto
  then have row: "row_ok (butlast (line_fields l))" using line_fields_ok row_ok_butlast by simp
  then have "csv_Read ((print_fields (butlast (line_fields l)) @ [newline]) # rest) 8 =
      CsvRecord (butlast (line_fields l)) rest 8" for rest
    using csv_Read_print [OF row, of 8 rest] print_fields_long [of "butlast (line_fields l)"] len by simp
  then have "parseCSV now (print_file (h # butlast (line_fields l) # rows)) = None"
    using assms row parseRecord_short [of l now] parseCSV_header [of h "butlast (line_fields l) # rows" now]
    by (simp del: csv_Read.simps)
  then show ?thesis by (simp add: FetchLotteryData_def page StatusOK_def)
qed

theorem eight_columns_panic_witness:
  "FetchLotteryData (\<lambda>_ _. Inr (200, print_file [butlast header_row, butlast (line_fields draw_line)])) 5 = None"
  by (rule eight_columns_panic [OF _ header_row_ok(3,4) draw_line_ok, where rows = "[]"]) simp_all

subsection \<open>The prize page\<close>

text \<open>The labels of one table row of the page: the tier, the number of winners, the amount; numbers are written with
  commas at any place.\<close>

definition tier_label :: "nat \<Rightarrow> string" where
  "tier_label i = tier_text @ Itoa (6 - int (i div 2)) @ (if even i then strong_text else [])"

definition tier_labels :: "nat \<Rightarrow> string \<times> string \<Rightarrow> string list" where
  "tier_labels i r = [tier_label i, winners_text @ fst r, prize_text @ snd r @ '' '' @ shekel]"

definition written :: "string \<Rightarrow> int \<Rightarrow> bool" where
  "written s n \<longleftrightarrow> 0 \<le> n \<and> n < 2 ^ 53 \<and> s \<noteq> [] \<and> list_all amount_char s \<and> 
     digits_value (filter (\<lambda>c. c \<noteq> CHR '','') s) = Some n"

lemma parseHebrewNumber_written: "written s n \<Longrightarrow> parseHebrewNumber s = n"
proof -
  assume w: "written s n"
  define t where "t = filter (\<lambda>c. c \<noteq> CHR '','') s"
  have d: "t \<noteq> []" "\<forall>c \<in> set t. is_digit c" "digits_value t = Some n" "in_int64 n"
    using w by (auto simp: written_def t_def digits_value_def list_all_iff in_int64_def split: if_splits)
  then have "TrimSpace t = t" using is_digit_sign by (intro TrimSpace_plain) blast
  moreover have "Atoi t = Some n"
    using d is_digit_sign [of "hd t"] by (cases t) (simp_all add: Atoi_def)
  ultimately show ?thesis by (simp add: parseHebrewNumber_def t_def)
qed

text \<open>Where a literal cannot start: \<open>clash p xs\<close> finds the mismatch within both lists.\<close>

fun clash :: "string \<Rightarrow> string \<Rightarrow> bool" where
  "clash (p # ps) (c # cs) \<longleftrightarrow> p \<noteq> c \<or> clash ps cs"
| "clash _ _ \<longleftrightarrow> False"

fun no_start :: "string \<Rightarrow> string \<Rightarrow> bool" where
  "no_start p [] \<longleftrightarrow> True"
| "no_start p (c # cs) \<longleftrightarrow> clash p (c # cs) \<and> no_start p cs"

abbreviation "after_literal" :: "string \<Rightarrow> (string \<Rightarrow> 'a option) \<Rightarrow> string \<Rightarrow> 'a option" where
  "after_literal p f \<equiv> (\<lambda>s. case strip_prefix p s of None \<Rightarrow> None | Some t \<Rightarrow> f t)"

lemma clash_strip: "clash p xs \<Longrightarrow> strip_prefix p (xs @ ys) = None"
  by (induction p xs rule: clash.induct) auto

lemma find_after_skip: "no_start p xs \<Longrightarrow> find_match (after_literal p f) (xs @ ys) = find_match (after_literal p f) ys"
proof (induction xs)
  case (Cons x xs)
  then have "strip_prefix p ((x # xs) @ ys) = None" using clash_strip [of p "x # xs" ys] by simp
  then show ?case using Cons by simp
qed simp

lemma find_after_absent:
  "p \<noteq> [] \<Longrightarrow> hd p \<notin> set xs \<Longrightarrow> find_match (after_literal p f) (xs @ ys) = find_match (after_literal p f) ys"
  by (rule find_after_skip, induction xs) (cases p; simp)+

lemma strip_prefix_end [simp]: "p \<noteq> [] \<Longrightarrow> strip_prefix p [] = None"
  by (cases p) simp_all

lemma find_match_first: "g s = Some r \<Longrightarrow> find_match g s = Some r"
  by (cases s) simp_all

lemma find_after_hit: "f t = Some r \<Longrightarrow> find_match (after_literal p f) (p @ t) = Some r"
  using find_match_first [of "after_literal p f" "p @ t" r] by simp

text \<open>Which expression matches which label.\<close>

lemma amount_notin: "list_all amount_char s \<Longrightarrow> hd winners_text \<notin> set s \<and> hd prize_text \<notin> set s \<and> hd tier_text \<notin> set s"
proof -
  have "list_all (\<lambda>l. \<not> amount_char (hd l)) [winners_text, prize_text, tier_text]" by code_simp
  then show "list_all amount_char s \<Longrightarrow> ?thesis" by (auto simp: list_all_iff)
qed

lemma literals_apart:
  "no_start prize_text winners_text \<and> no_start tier_text winners_text \<and> no_start tier_text prize_text"
  "no_start tier_text ('' '' @ shekel)" "winners_text \<noteq> []" "prize_text \<noteq> []" "tier_text \<noteq> []"
  by code_simp+

lemma winners_label:
  assumes "list_all amount_char s" "s \<noteq> []"
  shows "winnersRE (winners_text @ s) = Some s" "prizeRE (winners_text @ s) = None" "tierLabelRE (winners_text @ s) = None"
proof -
  have all: "takeWhile amount_char s = s" using assms by (simp add: takeWhile_eq_all_conv list_all_iff)
  show "winnersRE (winners_text @ s) = Some s"
    unfolding winnersRE_def amount_after_def
    by (rule find_after_hit) (simp only: Let_def all assms(2) if_False)
  have "find_match (after_literal p f) (winners_text @ s) = None" if "p \<in> {prize_text, tier_text}" for p and f :: "string \<Rightarrow> 'a option"
    using that find_after_skip [of p winners_text f s] find_after_absent [of p s f "[]"] amount_notin [OF assms(1)] literals_apart
    by auto
  then show "prizeRE (winners_text @ s) = None" "tierLabelRE (winners_text @ s) = None"
    unfolding prizeRE_def tierLabelRE_def amount_after_def by blast+
qed
lemma prize_label:
  assumes "list_all amount_char s" "s \<noteq> []"
  shows "prizeRE (prize_text @ s @ '' '' @ shekel) = Some s" "tierLabelRE (prize_text @ s @ '' '' @ shekel) = None"
proof -
  have "\<not> amount_char (CHR '' '')" by code_simp
  then have all: "takeWhile amount_char (s @ '' '' @ shekel) = s"
    using assms(1) by (simp add: list_all_iff takeWhile_append)
  show "prizeRE (prize_text @ s @ '' '' @ shekel) = Some s"
    unfolding prizeRE_def amount_after_def
    by (rule find_after_hit) (simp only: Let_def all assms(2) if_False)
  show "tierLabelRE (prize_text @ s @ '' '' @ shekel) = None"
    unfolding tierLabelRE_def
    using literals_apart amount_notin [OF assms(1)] find_after_skip [of tier_text "'' '' @ shekel" _ "[]"]
    by (simp add: find_after_skip find_after_absent del: find_match.simps(2))
qed

lemma tier_label_matches:
  "i < 8 \<Longrightarrow> \<exists>k. tierLabelRE (tier_label i) = Some (k, even i) \<and> tierLabelToIndex k (even i) = int i"
proof -
  have "list_all (\<lambda>i. case tierLabelRE (tier_label i) of None \<Rightarrow> False
      | Some (k, b) \<Rightarrow> b = even i \<and> tierLabelToIndex k b = int i) [0..<8]"
    by code_simp
  moreover assume "i < 8"
  ultimately have "case tierLabelRE (tier_label i) of None \<Rightarrow> False
      | Some (k, b) \<Rightarrow> b = even i \<and> tierLabelToIndex k b = int i"
    by (simp add: list_all_iff)
  then show ?thesis by (auto split: option.splits)
qed

lemma lookAhead_done: "0 \<le> w \<Longrightarrow> \<not> flt a (Fin 0) \<Longrightarrow> lookAhead ls w a = (w, a)"
  by (induction ls) (auto simp: Let_def)

lemma labelLoop_full: "\<not> tiersFound t < 8 \<Longrightarrow> labelLoop ls t = t"
  by (cases ls) simp_all

text \<open>A row of the table is read whatever follows it.\<close>

definition row_of :: "string \<times> string \<Rightarrow> int \<times> int \<Rightarrow> bool" where
  "row_of r v \<longleftrightarrow> written (fst r) (fst v) \<and> written (snd r) (snd v)"

lemma lookAhead_row:
  assumes "row_of r (w, a)"
  shows "lookAhead ((winners_text @ fst r) # (prize_text @ snd r @ '' '' @ shekel) # ls) (- 1) (Fin (- 1)) = (w, fint a)"
proof -
  have r: "written (fst r) w" "written (snd r) a" using assms by (simp_all add: row_of_def)
  then have "f64_of_int a = fint a" "0 \<le> w" "0 \<le> a" by (simp_all add: written_def f64_of_int_exact)
  then show ?thesis
    using r winners_label [of "fst r"] prize_label [of "snd r"] parseHebrewNumber_written [OF r(1)]
      parseHebrewNumber_written [OF r(2)] lookAhead_done [of w "fint a" ls]
    by (simp add: written_def Let_def)
qed

lemma labelLoop_row:
  assumes "row_of r (w, a)" "tiersFound t < 8" "i < 8"
  shows "labelLoop (tier_labels i r @ ls) t =
    labelLoop ls \<lparr>tierAmounts = (tierAmounts t)[i := fint a], tierWinners = (tierWinners t)[i := w],
      tiersFound = Suc (tiersFound t)\<rparr>"
proof -
  obtain k where k: "tierLabelRE (tier_label i) = Some (k, even i)" "tierLabelToIndex k (even i) = int i"
    using tier_label_matches assms(3) by blast
  have r: "written (fst r) w" "written (snd r) a" using assms by (simp_all add: row_of_def)
  have labels: "tier_labels i r @ ls = tier_label i # (winners_text @ fst r) # (prize_text @ snd r @ '' '' @ shekel) # ls"
    by (simp add: tier_labels_def)
  have four: "take 4 (x # y # ls) = x # y # take 2 ls" for x y :: string by simp
  show ?thesis
    unfolding labels
    using r assms k winners_label(3) [of "fst r"] prize_label(2) [of "snd r"] lookAhead_row [OF assms(1), of "take 2 ls"]
    by (cases "tiersFound t = 7") (simp_all add: four written_def Let_def labelLoop_full del: take_Cons_numeral lookAhead.simps)
qed
fun page_labels :: "nat \<Rightarrow> (string \<times> string) list \<Rightarrow> string list" where
  "page_labels i [] = []"
| "page_labels i (r # rs) = tier_labels i r @ page_labels (Suc i) rs"

lemma labelLoop_page:
  assumes "list_all2 row_of rs vs" "i + length rs = 8" "tiersFound t = i"
    "length (tierAmounts t) = 8" "length (tierWinners t) = 8"
  shows "labelLoop (page_labels i rs @ ls) t =
    \<lparr>tierAmounts = take i (tierAmounts t) @ map (\<lambda>v. fint (snd v)) vs,
     tierWinners = take i (tierWinners t) @ map fst vs, tiersFound = 8\<rparr>"
  using assms
proof (induction rs arbitrary: vs i t)
  case Nil
  then show ?case by (simp add: labelLoop_full)
next
  case (Cons r rs)
  then obtain w a vs' where vs: "vs = (w, a) # vs'" and r: "row_of r (w, a)" and rs: "list_all2 row_of rs vs'"
    by (auto simp: list_all2_Cons1)
  define t' where "t' = \<lparr>tierAmounts = (tierAmounts t)[i := fint a], tierWinners = (tierWinners t)[i := w], tiersFound = Suc i\<rparr>"
  have "labelLoop (page_labels i (r # rs) @ ls) t = labelLoop (page_labels (Suc i) rs @ ls) t'"
    using labelLoop_row [OF r, of t i "page_labels (Suc i) rs @ ls"] Cons.prems by (simp add: t'_def)
  then show ?case
    using Cons.IH [OF rs, of "Suc i" t'] Cons.prems vs by (simp add: t'_def take_Suc_conv_app_nth)
qed

definition page_rows :: "(string \<times> string) list" where
  "page_rows = [(''0'', ''0''), (''0'', ''0''), (''3'', ''50,000''), (''13'', ''5,945''), (''210'', ''700''),
    (''1,020'', ''140''), (''2,900'', ''65''), (''10,848'', ''10'')]"

definition page_values :: "(int \<times> int) list" where
  "page_values = [(0, 0), (0, 0), (3, 50000), (13, 5945), (210, 700), (1020, 140), (2900, 65), (10848, 10)]"

lemma page_rows_ok: "list_all2 row_of page_rows page_values" "length page_rows = 8"
  by (simp_all add: page_rows_def page_values_def row_of_def written_def digits_value_def digit_val_def
      amount_char_def is_digit_def)

definition page_doc :: "string list \<Rightarrow> html_node" where
  "page_doc ls = OtherNode (map (\<lambda>l. ElementNode [(''aria-label'', l)] []) ls)"

lemma page_doc [simp]: "aria_walk (page_doc ls) = ls" "textContent (page_doc ls) = []"
  by (induction ls) (simp_all add: page_doc_def)

lemma no_advertisement: "parseAmount firstPrizeRE [] = Fin 0" "parseAmount secondPrizeRE [] = Fin 0"
  by code_simp+

text \<open>C23: A prize page with the eight rows of the table, whatever labels follow it (the double lotto), gives the
  amount of each tier in the canonical order; the first two are replaced by the advertised prizes exactly when
  the tier had no winner and a prize is advertised.\<close>

theorem prize_page_read:
  assumes parse: "parse body = Inr doc" and labels: "aria_walk doc = page_labels 0 rs @ ls"
    and rows: "list_all2 row_of rs vs" "length rs = 8"
    and first: "parseAmount firstPrizeRE (textContent doc) = p" and second: "parseAmount secondPrizeRE (textContent doc) = q"
  shows "parsePrizeHTML parse body n = Inr (
      (if fst (vs ! 0) = 0 \<and> flt (Fin 0) p then p else fint (snd (vs ! 0))) #
      (if fst (vs ! 1) = 0 \<and> flt (Fin 0) q then q else fint (snd (vs ! 1))) # map (\<lambda>v. fint (snd v)) (drop 2 vs))"
proof -
  have loop: "labelLoop (page_labels 0 rs @ ls) no_tiers =
      \<lparr>tierAmounts = map (\<lambda>v. fint (snd v)) vs, tierWinners = map fst vs, tiersFound = 8\<rparr>"
    using labelLoop_page [OF rows(1), of 0 no_tiers ls] rows(2) by (simp add: no_tiers_def)
  have "length vs = 8" using rows list_all2_lengthD by fastforce
  then obtain u v us where vs: "vs = u # v # us" by (auto simp: length_Suc_conv numeral_eq_Suc)
  show ?thesis by (simp add: parsePrizeHTML_def parse labels loop first second vs Let_def)
qed

theorem prize_page_read_witness:
  "parsePrizeHTML (\<lambda>_. Inr (page_doc (page_labels 0 page_rows))) [] 3500 =
    Inr (map fint [0, 0, 50000, 5945, 700, 140, 65, 10])"
  using prize_page_read [of "\<lambda>_. Inr (page_doc (page_labels 0 page_rows))" "[]" _ page_rows "[]" page_values _ _ 3500]
    page_rows_ok no_advertisement by (simp add: page_values_def)

text \<open>The check for eight tiers counts labels, not tiers: a page that repeats one row eight times is accepted,
  with nothing for the seven other tiers.\<close>

lemma labelLoop_repeat:
  assumes "row_of r (w, a)" "i < 8" "tiersFound t + k = 8"
  shows "labelLoop (concat (replicate k (tier_labels i r))) t =
    (if k = 0 then t else \<lparr>tierAmounts = (tierAmounts t)[i := fint a], tierWinners = (tierWinners t)[i := w], tiersFound = 8\<rparr>)"
  using assms(3)
proof (induction k arbitrary: t)
  case (Suc k)
  then show ?case using labelLoop_row [OF assms(1), of t i] assms(2) by auto
qed simp

lemma repeated_tier_accepted:
  assumes "parse body = Inr doc" "aria_walk doc = concat (replicate 8 (tier_labels 7 r))" "row_of r (w, a)"
    and "parseAmount firstPrizeRE (textContent doc) = Fin 0" "parseAmount secondPrizeRE (textContent doc) = Fin 0"
  shows "parsePrizeHTML parse body n = Inr (replicate 7 (Fin 0) @ [fint a])"
  using assms labelLoop_repeat [OF assms(3), of 7 no_tiers 8]
  by (simp add: parsePrizeHTML_def no_tiers_def Let_def numeral_eq_Suc)

subsection \<open>The fuel of the record loop\<close>

lemma csv_fields_rest:
  "length (snd (csv_fields line rest fs)) \<le> length rest"
  "length (snd (csv_quoted line rest cur fs)) \<le> length rest"
proof (induction line rest fs and line rest cur fs rule: csv_fields_csv_quoted.induct)
  case (1 line rest fs)
  then show ?case
    by (subst csv_fields.simps) (auto simp: Let_def split: prod.splits option.splits)
next
  case (2 line rest cur fs)
  then show ?case
    by (subst csv_quoted.simps) (auto split: prod.splits option.splits list.splits intro: le_SucI)
qed

lemma csv_Read_rest: "csv_Read input width = CsvRecord fs rest w \<Longrightarrow> length rest < length input"
proof (induction input width rule: csv_Read.induct)
  case (2 line rest' width)
  then show ?case
    using csv_fields_rest(1) [of line rest' "[]"]
    by (auto split: if_splits prod.splits sum.splits intro: less_SucI)
qed simp

text \<open>Every round reads at least one line, so with more fuel than lines the result does not depend on the fuel:
  the only \<open>None\<close> is the panic of \<open>parseRecord\<close>.\<close>

lemma csvLoop_fuel:
  "length input < m \<Longrightarrow> length input < n \<Longrightarrow> csvLoop now m input width k acc = csvLoop now n input width k acc"
proof (induction m arbitrary: n input width k acc)
  case (Suc m)
  then obtain n' where n: "n = Suc n'" by (cases n) auto
  show ?case
  proof (cases "csv_Read input width")
    case (CsvRecord fs rest w)
    then have "length rest < m" "length rest < n'" using csv_Read_rest [of input width fs rest w] Suc.prems n by auto
    then have "csvLoop now m rest w k' acc' = csvLoop now n' rest w k' acc'" for k' acc'
      by (rule Suc.IH)
    then show ?thesis by (simp add: CsvRecord n split: option.split sum.split)
  qed (simp_all add: n)
qed simp

end
