(* ===== verification/Analysis.thy ===== *)
theory Analysis
  imports Archive
begin

section \<open>Analysing a form against the archive (lottery_archive.go)\<close>

text \<open>
  \<open>AnalyzeArray\<close>, its recursive walk \<open>analyzeBuild\<close>, \<open>AnalyzeForm\<close> and \<open>ScoreForm\<close> of
  \<open>internal/lottery-tree/lottery_archive.go\<close>. The walk follows the form's numbers in the order given,
  so a group is found only where its numbers ascend in the form: \<open>AnalyzeArray_spec\<close> states the
  entries of every group as the sub-lists of the form, in index order, that have a positive count.
  For a form in ascending order these are all its subsets.
\<close>

record FrequencyEntry =
  fe_Numbers :: "int list"
  fe_Count :: int

record FrequencyGroup =
  g_Size :: int
  g_Combos :: int
  g_Entries :: "FrequencyEntry list"

record AnalyzeResponse =
  FrequencyGroups :: "FrequencyGroup list"
  ar_ArchiveSize :: int

record ScoreFormResponse =
  Heat :: f64
  ObservedPairHits :: int
  ExpectedPairHits :: f64
  sf_Draws :: int
  PairCount :: int

text \<open>The appended entry; \<open>None\<close> is the panic of an index past the group list.\<close>

definition append_entry :: "FrequencyGroup list \<Rightarrow> nat \<Rightarrow> FrequencyEntry \<Rightarrow> FrequencyGroup list option" where
  "append_entry groups i e =
     (if i < length groups
      then Some (groups[i := (groups ! i)\<lparr>g_Entries := g_Entries (groups ! i) @ [e]\<rparr>])
      else None)"

function analyzeBuild ::
  "LoNode \<Rightarrow> int list \<Rightarrow> nat \<Rightarrow> nat \<Rightarrow> int \<Rightarrow> FrequencyGroup list \<Rightarrow> int list \<Rightarrow>
   FrequencyGroup list option"
  and analyzeLoop ::
  "LoNode \<Rightarrow> int list \<Rightarrow> nat \<Rightarrow> nat \<Rightarrow> int \<Rightarrow> FrequencyGroup list \<Rightarrow> int list \<Rightarrow>
   FrequencyGroup list option" where
  "analyzeBuild n form current sz maxSize groups prefix =
     (if int sz = maxSize then Some groups
      else analyzeLoop n form current sz maxSize groups prefix)"
| "analyzeLoop n form i sz maxSize groups prefix =
     (if i < length form then
        case child_at n (form ! i) of
          None \<Rightarrow> analyzeLoop n form (Suc i) sz maxSize groups prefix
        | Some child \<Rightarrow>
            let numbers = prefix @ [int32 (form ! i)] in
            Option.bind (append_entry groups sz
                \<lparr>fe_Numbers = numbers, fe_Count = int32 (Count child)\<rparr>) (\<lambda>groups.
            Option.bind (analyzeBuild child form (Suc i) (Suc sz) maxSize groups numbers) (\<lambda>groups.
            analyzeLoop n form (Suc i) sz maxSize groups prefix))
      else Some groups)"
  by pat_completeness auto
termination
  by (relation "measure (\<lambda>x. case x of
        Inl (n, form, i, _) \<Rightarrow> 2 * (length form - i) + 1
      | Inr (n, form, i, _) \<Rightarrow> 2 * (length form - i))") auto

declare analyzeBuild.simps [simp del] analyzeLoop.simps [simp del]

definition empty_groups :: "FrequencyGroup list" where
  "empty_groups = map (\<lambda>i. \<lparr>g_Size = int32 (int i + 1), g_Combos = 0, g_Entries = []\<rparr>)
     [0..<nat maxGroupSize]"

definition sort_group :: "FrequencyGroup \<Rightarrow> FrequencyGroup" where
  "sort_group g = g\<lparr>g_Entries := sort_key (\<lambda>e. - fe_Count e) (g_Entries g)\<rparr>"

definition AnalyzeArray :: "LoTree \<Rightarrow> int list \<Rightarrow> int \<Rightarrow> AnalyzeResponse option" where
  "AnalyzeArray t form maxSize =
     Option.bind
       (case Anchor t of
          None \<Rightarrow> if maxSize = 0 \<or> form = [] then Some empty_groups else None
        | Some anchor \<Rightarrow> analyzeBuild anchor form 0 0 maxSize empty_groups [])
       (\<lambda>groups. Some \<lparr>FrequencyGroups = map sort_group groups, ar_ArchiveSize = int32 (BuildCalls t)\<rparr>)"

definition emptyAnalyzeResponse :: AnalyzeResponse where
  "emptyAnalyzeResponse = \<lparr>FrequencyGroups = empty_groups, ar_ArchiveSize = 0\<rparr>"

definition AnalyzeForm :: "LotteryArchive \<Rightarrow> int list \<Rightarrow> AnalyzeResponse option" where
  "AnalyzeForm a form =
     Option.bind
       (case a_Tree a of
          None \<Rightarrow> Some emptyAnalyzeResponse
        | Some t \<Rightarrow> AnalyzeArray t form maxGroupSize)
       (\<lambda>resp. Some (resp\<lparr>FrequencyGroups :=
          map (\<lambda>g. g\<lparr>g_Combos := int32 (binomialCount (MaxNumber a) (g_Size g))\<rparr>) (FrequencyGroups resp)\<rparr>))"

text \<open>The sum \<open>observed += int64(e.GetCount())\<close>.\<close>

fun sum_counts :: "FrequencyEntry list \<Rightarrow> int \<Rightarrow> int" where
  "sum_counts [] observed = observed"
| "sum_counts (e # es) observed = sum_counts es (int64 (observed + fe_Count e))"

definition observed_pairs :: "LotteryArchive \<Rightarrow> int list \<Rightarrow> int option" where
  "observed_pairs a form =
     (case a_Tree a of
        None \<Rightarrow> Some 0
      | Some t \<Rightarrow> Option.bind (AnalyzeArray t form maxGroupSize) (\<lambda>resp.
          if 1 < length (FrequencyGroups resp)
          then Some (sum_counts (g_Entries (FrequencyGroups resp ! 1)) 0) else None))"

definition ScoreForm :: "LotteryArchive \<Rightarrow> int list \<Rightarrow> ScoreFormResponse option" where
  "ScoreForm a form =
     (let pairs = binomialCount (int (length form)) 2 in
      Option.bind (observed_pairs a form) (\<lambda>observed.
        let expected = fdiv
              (fmul (fmul (f64_of_int (ArchiveSize a)) (f64_of_int pairs))
                 (f64_of_int (binomialCount maxGroupSize 2)))
              (f64_of_int (binomialCount (MaxNumber a) 2));
            heat = (if flt (Fin 0) expected
                    then fdiv (fmul (Fin 100) (f64_of_int observed)) expected else Fin 0)
        in Some \<lparr>Heat = heat, ObservedPairHits = observed, ExpectedPairHits = expected,
             sf_Draws = int32 (ArchiveSize a), PairCount = int32 pairs\<rparr>))"

subsection \<open>What the walk appends\<close>

text \<open>
  The entries of the groups of \<open>k\<close> numbers below a node: the sub-lists of the rest of the form that
  are paths of the tree.
\<close>

definition walk_entries :: "LoNode \<Rightarrow> int list \<Rightarrow> int list \<Rightarrow> nat \<Rightarrow> FrequencyEntry list" where
  "walk_entries n form prefix k =
     map (\<lambda>q. \<lparr>fe_Numbers = prefix @ map int32 q, fe_Count = int32 (count_at n q)\<rparr>)
       (filter (\<lambda>q. node_at n q \<noteq> None) (combs k form))"

definition add_entries :: "(nat \<Rightarrow> FrequencyEntry list) \<Rightarrow> FrequencyGroup list \<Rightarrow> FrequencyGroup list" where
  "add_entries F groups =
     map (\<lambda>(j, g). g\<lparr>g_Entries := g_Entries g @ F j\<rparr>) (enumerate 0 groups)"

lemma add_entries_nth [simp]:
  "j < length groups \<Longrightarrow>
   add_entries F groups ! j = (groups ! j)\<lparr>g_Entries := g_Entries (groups ! j) @ F j\<rparr>"
  "length (add_entries F groups) = length groups"
  by (simp_all add: add_entries_def nth_enumerate_eq)

lemma add_entries_comp: "add_entries G (add_entries F groups) = add_entries (\<lambda>j. F j @ G j) groups"
  by (rule nth_equalityI) simp_all

lemma add_entries_Nil: "(\<And>j. j < length groups \<Longrightarrow> F j = []) \<Longrightarrow> add_entries F groups = groups"
  by (rule nth_equalityI) simp_all

lemma append_entry_add:
  "i < length groups \<Longrightarrow>
   append_entry groups i e = Some (add_entries (\<lambda>j. if j = i then [e] else []) groups)"
  by (auto simp: append_entry_def nth_list_update intro!: nth_equalityI)

definition walk_gain :: "LoNode \<Rightarrow> int list \<Rightarrow> int list \<Rightarrow> nat \<Rightarrow> nat \<Rightarrow> FrequencyEntry list" where
  "walk_gain n form prefix sz j = (if sz \<le> j then walk_entries n form prefix (Suc (j - sz)) else [])"

lemma walk_entries_Cons_Some:
  assumes "child_at n f = Some c"
  shows "walk_entries n (f # form) prefix (Suc k) =
    (if k = 0 then [\<lparr>fe_Numbers = prefix @ [int32 f], fe_Count = int32 (Count c)\<rparr>]
     else walk_entries c form (prefix @ [int32 f]) k) @ walk_entries n form prefix (Suc k)"
  using assms by (cases k) (simp_all add: walk_entries_def filter_map comp_def count_at_Cons)

lemma walk_entries_Cons_None:
  "child_at n f = None \<Longrightarrow>
   walk_entries n (f # form) prefix (Suc k) = walk_entries n form prefix (Suc k)"
  by (simp add: walk_entries_def filter_map comp_def)

lemma analyzeLoop_done:
  "\<not> i < length form \<Longrightarrow> analyzeLoop n form i sz maxSize groups prefix = Some groups"
  by (simp add: analyzeLoop.simps)

lemma analyzeLoop_skip:
  "i < length form \<Longrightarrow> child_at n (form ! i) = None \<Longrightarrow>
   analyzeLoop n form i sz maxSize groups prefix =
     analyzeLoop n form (Suc i) sz maxSize groups prefix"
  by (subst analyzeLoop.simps) (simp only: if_True option.case)

lemma analyze_walk:
  "int sz \<le> maxSize \<Longrightarrow> maxSize = int (length groups) \<Longrightarrow>
   analyzeBuild n form i sz maxSize groups prefix =
     Some (add_entries (walk_gain n (drop i form) prefix sz) groups)"
  "int sz < maxSize \<Longrightarrow> maxSize = int (length groups) \<Longrightarrow>
   analyzeLoop n form i sz maxSize groups prefix =
     Some (add_entries (walk_gain n (drop i form) prefix sz) groups)"
proof (induction n form i sz maxSize groups prefix and n form i sz maxSize groups prefix
    rule: analyzeBuild_analyzeLoop.induct)
  case (1 n form i sz maxSize groups prefix)
  show ?case
  proof (cases "int sz = maxSize")
    case True
    then have "add_entries (walk_gain n (drop i form) prefix sz) groups = groups"
      using "1.prems" by (intro add_entries_Nil) (simp add: walk_gain_def)
    then show ?thesis using True by (simp add: analyzeBuild.simps)
  next
    case False
    then show ?thesis using "1.IH" [OF False] "1.prems" by (simp add: analyzeBuild.simps)
  qed
next
  case (2 n form i sz maxSize groups prefix)
  show ?case
  proof (cases "i < length form")
    case False
    then have "walk_entries n (drop i form) prefix (Suc k) = []" for k by (simp add: walk_entries_def)
    then show ?thesis using False by (simp add: analyzeLoop_done walk_gain_def add_entries_Nil)
  next
    case True
    let ?f = "form ! i" and ?rest = "drop (Suc i) form"
    have d: "drop i form = ?f # ?rest" using True by (simp add: Cons_nth_drop_Suc)
    show ?thesis
    proof (cases "child_at n ?f")
      case None
      then have "walk_gain n (drop i form) prefix sz = walk_gain n ?rest prefix sz"
        by (auto simp: walk_gain_def d walk_entries_Cons_None)
      then show ?thesis
        using "2.IH"(1) [OF True None] "2.prems" analyzeLoop_skip [OF True None] by simp
    next
      case (Some c)
      let ?p = "prefix @ [int32 ?f]"
      let ?e = "\<lparr>fe_Numbers = ?p, fe_Count = int32 (Count c)\<rparr>"
      let ?g1 = "add_entries (\<lambda>j. if j = sz then [?e] else []) groups"
      let ?g2 = "add_entries (walk_gain c ?rest ?p (Suc sz)) ?g1"
      have sz: "sz < length groups" using "2.prems" by linarith
      have app: "append_entry groups sz ?e = Some ?g1" by (rule append_entry_add [OF sz])
      have build: "analyzeBuild c form (Suc i) (Suc sz) maxSize ?g1 ?p = Some ?g2"
        using "2.IH"(2) [OF True Some refl app] "2.prems" by simp
      have loop: "analyzeLoop n form (Suc i) sz maxSize ?g2 prefix =
          Some (add_entries (walk_gain n ?rest prefix sz) ?g2)"
        using "2.IH"(3) [OF True Some refl app build] "2.prems" by simp
      have "walk_gain n (drop i form) prefix sz =
          (\<lambda>j. ((if j = sz then [?e] else []) @ walk_gain c ?rest ?p (Suc sz) j) @ walk_gain n ?rest prefix sz j)"
      proof
        fix j
        consider "j < sz" | "j = sz" | k where "j = Suc (sz + k)"
          by (metis less_iff_Suc_add linorder_neqE_nat)
        then show "walk_gain n (drop i form) prefix sz j =
            ((if j = sz then [?e] else []) @ walk_gain c ?rest ?p (Suc sz) j) @ walk_gain n ?rest prefix sz j"
          by cases (simp_all add: walk_gain_def d walk_entries_Cons_Some [OF Some])
      qed
      then have "add_entries (walk_gain n ?rest prefix sz) ?g2 =
          add_entries (walk_gain n (drop i form) prefix sz) groups"
        by (simp add: add_entries_comp)
      moreover have "analyzeLoop n form i sz maxSize groups prefix =
          analyzeLoop n form (Suc i) sz maxSize ?g2 prefix"
        using True Some app build
        by (subst analyzeLoop.simps) (simp only: if_True option.case Let_def bind.bind_lunit)
      ultimately show ?thesis using loop by simp
    qed
  qed
qed

subsection \<open>The entries of a group\<close>

text \<open>
  The specification: the sub-lists of \<open>k\<close> numbers of the form that ascend strictly within the game's
  range and occur in the draws, each with its count, most frequent first and otherwise in index order.
\<close>

definition form_groups :: "int \<Rightarrow> int list list \<Rightarrow> int list \<Rightarrow> nat \<Rightarrow> int list list" where
  "form_groups L data form k =
     filter (\<lambda>q. sorted_wrt (<) q \<and> set q \<subseteq> {1..L} \<and> 0 < group_count data q) (combs k form)"

definition form_entries :: "int \<Rightarrow> int list list \<Rightarrow> int list \<Rightarrow> nat \<Rightarrow> FrequencyEntry list" where
  "form_entries L data form k =
     map (\<lambda>q. \<lparr>fe_Numbers = map int32 q, fe_Count = int32 (group_count data q)\<rparr>)
       (form_groups L data form k)"

lemma walk_entries_root:
  assumes t: "tree_of L 6 data t" and a: "Anchor t = Some a" and k: "1 \<le> k" "k \<le> 6"
  shows "walk_entries a form [] k = form_entries L data form k"
proof -
  obtain a' where "Anchor t = Some a'" and wf: "wf_node L a'" and num: "Num a' = 0"
    and cnt: "\<And>p. p \<noteq> [] \<Longrightarrow> count_at a' p = (if fits L 0 6 p then group_count data p else 0)"
    using tree_of_anchor [OF t] by metis
  with a have [simp]: "a' = a" by simp
  have at: "node_at a q \<noteq> None \<longleftrightarrow> sorted_wrt (<) q \<and> set q \<subseteq> {1..L} \<and> 0 < group_count data q"
    and ct: "node_at a q \<noteq> None \<Longrightarrow> count_at a q = group_count data q"
    if q: "q \<in> set (combs k form)" for q
  proof -
    have ne: "q \<noteq> []" "length q \<le> 6" using combs_length [OF q] k by auto
    have fit: "fits L 0 6 q \<longleftrightarrow> sorted_wrt (<) q \<and> set q \<subseteq> {1..L}"
      using ne by (simp add: fits_iff subset_iff int_one_le_iff_zero_less Ball_def)
    have "node_at a q \<noteq> None \<longleftrightarrow> 0 < count_at a q"
      using node_at_pos [of L a q] wf ne(1) by (fastforce simp: count_at_def split: option.splits)
    then show "node_at a q \<noteq> None \<longleftrightarrow> sorted_wrt (<) q \<and> set q \<subseteq> {1..L} \<and> 0 < group_count data q"
      using cnt [of q] ne(1) fit by auto
    then show "node_at a q \<noteq> None \<Longrightarrow> count_at a q = group_count data q"
      using cnt [of q] ne(1) fit by simp
  qed
  have "filter (\<lambda>q. node_at a q \<noteq> None) (combs k form) = form_groups L data form k"
    unfolding form_groups_def by (rule filter_cong [OF refl at])
  moreover have "count_at a q = group_count data q" if "q \<in> set (form_groups L data form k)" for q
    using that at ct by (auto simp: form_groups_def)
  ultimately show ?thesis by (simp add: walk_entries_def form_entries_def)
qed

lemma AnalyzeArray_spec:
  assumes t: "tree_of L 6 data t"
  shows "AnalyzeArray t form 6 = Some \<lparr>FrequencyGroups =
      map (\<lambda>j. \<lparr>g_Size = int j + 1, g_Combos = 0,
        g_Entries = sort_key (\<lambda>e. - fe_Count e) (form_entries L data form (Suc j))\<rparr>) [0..<6],
      ar_ArchiveSize = int32 (int (length data))\<rparr>"
proof -
  obtain a where a: "Anchor t = Some a" using t by (auto simp: tree_of_def)
  have len: "length empty_groups = 6" by (simp add: empty_groups_def maxGroupSize_def)
  have size: "int32 (int i + 1) = int i + 1" if "i < 6" for i using that by (intro int32_id) auto
  have "map sort_group (add_entries (walk_gain a form [] 0) empty_groups) =
      map (\<lambda>j. \<lparr>g_Size = int j + 1, g_Combos = 0,
        g_Entries = sort_key (\<lambda>e. - fe_Count e) (form_entries L data form (Suc j))\<rparr>) [0..<6]"
    (is "_ = map ?G _")
  proof (rule nth_equalityI)
    fix j assume "j < length (map sort_group (add_entries (walk_gain a form [] 0) empty_groups))"
    then have j: "j < 6" by (simp add: len)
    then have "empty_groups ! j = \<lparr>g_Size = int j + 1, g_Combos = 0, g_Entries = []\<rparr>"
      by (simp add: empty_groups_def maxGroupSize_def size del: upt_rec_numeral)
    moreover have "walk_gain a form [] 0 j = form_entries L data form (Suc j)"
      using j by (simp add: walk_gain_def walk_entries_root [OF t a])
    ultimately show "map sort_group (add_entries (walk_gain a form [] 0) empty_groups) ! j = map ?G [0..<6] ! j"
      using j by (simp add: len sort_group_def del: upt_rec_numeral)
  qed (simp add: len)
  moreover have "analyzeBuild a form 0 0 6 empty_groups [] =
      Some (add_entries (walk_gain a form [] 0) empty_groups)"
  proof -
    have "int 0 \<le> 6" "6 = int (length empty_groups)" by (simp_all add: len)
    from analyze_walk(1) [OF this, of a form 0 "[]"] show ?thesis by (simp only: drop_0)
  qed
  ultimately show ?thesis using a t by (simp add: AnalyzeArray_def tree_of_def)
qed

lemma AnalyzeForm_spec:
  assumes "archive_of lottery draws a"
  shows "AnalyzeForm a form = Some \<lparr>FrequencyGroups =
      map (\<lambda>j. \<lparr>g_Size = int j + 1,
        g_Combos = int32 (binomialCount (MaxNumberOf lottery) (int j + 1)),
        g_Entries = sort_key (\<lambda>e. - fe_Count e)
          (form_entries (MaxNumberOf lottery) (map d_Numbers draws) form (Suc j))\<rparr>) [0..<6],
      ar_ArchiveSize = int32 (int (length draws))\<rparr>"
proof -
  obtain t where "a_Tree a = Some t" "tree_of (MaxNumberOf lottery) 6 (map d_Numbers draws) t"
    using archive_of_tree [OF assms] by metis
  moreover have "a_Lottery a = lottery" using assms by (simp add: archive_of_def)
  ultimately show ?thesis
    by (simp add: AnalyzeForm_def maxGroupSize_def AnalyzeArray_spec MaxNumber_def comp_def)
qed

subsection \<open>The pair score\<close>

lemma sum_counts_eq:
  "\<forall>e \<in> set es. 0 \<le> fe_Count e \<Longrightarrow> 0 \<le> s \<Longrightarrow> s + (\<Sum>e\<leftarrow>es. fe_Count e) < 2 ^ 63 \<Longrightarrow>
   sum_counts es s = s + (\<Sum>e\<leftarrow>es. fe_Count e)"
proof (induction es arbitrary: s)
  case (Cons e es)
  have "0 \<le> (\<Sum>e\<leftarrow>es. fe_Count e)" using Cons.prems(1) by (auto intro!: sum_list_nonneg)
  then have "int64 (s + fe_Count e) = s + fe_Count e"
    using Cons.prems by (intro int64_id) auto
  then show ?case using Cons.IH [of "s + fe_Count e"] Cons.prems by simp
qed simp

lemma observed_pairs_eq:
  assumes "archive_of lottery draws a"
  shows "observed_pairs a form = Some (sum_counts (sort_key (\<lambda>e. - fe_Count e)
     (form_entries (MaxNumberOf lottery) (map d_Numbers draws) form 2)) 0)"
proof -
  obtain t where "a_Tree a = Some t" "tree_of (MaxNumberOf lottery) 6 (map d_Numbers draws) t"
    using archive_of_tree [OF assms] by metis
  then show ?thesis
    by (simp add: observed_pairs_def maxGroupSize_def AnalyzeArray_spec numeral_2_eq_2 del: upt_rec_numeral)
qed

text \<open>On ascending draws and an ascending form the pair hits count the pairs common to form and draw.\<close>

definition pair_hits :: "int list \<Rightarrow> int list list \<Rightarrow> int" where
  "pair_hits form data = (\<Sum>d\<leftarrow>data. int (card (set form \<inter> set d) choose 2))"

lemma sum_list_indicator: "(\<Sum>x\<leftarrow>xs. if P x then 1 else 0) = int (length (filter P xs))"
  by (induction xs) auto

lemma pair_hits_combs:
  assumes data: "\<forall>d \<in> set data. sorted_wrt (<) d" and form: "sorted_wrt (<) form"
  shows "(\<Sum>q\<leftarrow>combs 2 form. group_count data q) = pair_hits form data"
  using data
proof (induction data)
  case Nil
  then show ?case by (simp add: group_count_def pair_hits_def sum_list_0)
next
  case (Cons d ds)
  have dist: "distinct form" using form by (simp add: strict_sorted_iff)
  have "(\<Sum>q\<leftarrow>combs 2 form. int (occs q d)) = int (length (filter (\<lambda>q. set q \<subseteq> set d) (combs 2 form)))"
  proof -
    have "int (occs q d) = (if set q \<subseteq> set d then 1 else 0)" if "q \<in> set (combs 2 form)" for q
      using occs_ascending [of d q] combs_sorted [OF form that] Cons.prems by simp
    then have "(\<Sum>q\<leftarrow>combs 2 form. int (occs q d)) =
        (\<Sum>q\<leftarrow>combs 2 form. if set q \<subseteq> set d then 1 else 0)"
      by (intro arg_cong [where f = sum_list] map_cong) auto
    also have "\<dots> = int (length (filter (\<lambda>q. set q \<subseteq> set d) (combs 2 form)))"
      by (rule sum_list_indicator)
    finally show ?thesis .
  qed
  also have "\<dots> = int (card (set form \<inter> set d) choose 2)"
    using dist by (simp add: filter_combs_subset length_combs distinct_length_filter Int_commute)
  finally show ?case
    using Cons by (simp add: group_count_def pair_hits_def sum_list_addf)
qed

lemma form_groups_ascending:
  assumes form: "sorted_wrt (<) form" and range: "set form \<subseteq> {1..L}"
  shows "form_groups L data form k = filter (\<lambda>q. 0 < group_count data q) (combs k form)"
  unfolding form_groups_def
  using combs_sorted [OF form] combs_set [of _ k form] range by (intro filter_cong refl) blast

lemma sum_list_filter_pos:
  "(\<And>x. x \<in> set xs \<Longrightarrow> 0 \<le> f x) \<Longrightarrow>
   (\<Sum>x\<leftarrow>filter (\<lambda>x. 0 < f x) xs. f x) = (\<Sum>x\<leftarrow>xs. (f x :: int))"
  by (induction xs) (auto simp: order.order_iff_strict)

lemma pair_hits_bound: "card (set form) \<le> 70 \<Longrightarrow> pair_hits form data \<le> 2415 * int (length data)"
proof (induction data)
  case (Cons d ds)
  have "card (set form \<inter> set d) \<le> 70"
    using Cons.prems card_mono [of "set form" "set form \<inter> set d"] by simp
  then have "card (set form \<inter> set d) * (card (set form \<inter> set d) - 1) div 2 \<le> 70 * 69 div (2::nat)"
    by (intro div_le_mono mult_le_mono) auto
  then have "card (set form \<inter> set d) choose 2 \<le> 2415" by (simp add: choose_two)
  then show ?case using Cons by (simp add: pair_hits_def)
qed (simp add: pair_hits_def)

lemma pair_hits_nonneg: "0 \<le> pair_hits form data"
  by (induction data) (auto simp: pair_hits_def)

lemma group_count_le:
  assumes "\<forall>d \<in> set data. sorted_wrt (<) d" and "sorted_wrt (<) q"
  shows "0 \<le> group_count data q \<and> group_count data q \<le> int (length data)"
  using group_count_ascending [OF assms] by simp

text \<open>The sum over the group of pairs is the number of pairs that the form shares with the draws.\<close>

lemma observed_pairs_hits:
  assumes arch: "archive_of lottery draws a" and data: "\<forall>d \<in> set draws. sorted_wrt (<) (d_Numbers d)"
    and form: "sorted_wrt (<) form" "set form \<subseteq> {1..MaxNumberOf lottery}"
    and len: "length draws < 2 ^ 31"
  shows "observed_pairs a form = Some (pair_hits form (map d_Numbers draws))"
proof -
  let ?L = "MaxNumberOf lottery" and ?data = "map d_Numbers draws"
  let ?es = "form_entries ?L ?data form 2"
  have asc: "\<forall>d \<in> set ?data. sorted_wrt (<) d" using data by simp
  have groups: "form_groups ?L ?data form 2 = filter (\<lambda>q. 0 < group_count ?data q) (combs 2 form)"
    by (rule form_groups_ascending [OF form])
  have count: "int32 (group_count ?data q) = group_count ?data q" if "q \<in> set (combs 2 form)" for q
    using group_count_le [OF asc combs_sorted [OF form(1) that]] len
    by (intro int32_id) simp_all
  have "(\<Sum>e\<leftarrow>?es. fe_Count e) = (\<Sum>q\<leftarrow>filter (\<lambda>q. 0 < group_count ?data q) (combs 2 form). group_count ?data q)"
    unfolding form_entries_def groups map_map comp_def FrequencyEntry.simps
    by (intro arg_cong [where f = sum_list] map_cong refl) (simp add: count)
  also have "\<dots> = (\<Sum>q\<leftarrow>combs 2 form. group_count ?data q)"
    using group_count_le [OF asc] combs_sorted [OF form(1)] by (intro sum_list_filter_pos) blast
  also have "\<dots> = pair_hits form ?data" by (rule pair_hits_combs [OF asc form(1)])
  finally have total: "(\<Sum>e\<leftarrow>?es. fe_Count e) = pair_hits form ?data" .
  have pos: "\<forall>e \<in> set ?es. 0 \<le> fe_Count e"
    by (auto simp: form_entries_def groups count)
  have "card (set form) \<le> card {1..?L}" using form(2) by (intro card_mono) auto
  then have "card (set form) \<le> 70" by (simp add: MaxNumberOf_def split: if_splits)
  from pair_hits_bound [OF this, of ?data] len
  have bound: "pair_hits form ?data < 2 ^ 63" by simp
  have "sum_counts (sort_key (\<lambda>e. - fe_Count e) ?es) 0 = pair_hits form ?data"
    using sum_counts_eq [of "sort_key (\<lambda>e. - fe_Count e) ?es" 0] pos bound total
    by (simp add: sum_list_sort_key)
  then show ?thesis by (simp add: observed_pairs_eq [OF arch])
qed

lemma binomialCount_2: "n \<le> 70 \<Longrightarrow> binomialCount (int n) 2 = int (n choose 2)"
proof -
  assume n: "n \<le> 70"
  have "binomial_safe n 2"
  proof (cases "n = 0")
    case False
    have "n ^ 2 \<le> 70 ^ 2" using n by (rule power_mono) simp
    then have "int (n ^ 2) \<le> int (70 ^ 2)" by (simp only: of_nat_le_iff)
    then have "int (n ^ 2) < 2 ^ 63" by (rule order_le_less_trans) simp
    with False show ?thesis by (intro binomial_safe_power) auto
  qed (simp add: binomial_safe_def)
  then show ?thesis using binomialCount_correct [of n 2] by simp
qed

lemma choose_2_le: "n \<le> 70 \<Longrightarrow> n choose 2 \<le> 2415"
proof -
  assume "n \<le> 70"
  then have "n * (n - 1) div 2 \<le> 70 * 69 div (2::nat)" by (intro div_le_mono mult_le_mono) auto
  then show ?thesis by (simp add: choose_two)
qed

definition expected_pairs :: "int \<Rightarrow> nat \<Rightarrow> nat \<Rightarrow> f64" where
  "expected_pairs L n draws =
     round64 (of_nat (15 * draws * (n choose 2)) / of_nat (nat L choose 2))"

lemma ScoreForm_correct:
  assumes arch: "archive_of lottery draws a" and data: "\<forall>d \<in> set draws. sorted_wrt (<) (d_Numbers d)"
    and form: "sorted_wrt (<) form" "set form \<subseteq> {1..MaxNumberOf lottery}"
    and len: "length draws < 2 ^ 31"
  shows "ScoreForm a form = Some
    \<lparr>Heat = (if flt (Fin 0) (expected_pairs (MaxNumberOf lottery) (length form) (length draws))
       then fdiv (fint (100 * pair_hits form (map d_Numbers draws)))
              (expected_pairs (MaxNumberOf lottery) (length form) (length draws))
       else Fin 0),
     ObservedPairHits = pair_hits form (map d_Numbers draws),
     ExpectedPairHits = expected_pairs (MaxNumberOf lottery) (length form) (length draws),
     sf_Draws = int (length draws),
     PairCount = int (length form choose 2)\<rparr>"
proof -
  let ?n = "length form" and ?L = "MaxNumberOf lottery" and ?d = "length draws"
  let ?h = "pair_hits form (map d_Numbers draws)"
  have "card (set form) \<le> card {1..?L}" using form(2) by (intro card_mono) auto
  then have "card (set form) \<le> 70" by (simp add: MaxNumberOf_def split: if_splits)
  moreover have "card (set form) = ?n" using form(1) by (simp add: strict_sorted_iff distinct_card)
  ultimately have n: "?n \<le> 70" "card (set form) \<le> 70" by simp_all
  have c: "?n choose 2 \<le> 2415" by (rule choose_2_le [OF n(1)])
  have prod: "?d * (?n choose 2) \<le> 2 ^ 31 * 2415" using len c by (intro mult_le_mono) auto
  have size: "ArchiveSize a = int ?d" and lot: "MaxNumber a = ?L"
    using arch by (simp_all add: archive_of_def ArchiveSize_def MaxNumber_def)
  have h: "0 \<le> ?h" "?h \<le> 2415 * 2 ^ 31"
    using pair_hits_nonneg pair_hits_bound [OF n(2), of "map d_Numbers draws"] len by simp_all
  have e1: "f64_of_int (int ?d) = fint (int ?d)" "f64_of_int (int (?n choose 2)) = fint (int (?n choose 2))"
    "f64_of_int ?h = fint ?h"
    using len c h by (intro f64_of_int_exact; simp)+
  have e2: "fmul (fint (int ?d)) (fint (int (?n choose 2))) = fint (int (?d * (?n choose 2)))"
    using prod by (subst fmul_int) (simp_all flip: of_nat_mult)
  have e3: "fmul (fint (int (?d * (?n choose 2)))) (fint 15) = fint (int (15 * ?d * (?n choose 2)))"
    using prod by (subst fmul_int) (simp_all flip: of_nat_mult add: mult.commute mult.left_commute)
  have e4: "f64_of_int 15 = fint 15" by (rule f64_of_int_exact) simp
  have b6: "binomialCount maxGroupSize 2 = 15"
    using binomialCount_2 [of 6] by (simp add: maxGroupSize_def choose_two)
  have bn: "binomialCount (int ?n) 2 = int (?n choose 2)" by (rule binomialCount_2 [OF n(1)])
  have bL: "binomialCount ?L 2 = int (nat ?L choose 2)" "0 < nat ?L choose 2" "nat ?L choose 2 \<le> 2415"
    using binomialCount_2 [of "nat ?L"] by (auto simp: MaxNumberOf_def choose_two)
  have eL: "f64_of_int (int (nat ?L choose 2)) = fint (int (nat ?L choose 2))"
    using bL by (intro f64_of_int_exact) simp
  have expd: "fdiv (fint (int (15 * ?d * (?n choose 2)))) (fint (int (nat ?L choose 2))) =
      expected_pairs ?L ?n ?d"
    using bL(2) by (simp add: expected_pairs_def)
  have e100: "fmul (Fin 100) (fint ?h) = fint (100 * ?h)"
    using fmul_int [of 100 ?h] h by simp
  have d32: "int32 (int ?d) = int ?d" "int32 (int (?n choose 2)) = int (?n choose 2)"
    using len c by (intro int32_id; simp)+
  show ?thesis
    unfolding ScoreForm_def Let_def observed_pairs_hits [OF assms] bn size lot b6 bL(1) e1 e4 eL e2 e3 expd
      e100 d32 bind.bind_lunit ..
qed

end
