(* ===== verification/Form_Generator.thy ===== *)
theory Form_Generator
  imports Archive
begin

section \<open>Generating forms (form_generator.go)\<close>

text \<open>
  The backtracking generator of \<open>internal/lottery-tree/form_generator.go\<close>. The fields of the Go
  struct are the record; every method is a function from the generator to the generator, and
  \<open>None\<close> is a run-time panic (an index past \<open>tries\<close>). The search is modelled with the state it
  threads through both recursive calls, the alternating bit \<open>caseL\<close> included.

  \<open>search_False\<close> shows that a failed search leaves the generator as it found it up to that bit, and
  \<open>search_ok\<close> that the search does not panic while the fixed prefix is no longer than the form.
  \<open>Generate_invariant\<close> collects what holds of every form that is returned.
\<close>

definition minFormSize :: int where "minFormSize = 6"

record FormGenerator =
  g_archive :: LotteryArchive
  formType :: nat
  g_mode :: string
  tries :: "int list"
  g_strong :: int
  results :: "int list list"
  seen :: "(64 word \<times> bool) list"
  skip :: nat
  caseL :: nat

definition NewFormGenerator :: "LotteryArchive \<Rightarrow> int \<Rightarrow> string \<Rightarrow> FormGenerator" where
  "NewFormGenerator a ft mode =
     (let ft = (if ft < minFormSize then minFormSize else ft) in
      \<lparr>g_archive = a, formType = nat ft, g_mode = mode, tries = [], g_strong = 0, results = [],
       seen = [], skip = 0, caseL = 0\<rparr>)"

definition swap_nth :: "nat \<Rightarrow> nat \<Rightarrow> 'a list \<Rightarrow> 'a list" where
  "swap_nth i j xs = xs[i := xs ! j, j := xs ! i]"

definition leading :: "FormGenerator \<Rightarrow> int list" where
  "leading g =
     (let sz = (if length (tries g) < formType g then length (tries g) else formType g)
      in take sz (tries g))"

definition notInResults :: "FormGenerator \<Rightarrow> bool" where
  "notInResults g \<longleftrightarrow> \<not> map_get (seen g) (ComboMask (leading g))"

fun noneWon :: "LotteryArchive \<Rightarrow> int list list \<Rightarrow> bool" where
  "noneWon a [] = True"
| "noneWon a (combo # cs) = (if HasWon a combo then False else noneWon a cs)"

definition allFormsCheck :: "FormGenerator \<Rightarrow> bool option" where
  "allFormsCheck g =
     Option.bind (GenerateCombinations (leading g) minFormSize) (\<lambda>cs. Some (noneWon (g_archive g) cs))"

text \<open>Both recursive calls read \<open>caseL\<close> as it is when their arguments are evaluated.\<close>

definition flip_case :: "FormGenerator \<Rightarrow> FormGenerator" where
  "flip_case g = g\<lparr>caseL := (caseL g + 1) mod 2\<rparr>"

definition swap_tries :: "nat \<Rightarrow> nat \<Rightarrow> FormGenerator \<Rightarrow> FormGenerator" where
  "swap_tries i j g = g\<lparr>tries := swap_nth i j (tries g)\<rparr>"

definition candidate_ok :: "FormGenerator \<Rightarrow> bool option" where
  "candidate_ok g = (if notInResults g then allFormsCheck g else Some False)"

function search :: "nat \<Rightarrow> nat \<Rightarrow> FormGenerator \<Rightarrow> (bool \<times> FormGenerator) option" where
  "search start check g =
     (let g = flip_case g in
      Option.bind (candidate_ok g) (\<lambda>ok.
      if ok then Some (True, g)
      else if start = formType g \<or> check = length (tries g) then Some (False, g)
      else if start < length (tries g) \<and> check < length (tries g) then
        let g = swap_tries start check g in
        Option.bind (search (start + (caseL g + 1) mod 2) (check + caseL g) g) (\<lambda>(found, g).
        if found then Some (True, g)
        else
          Option.bind (search (start + caseL g) (check + (caseL g + 1) mod 2) g) (\<lambda>(found, g).
          if found then Some (True, g) else Some (False, swap_tries start check g)))
      else None))"
  by pat_completeness auto

lemma swap_nth_length [simp]: "length (swap_nth i j xs) = length xs"
  by (simp add: swap_nth_def)

lemma swap_tries_sel [simp]:
  "length (tries (swap_tries i j g)) = length (tries g)" "caseL (swap_tries i j g) = caseL g"
  "formType (swap_tries i j g) = formType g" "seen (swap_tries i j g) = seen g"
  "g_archive (swap_tries i j g) = g_archive g"
  by (simp_all add: swap_tries_def)

lemma flip_case_sel [simp]:
  "tries (flip_case g) = tries g" "caseL (flip_case g) = (caseL g + 1) mod 2"
  "formType (flip_case g) = formType g" "seen (flip_case g) = seen g"
  "g_archive (flip_case g) = g_archive g"
  by (simp_all add: flip_case_def)

text \<open>
  The ways one call returns, for any function in the place of the recursive calls: used with the
  partial equation for termination and with the total one afterwards.
\<close>

lemma search_body_cases:
  assumes "(let g = flip_case g in
      Option.bind (candidate_ok g) (\<lambda>ok.
      if ok then Some (True, g)
      else if start = formType g \<or> check = length (tries g) then Some (False, g)
      else if start < length (tries g) \<and> check < length (tries g) then
        let g = swap_tries start check g in
        Option.bind (F (start + (caseL g + 1) mod 2) (check + caseL g) g) (\<lambda>(found, g).
        if found then Some (True, g)
        else
          Option.bind (F (start + caseL g) (check + (caseL g + 1) mod 2) g) (\<lambda>(found, g).
          if found then Some (True, g) else Some (False, swap_tries start check g)))
      else None)) = Some r"
  obtains
    (hit) "candidate_ok (flip_case g) = Some True" "r = (True, flip_case g)"
  | (stop) "candidate_ok (flip_case g) = Some False"
      "start = formType g \<or> check = length (tries g)" "r = (False, flip_case g)"
  | (first) h g1 where "candidate_ok (flip_case g) = Some False"
      "start \<noteq> formType g" "start < length (tries g)" "check < length (tries g)"
      "h = swap_tries start check (flip_case g)"
      "F (start + (caseL h + 1) mod 2) (check + caseL h) h = Some (True, g1)" "r = (True, g1)"
  | (second) h g1 b g2 where "candidate_ok (flip_case g) = Some False"
      "start \<noteq> formType g" "start < length (tries g)" "check < length (tries g)"
      "h = swap_tries start check (flip_case g)"
      "F (start + (caseL h + 1) mod 2) (check + caseL h) h = Some (False, g1)"
      "F (start + caseL g1) (check + (caseL g1 + 1) mod 2) g1 = Some (b, g2)"
      "r = (b, if b then g2 else swap_tries start check g2)"
proof -
  let ?h = "swap_tries start check (flip_case g)"
  from assms obtain ok where ok: "candidate_ok (flip_case g) = Some ok"
    by (auto simp: bind_eq_Some_conv Let_def)
  show thesis
  proof (cases "ok \<or> start = formType g \<or> check = length (tries g)")
    case True
    then show thesis using assms ok hit stop by (cases ok) (auto simp: Let_def)
  next
    case False
    note * = assms [unfolded Let_def ok bind.bind_lunit]
    have range: "start < length (tries g)" "check < length (tries g)"
      using * False by (auto split: if_splits)
    obtain b1 g1 where b1: "F (start + (caseL ?h + 1) mod 2) (check + caseL ?h) ?h = Some (b1, g1)"
      using * False range by (auto simp: bind_eq_Some_conv simp del: swap_tries_sel(2) flip_case_sel(2) split: if_splits)
    show thesis
    proof (cases b1)
      case True
      then have "r = (True, g1)" using * False range b1 by (simp del: swap_tries_sel(2) flip_case_sel(2))
      with False True ok range b1 show thesis by (intro first [of ?h g1]) auto
    next
      case b: False
      note ** = * [unfolded b1 bind.bind_lunit]
      obtain b2 g2 where b2: "F (start + caseL g1) (check + (caseL g1 + 1) mod 2) g1 = Some (b2, g2)"
        using ** False range b by (auto simp: bind_eq_Some_conv split: if_splits)
      then have "r = (b2, if b2 then g2 else swap_tries start check g2)"
        using ** False range b by auto
      with False b ok range b1 b2 show thesis by (intro second [of ?h g1 b2 g2]) auto
    qed
  qed
qed

text \<open>The recursion ends: no call changes the length of \<open>tries\<close>, and each call advances one cursor.\<close>

lemma search_dom_frame:
  "search_dom (start, check, g) \<Longrightarrow> search start check g = Some (b, g') \<Longrightarrow>
   length (tries g') = length (tries g) \<and> caseL g' < 2"
proof (induction start check g arbitrary: b g' rule: search.pinduct)
  case (1 start check g)
  from 1(4) show ?case
    unfolding search.psimps [OF 1(1)]
  proof (cases rule: search_body_cases)
    case (first h g1)
    have "length (tries g1) = length (tries h) \<and> caseL g1 < 2"
      by (rule 1(2) [where x = "flip_case g" and a = False and b = True]) (use first in auto)
    then show ?thesis using first by simp
  next
    case (second h g1 b' g2)
    have 2: "length (tries g1) = length (tries h) \<and> caseL g1 < 2"
      by (rule 1(2) [where x = "flip_case g" and a = False and b = False]) (use second in auto)
    have "length (tries g2) = length (tries g1) \<and> caseL g2 < 2"
      by (rule 1(3) [where x = "flip_case g" and a = False and xb = False and xa = h and b = b'])
        (use second in auto)
    then have "length (tries g2) = length (tries g) \<and> caseL g2 < 2" using 2 second(5) by simp
    then show ?thesis using second(8) by (auto split: if_splits)
  qed auto
qed

termination search
proof (relation "measure (\<lambda>(start, check, g). (length (tries g) - start) + (length (tries g) - check))",
    goal_cases)
  case (2 start check g x a xa)
  then have "caseL xa = 0 \<or> caseL xa = 1" by auto
  with 2 show ?case by auto
next
  case (3 start check g x a xa aa xb y)
  then have "length (tries y) = length (tries g) \<and> caseL y < 2"
    using search_dom_frame [of _ _ xa xb y] by auto
  moreover from this have "caseL y = 0 \<or> caseL y = 1" by auto
  ultimately show ?case using 3 by auto
qed simp

declare search.simps [simp del]

lemmas search_cases = search_body_cases [where F = search, folded search.simps, consumes 1, case_names hit stop first second]

subsection \<open>The other methods\<close>

text \<open>
  \<open>regroup\<close>: for each wanted number, the first position from \<open>start\<close> on that holds it is swapped to
  \<open>start\<close>.
\<close>

fun find_from :: "'a list \<Rightarrow> 'a \<Rightarrow> nat \<Rightarrow> nat \<Rightarrow> nat option" where
  "find_from xs want j 0 = None"
| "find_from xs want j (Suc m) = (if xs ! j = want then Some j else find_from xs want (Suc j) m)"

fun regroupLoop :: "int list \<Rightarrow> nat \<Rightarrow> int list \<Rightarrow> int list \<times> nat" where
  "regroupLoop ts start [] = (ts, start)"
| "regroupLoop ts start (want # ws) =
     (case find_from ts want start (length ts - start) of
        None \<Rightarrow> regroupLoop ts start ws
      | Some j \<Rightarrow> regroupLoop (swap_nth start j ts) (Suc start) ws)"

definition regroup :: "int list \<Rightarrow> FormGenerator \<Rightarrow> FormGenerator" where
  "regroup willBe g =
     (let g = g\<lparr>skip := 0\<rparr> in
      if length willBe = 0 then g
      else let (ts, start) = regroupLoop (tries g) 0 willBe in g\<lparr>tries := ts, skip := start\<rparr>)"

definition addResult :: "FormGenerator \<Rightarrow> bool \<times> FormGenerator" where
  "addResult g =
     (let lead = leading g in
      if length lead = 0 then (False, g)
      else
        let combo = sort lead; m = ComboMask combo in
        if map_get (seen g) m then (False, g)
        else (True, g\<lparr>seen := AList.update m True (seen g),
                results := results g @ [combo @ [g_strong g]]\<rparr>))"

text \<open>
  The loop of \<open>Generate\<close>, \<open>m\<close> iterations to go. \<open>copy(g.tries, ranked)\<close> copies the common length;
  both have length \<open>len(ranked)\<close> there.
\<close>

definition copy_into :: "'a list \<Rightarrow> 'a list \<Rightarrow> 'a list" where
  "copy_into dst src = take (length dst) src @ drop (length src) dst"

fun generateLoop :: "nat \<Rightarrow> int list \<Rightarrow> int list \<Rightarrow> FormGenerator \<Rightarrow> FormGenerator option" where
  "generateLoop 0 ranked willBe g = Some g"
| "generateLoop (Suc m) ranked willBe g =
     (let g = regroup willBe (g\<lparr>tries := copy_into (tries g) ranked\<rparr>) in
      Option.bind (search (skip g) (formType g) g) (\<lambda>(_, g).
      let (added, g) = addResult g in
      if \<not> added then Some g else generateLoop m ranked willBe g))"

definition Generate :: "int \<Rightarrow> int list \<Rightarrow> FormGenerator \<Rightarrow> (int list list \<times> FormGenerator) option" where
  "Generate howMany willBe g =
     (if howMany \<le> 0 then Some ([], g)
      else Option.bind (RankNumbers (g_archive g) (g_mode g)) (\<lambda>ranked.
        let g = g\<lparr>g_strong := TopStrong (g_archive g) (g_mode g)\<rparr> in
        if length ranked < formType g then Some ([], g)
        else
          Option.bind (generateLoop (nat howMany) ranked willBe
              (g\<lparr>tries := replicate (length ranked) 0, results := [], seen := []\<rparr>))
            (\<lambda>g. Some (results g, g))))"

subsection \<open>What a search leaves behind\<close>

lemma swap_nth_twice: "i < length xs \<Longrightarrow> j < length xs \<Longrightarrow> swap_nth i j (swap_nth i j xs) = xs"
  by (rule nth_equalityI) (auto simp: swap_nth_def nth_list_update)

lemma mset_swap_nth: "i < length xs \<Longrightarrow> j < length xs \<Longrightarrow> mset (swap_nth i j xs) = mset xs"
  unfolding swap_nth_def by (rule mset_swap)

lemma take_swap_nth: "k \<le> i \<Longrightarrow> k \<le> j \<Longrightarrow> take k (swap_nth i j xs) = take k xs"
  by (simp add: swap_nth_def)

text \<open>A failed search restores everything and flips the alternating bit.\<close>

lemma search_False:
  "search start check g = Some (False, g') \<Longrightarrow> g' = g\<lparr>caseL := (caseL g + 1) mod 2\<rparr>"
proof (induction start check g arbitrary: g' rule: search.induct)
  case (1 start check g)
  from 1(3) show ?case
  proof (cases rule: search_cases)
    case (second h g1 b g2)
    have g1: "g1 = h\<lparr>caseL := (caseL h + 1) mod 2\<rparr>"
      by (rule 1(1) [where x = "flip_case g" and a = False]) (use second in auto)
    have g2: "g2 = g1\<lparr>caseL := (caseL g1 + 1) mod 2\<rparr>"
      by (rule 1(2) [where x = "flip_case g" and a = False and xb = False and xa = h]) (use second in auto)
    have "tries (swap_tries start check g2) = tries g"
      using second g1 g2 by (simp add: swap_tries_def flip_case_def swap_nth_twice)
    moreover have "(((caseL g + 1) mod 2 + 1) mod 2 + 1) mod 2 = (caseL g + 1) mod 2" by presburger
    ultimately have "swap_tries start check g2 = g\<lparr>caseL := (caseL g + 1) mod 2\<rparr>"
      using second(5) g1 g2 by (simp add: swap_tries_def flip_case_def)
    with second show ?thesis by auto
  qed (auto simp: flip_case_def)
qed

definition same_request :: "FormGenerator \<Rightarrow> FormGenerator \<Rightarrow> bool" where
  "same_request g' g \<longleftrightarrow> g' = g\<lparr>tries := tries g', caseL := caseL g'\<rparr>"

lemma same_request_trans: "same_request f g \<Longrightarrow> same_request g h \<Longrightarrow> same_request f h"
  by (cases f; cases g; cases h) (simp add: same_request_def)

lemma same_request_sel:
  "same_request f g \<Longrightarrow> formType f = formType g \<and> g_archive f = g_archive g \<and> seen f = seen g \<and>
   results f = results g \<and> g_strong f = g_strong g \<and> skip f = skip g"
  by (cases f; cases g) (simp add: same_request_def)

text \<open>A successful search has permuted \<open>tries\<close> behind the fixed prefix, and its candidate passes.\<close>

lemma search_True:
  "search start check g = Some (True, g') \<Longrightarrow> start \<le> formType g \<Longrightarrow> formType g \<le> check \<Longrightarrow>
   candidate_ok g' = Some True \<and> mset (tries g') = mset (tries g) \<and>
   take start (tries g') = take start (tries g) \<and> same_request g' g"
proof (induction start check g arbitrary: g' rule: search.induct)
  case (1 start check g)
  have sub: "candidate_ok g' = Some True \<and> mset (tries g') = mset (tries g) \<and>
      take start (tries g') = take start (tries g) \<and> same_request g' g"
    if "candidate_ok g' = Some True \<and> mset (tries g') = mset (tries h) \<and>
        take start' (tries g') = take start' (tries h) \<and> same_request g' h"
      and h: "tries h = swap_nth start check (tries g)" "same_request h g" and s: "start \<le> start'"
      and r: "start < length (tries g)" "check < length (tries g)" for g' h start'
  proof -
    have "take start (tries g') = take start (take start' (tries g'))" using s by (simp add: min_def)
    also have "\<dots> = take start (tries h)" using that(1) s by (simp add: min_def)
    also have "\<dots> = take start (tries g)" using h 1(4,5) by (simp add: take_swap_nth)
    finally have "take start (tries g') = take start (tries g)" .
    moreover have "mset (tries g') = mset (tries g)" using that(1) h r by (simp add: mset_swap_nth)
    moreover have "same_request g' g"
      using that(1) h(2) same_request_trans by blast
    ultimately show ?thesis using that(1) by blast
  qed
  from 1(3) show ?case
  proof (cases rule: search_cases)
    case hit
    then show ?thesis by (auto simp: same_request_def flip_case_def)
  next
    case (first h g1)
    have "start < formType g" using first(2) 1(4) by simp
    then have "candidate_ok g1 = Some True \<and> mset (tries g1) = mset (tries h) \<and>
        take (start + (caseL h + 1) mod 2) (tries g1) = take (start + (caseL h + 1) mod 2) (tries h) \<and>
        same_request g1 h"
      by (intro 1(1) [where x = "flip_case g" and a = False]) (use first 1(4,5) in auto)
    from sub [OF this] first show ?thesis
      by (simp add: swap_tries_def flip_case_def same_request_def)
  next
    case (second h g1 b g2)
    have b: b and g2: "g2 = g'" using second(8) by (auto split: if_splits)
    have g1: "g1 = h\<lparr>caseL := (caseL h + 1) mod 2\<rparr>" by (rule search_False [OF second(6)])
    then have c: "caseL g1 = 0 \<or> caseL g1 = 1" "formType g1 = formType g" using second(5) by auto
    have "start < formType g" using second(2) 1(4) by simp
    then have "candidate_ok g2 = Some True \<and> mset (tries g2) = mset (tries g1) \<and>
        take (start + caseL g1) (tries g2) = take (start + caseL g1) (tries g1) \<and> same_request g2 g1"
      by (intro 1(2) [where x = "flip_case g" and a = False and xb = False and xa = h])
        (use second b c 1(4,5) in auto)
    from sub [OF this] second g1 show ?thesis
      unfolding g2 by (simp add: swap_tries_def flip_case_def same_request_def)
  qed auto
qed

subsection \<open>No panic\<close>

lemma length_leading [simp]: "length (leading g) = min (formType g) (length (tries g))"
  by (simp add: leading_def Let_def)

lemma leading_take: "leading g = take (formType g) (tries g)"
  by (simp add: leading_def Let_def)

lemma combinations_safe: "length xs \<le> 70 \<Longrightarrow> GenerateCombinations xs 6 = Some (combs 6 xs)"
proof -
  assume n: "length xs \<le> 70"
  have "binomial_safe (length xs) (nat 6)"
  proof (cases "xs = []")
    case False
    have "length xs ^ 6 \<le> 70 ^ 6" using n by (rule power_mono) simp
    then have "int (length xs ^ 6) \<le> int (70 ^ 6)" by (simp only: of_nat_le_iff)
    then have "int (length xs ^ 6) < 2 ^ 63" by (rule order_le_less_trans) simp
    with False show ?thesis by (intro binomial_safe_power) auto
  qed (simp add: binomial_safe_def)
  then show ?thesis by (simp add: GenerateCombinations_combs)
qed

lemma noneWon_iff: "noneWon a cs \<longleftrightarrow> (\<forall>c \<in> set cs. \<not> HasWon a c)"
  by (induction cs) auto

lemma candidate_ok_eq:
  "length (tries g) \<le> 70 \<Longrightarrow> candidate_ok g = Some
     (notInResults g \<and> (\<forall>c \<in> set (combs 6 (leading g)). \<not> HasWon (g_archive g) c))"
  by (auto simp: candidate_ok_def allFormsCheck_def minFormSize_def combinations_safe noneWon_iff)

lemma search_ok:
  "start \<le> formType g \<Longrightarrow> formType g \<le> check \<Longrightarrow> check \<le> length (tries g) \<Longrightarrow>
   length (tries g) \<le> 70 \<Longrightarrow> \<exists>b g'. search start check g = Some (b, g')"
proof (induction start check g rule: search.induct)
  case (1 start check g)
  let ?h = "swap_tries start check (flip_case g)"
  obtain ok where ok: "candidate_ok (flip_case g) = Some ok"
    using 1(6) by (simp add: candidate_ok_eq)
  show ?case
  proof (cases "ok \<or> start = formType g \<or> check = length (tries g)")
    case True
    then show ?thesis by (cases ok) (auto simp: search.simps [of start] ok)
  next
    case False
    then have r: "start < formType g" "start < length (tries g)" "check < length (tries g)"
      using 1(3-5) by auto
    have c: "caseL ?h = 0 \<or> caseL ?h = 1" by auto
    have "\<exists>b g'. search (start + (caseL ?h + 1) mod 2) (check + caseL ?h) ?h = Some (b, g')"
      by (rule 1(1) [where x = "flip_case g" and a = False]) (use False ok r c 1(3-6) in auto)
    then obtain b1 g1 where g1: "search (start + (caseL ?h + 1) mod 2) (check + caseL ?h) ?h = Some (b1, g1)"
      by blast
    show ?thesis
    proof (cases b1)
      case True
      then show ?thesis using False r
        unfolding search.simps [of start check g] Let_def ok bind.bind_lunit g1 by auto
    next
      case b: False
      then have s: "g1 = ?h\<lparr>caseL := (caseL ?h + 1) mod 2\<rparr>" using g1 by (intro search_False) simp
      then have c1: "caseL g1 = 0 \<or> caseL g1 = 1" "formType g1 = formType g"
        "length (tries g1) = length (tries g)" by auto
      have "\<exists>b g'. search (start + caseL g1) (check + (caseL g1 + 1) mod 2) g1 = Some (b, g')"
        by (rule 1(2) [where x = "flip_case g" and a = False and xb = False and xa = ?h])
          (use False b ok r c1 g1 1(3-6) in auto)
      then obtain b2 g2 where g2: "search (start + caseL g1) (check + (caseL g1 + 1) mod 2) g1 = Some (b2, g2)"
        by blast
      show ?thesis using False b r
        unfolding search.simps [of start check g] Let_def ok bind.bind_lunit g1 prod.case g2 by auto
    qed
  qed
qed

subsection \<open>The wanted numbers\<close>

lemma find_from_Some: "find_from xs w j m = Some k \<Longrightarrow> j \<le> k \<and> k < j + m \<and> xs ! k = w"
  by (induction m arbitrary: j) (auto split: if_splits, fastforce+)

lemma find_from_None: "find_from xs w j m = None \<Longrightarrow> j \<le> k \<Longrightarrow> k < j + m \<Longrightarrow> xs ! k \<noteq> w"
proof (induction m arbitrary: j)
  case (Suc m)
  then show ?case by (cases "j = k") (auto split: if_splits)
qed simp

lemma regroupLoop_spec:
  "regroupLoop ts start ws = (ts', s') \<Longrightarrow> distinct ts \<Longrightarrow> start \<le> length ts \<Longrightarrow>
   mset ts' = mset ts \<and> s' \<le> length ts \<and>
   set (take s' ts') = set (take start ts) \<union> (set ws \<inter> set ts)"
proof (induction ts start ws rule: regroupLoop.induct)
  case (2 ts start want ws)
  show ?case
  proof (cases "find_from ts want start (length ts - start)")
    case None
    have "want \<notin> set (drop start ts)"
    proof
      assume "want \<in> set (drop start ts)"
      then obtain i where "i < length ts - start" "want = ts ! (start + i)"
        by (auto simp: in_set_conv_nth)
      then have "ts ! (start + i) \<noteq> want" using "2.prems"(3) by (intro find_from_None [OF None]) auto
      with \<open>want = ts ! (start + i)\<close> show False by simp
    qed
    then have "want \<in> set ts \<Longrightarrow> want \<in> set (take start ts)"
      by (metis Un_iff append_take_drop_id set_append)
    then show ?thesis using 2 None by auto
  next
    case (Some j)
    then have j: "start \<le> j" "j < length ts" "ts ! j = want"
      using find_from_Some [OF Some] "2.prems"(3) by auto
    let ?ts = "swap_nth start j ts"
    have m: "mset ?ts = mset ts" using j by (intro mset_swap_nth) auto
    then have same: "set ?ts = set ts" "distinct ?ts" "length ?ts = length ts"
      using "2.prems"(2) by (auto dest: mset_eq_setD mset_eq_imp_distinct_iff)
    have "?ts ! start = want" using j by (auto simp: swap_nth_def nth_list_update)
    then have "set (take (Suc start) ?ts) = insert want (set (take start ts))"
      using j by (simp add: take_Suc_conv_app_nth take_swap_nth)
    then show ?thesis
      using 2(2) [OF Some] "2.prems" j Some same m by auto
  qed
qed auto

lemma regroup_spec:
  assumes "distinct (tries g)"
  shows "\<exists>ts s. regroup willBe g = g\<lparr>tries := ts, skip := s\<rparr> \<and> mset ts = mset (tries g) \<and>
    s \<le> length ts \<and> set (take s ts) = set willBe \<inter> set (tries g) \<and>
    s = card (set willBe \<inter> set (tries g))"
proof -
  obtain ts s where r: "regroupLoop (tries g) 0 willBe = (ts, s)" by fastforce
  from regroupLoop_spec [OF this assms] have ts: "mset ts = mset (tries g)" "s \<le> length ts"
    "set (take s ts) = set willBe \<inter> set (tries g)"
    by (auto dest: mset_eq_length)
  have "distinct ts" using ts(1) assms mset_eq_imp_distinct_iff by blast
  then have "card (set (take s ts)) = s" using ts(2) by (simp add: distinct_card)
  moreover have "regroup willBe g = g\<lparr>tries := ts, skip := s\<rparr>"
    using r by (cases g) (auto simp: regroup_def Let_def)
  ultimately show ?thesis using ts by auto
qed

subsection \<open>The generated forms\<close>

text \<open>
  \<open>is_form\<close>: the form's numbers ascend, are ranked numbers, number \<open>ft\<close>, contain every wanted number
  that is ranked, and are followed by the strong number. \<open>wins\<close>: the six numbers of a complete draw
  are among them.
\<close>

definition is_form :: "int list \<Rightarrow> int list \<Rightarrow> nat \<Rightarrow> int \<Rightarrow> int list \<Rightarrow> bool" where
  "is_form ranked willBe ft strong f \<longleftrightarrow>
     (\<exists>ns. f = ns @ [strong] \<and> sorted_wrt (<) ns \<and> length ns = ft \<and> set ns \<subseteq> set ranked \<and>
       set willBe \<inter> set ranked \<subseteq> set ns)"

definition wins :: "LotteryResult list \<Rightarrow> int list \<Rightarrow> bool" where
  "wins draws f \<longleftrightarrow> (\<exists>d \<in> set draws. 6 \<le> length (d_Numbers d) \<and> distinct (take 6 (d_Numbers d)) \<and>
     set (take 6 (d_Numbers d)) \<subseteq> set (butlast f))"

text \<open>The candidate every search starts from: the wanted numbers first, then the ranking.\<close>

definition first_candidate :: "int list \<Rightarrow> int list \<Rightarrow> nat \<Rightarrow> int list" where
  "first_candidate ranked willBe ft = sort (take ft (fst (regroupLoop ranked 0 willBe)))"

definition gen_inv :: "LotteryArchive \<Rightarrow> int list \<Rightarrow> int list \<Rightarrow> LotteryResult list \<Rightarrow> FormGenerator \<Rightarrow> bool" where
  "gen_inv a ranked willBe draws g \<longleftrightarrow>
     g_archive g = a \<and> length (tries g) = length ranked \<and>
     (\<forall>f \<in> set (results g). is_form ranked willBe (formType g) (g_strong g) f \<and>
        (wins draws f \<longrightarrow> butlast f = first_candidate ranked willBe (formType g))) \<and>
     (\<forall>m. map_get (seen g) m \<longleftrightarrow> m \<in> (\<lambda>f. ComboMask (butlast f)) ` set (results g)) \<and>
     distinct (results g)"

lemma not_wins:
  assumes a: "archive_of lottery draws a" and ns: "sorted_wrt (<) ns"
    and ok: "\<forall>c \<in> set (combs 6 ns'). \<not> HasWon a c" and eq: "set ns' = set ns" "distinct ns'"
  shows "\<not> wins draws (ns @ [strong])"
proof
  assume "wins draws (ns @ [strong])"
  then obtain d where d: "d \<in> set draws" "6 \<le> length (d_Numbers d)" "distinct (take 6 (d_Numbers d))"
    "set (take 6 (d_Numbers d)) \<subseteq> set ns" by (auto simp: wins_def)
  let ?S = "set (take 6 (d_Numbers d))"
  let ?c = "filter (\<lambda>x. x \<in> ?S) ns'"
  have set: "set ?c = ?S" using d(4) eq(1) by auto
  have "length ?c = 6" using set eq(2) d(2,3) distinct_card [of ?c] distinct_card [OF d(3)] by simp
  then have "?c \<in> set (filter (\<lambda>q. set q \<subseteq> ?S) (combs 6 ns'))"
    using combs_full [of ?c] by (simp only: filter_combs_subset) simp
  then have "\<not> HasWon a ?c" using ok by auto
  moreover have "HasWon a ?c" using HasWon_mask [OF a] d(1,2) set by auto
  ultimately show False ..
qed

lemma addResult_inv:
  assumes g: "gen_inv a ranked willBe draws g" and perm: "mset (tries g) = mset ranked"
    and dist: "distinct ranked" and ft: "0 < formType g" "formType g \<le> length ranked"
    and want: "set willBe \<inter> set ranked \<subseteq> set (leading g)"
    and win: "wins draws (sort (leading g) @ [g_strong g]) \<Longrightarrow>
       sort (leading g) = first_candidate ranked willBe (formType g)"
  shows "gen_inv a ranked willBe draws (snd (addResult g)) \<and>
    length (results (snd (addResult g))) \<le> Suc (length (results g)) \<and>
    formType (snd (addResult g)) = formType g \<and> g_strong (snd (addResult g)) = g_strong g"
proof -
  let ?m = "ComboMask (sort (leading g))" and ?f = "sort (leading g) @ [g_strong g]"
  have len: "length (leading g) = formType g" using g ft by (simp add: gen_inv_def)
  have dl: "distinct (leading g)"
    using perm dist mset_eq_imp_distinct_iff [OF perm] by (simp add: leading_take)
  have sub: "set (leading g) \<subseteq> set ranked"
    using mset_eq_setD [OF perm] set_take_subset by (fastforce simp: leading_take)
  have form: "is_form ranked willBe (formType g) (g_strong g) ?f"
    using len dl sub want by (auto simp: is_form_def strict_sorted_iff)
  have "leading g \<noteq> []" using len ft by (metis length_greater_0_conv)
  show ?thesis
  proof (cases "map_get (seen g) ?m")
    case True
    then show ?thesis using g \<open>leading g \<noteq> []\<close> by (simp add: addResult_def Let_def)
  next
    case False
    then have "?m \<notin> (\<lambda>f. ComboMask (butlast f)) ` set (results g)" using g by (simp add: gen_inv_def)
    then have new: "?f \<notin> set (results g)" by (metis butlast_snoc imageI)
    have up: "map_get (AList.update ?m True (seen g)) m \<longleftrightarrow> map_get (seen g) m \<or> m = ?m" for m
      by (simp add: map_get_def update_conv)
    show ?thesis
      using g \<open>leading g \<noteq> []\<close> False new form win
      by (auto simp: addResult_def Let_def gen_inv_def up)
  qed
qed

lemma generateLoop_inv:
  assumes a: "archive_of lottery draws a" and dist: "distinct ranked" "length ranked \<le> 70"
    and want: "card (set willBe \<inter> set ranked) \<le> formType g"
    and ft: "0 < formType g" "formType g \<le> length ranked"
    and g: "gen_inv a ranked willBe draws g"
  shows "\<exists>g'. generateLoop n ranked willBe g = Some g' \<and> gen_inv a ranked willBe draws g' \<and>
    length (results g') \<le> n + length (results g) \<and> formType g' = formType g \<and> g_strong g' = g_strong g"
  using want ft g
proof (induction n arbitrary: g)
  case (Suc n)
  let ?g0 = "g\<lparr>tries := ranked\<rparr>"
  obtain ts s where r: "regroup willBe ?g0 = ?g0\<lparr>tries := ts, skip := s\<rparr>" "mset ts = mset ranked"
    "set (take s ts) = set willBe \<inter> set ranked" "s = card (set willBe \<inter> set ranked)"
    "s \<le> length ts"
    using regroup_spec [of ?g0 willBe] dist(1) by auto
  let ?g1 = "?g0\<lparr>tries := ts, skip := s\<rparr>"
  have ts: "ts = fst (regroupLoop ranked 0 willBe)"
  proof (cases willBe)
    case Nil
    then show ?thesis using r(1) by (cases g) (simp add: regroup_def Let_def)
  next
    case (Cons w ws)
    then show ?thesis using r(1)
      by (cases g) (auto simp: regroup_def Let_def simp del: regroupLoop.simps split: prod.splits)
  qed
  have copy: "copy_into (tries g) ranked = ranked"
    using Suc.prems(4) by (simp add: copy_into_def gen_inv_def)
  have lents: "length ts = length ranked" using r(2) by (rule mset_eq_length)
  have sf: "s \<le> formType g" using Suc.prems(1) r(4) by simp
  obtain b g2 where g2: "search s (formType g) ?g1 = Some (b, g2)"
    using search_ok [of s ?g1 "formType g"] sf Suc.prems(3) lents dist(2) by auto
  have g2': "same_request g2 ?g1 \<and> mset (tries g2) = mset ranked \<and>
      set willBe \<inter> set ranked \<subseteq> set (leading g2) \<and>
      (wins draws (sort (leading g2) @ [g_strong g2]) \<longrightarrow>
         sort (leading g2) = first_candidate ranked willBe (formType g))"
  proof (cases b)
    case True
    note t = search_True [of s "formType g" ?g1 g2]
    have *: "candidate_ok g2 = Some True" "mset (tries g2) = mset ranked" "take s (tries g2) = take s ts"
      "same_request g2 ?g1"
      using t g2 True sf r(2) by auto
    have same: "formType g2 = formType g" "g_archive g2 = a" "g_strong g2 = g_strong g"
      using same_request_sel [OF *(4)] Suc.prems(4) by (simp_all add: gen_inv_def)
    have len: "length (tries g2) \<le> 70" using dist(2) mset_eq_length [OF *(2)] by simp
    have "distinct (leading g2)"
      using dist(1) mset_eq_imp_distinct_iff [OF *(2)] by (simp add: leading_take)
    moreover have "\<forall>c \<in> set (combs 6 (leading g2)). \<not> HasWon a c"
      using *(1) candidate_ok_eq [OF len] same by auto
    ultimately have "\<not> wins draws (sort (leading g2) @ [g_strong g2])"
      by (intro not_wins [OF a, where ns' = "leading g2"]) (auto simp: strict_sorted_iff)
    moreover have "set (take s (tries g2)) \<subseteq> set (leading g2)"
      using sf same by (auto simp: leading_take intro: set_take_subset_set_take [THEN subsetD])
    ultimately show ?thesis using * r(3) by auto
  next
    case False
    then have "g2 = ?g1\<lparr>caseL := (caseL ?g1 + 1) mod 2\<rparr>" using g2 by (intro search_False) simp
    moreover from this have "set (take s ts) \<subseteq> set (leading g2)"
      using sf by (auto simp: leading_take intro: set_take_subset_set_take [THEN subsetD])
    ultimately show ?thesis
      using r(2,3) ts by (auto simp: same_request_def first_candidate_def leading_take)
  qed
  have same: "formType g2 = formType g" "g_strong g2 = g_strong g" "results g2 = results g"
    "seen g2 = seen g" "g_archive g2 = g_archive g"
    using same_request_sel [of g2 ?g1] g2' by simp_all
  have inv2: "gen_inv a ranked willBe draws g2"
    using Suc.prems(4) same mset_eq_length [of "tries g2" ranked] g2' by (simp add: gen_inv_def)
  have add: "gen_inv a ranked willBe draws (snd (addResult g2)) \<and>
    length (results (snd (addResult g2))) \<le> Suc (length (results g2)) \<and>
    formType (snd (addResult g2)) = formType g2 \<and> g_strong (snd (addResult g2)) = g_strong g2"
    using g2' same Suc.prems(2,3) by (intro addResult_inv [OF inv2 _ dist(1)]) auto
  show ?case
  proof (cases "fst (addResult g2)")
    case True
    obtain g' where "generateLoop n ranked willBe (snd (addResult g2)) = Some g' \<and>
        gen_inv a ranked willBe draws g' \<and> length (results g') \<le> n + length (results (snd (addResult g2))) \<and>
        formType g' = formType g \<and> g_strong g' = g_strong g"
      using Suc.IH [of "snd (addResult g2)"] add same Suc.prems(1-3) by auto
    then show ?thesis using True add same g2
      by (auto simp: copy r(1) Let_def split: prod.splits)
  next
    case False
    then show ?thesis using add same g2
      by (auto simp: copy r(1) Let_def split: prod.splits)
  qed
qed simp

lemma Generate_inv:
  assumes new: "NewLotteryArchive lottery from to draws = Some a"
    and rank: "RankNumbers a mode = Some ranked"
    and want: "card (set willBe \<inter> set ranked) \<le> nat (max 6 ft)"
  shows "\<exists>forms g'. Generate howMany willBe (NewFormGenerator a ft mode) = Some (forms, g') \<and>
    length forms \<le> nat howMany \<and> distinct forms \<and>
    (\<forall>f \<in> set forms. is_form ranked willBe (nat (max 6 ft)) (TopStrong a mode) f \<and>
       (wins draws f \<longrightarrow> butlast f = first_candidate ranked willBe (nat (max 6 ft))))"
proof -
  have a: "archive_of lottery draws a" using new by (rule NewLotteryArchive_archive_of)
  let ?g = "NewFormGenerator a ft mode"
  have g: "formType ?g = nat (max 6 ft)" "g_archive ?g = a" "g_mode ?g = mode"
    by (auto simp: NewFormGenerator_def minFormSize_def Let_def max_def)
  obtain ns where "RankNumbers a mode = Some ns" "distinct ns" "set ns \<subseteq> {1..MaxNumberOf lottery}"
    using RankNumbers_ok [OF a] rankable_range by metis
  then have ranked: "distinct ranked" "set ranked \<subseteq> {1..MaxNumberOf lottery}" using rank by auto
  have "length ranked \<le> 70"
  proof -
    have "card (set ranked) \<le> card {1..MaxNumberOf lottery}" using ranked(2) by (intro card_mono) auto
    also have "\<dots> \<le> 70" by (simp add: MaxNumberOf_def)
    finally show ?thesis using ranked(1) by (simp add: distinct_card)
  qed
  show ?thesis
  proof (cases "howMany \<le> 0 \<or> length ranked < nat (max 6 ft)")
    case True
    then show ?thesis using rank by (auto simp: Generate_def g Let_def)
  next
    case False
    let ?g1 = "?g\<lparr>g_strong := TopStrong a mode, tries := replicate (length ranked) 0,
      results := [], seen := []\<rparr>"
    have inv: "gen_inv a ranked willBe draws ?g1"
      by (simp add: gen_inv_def g map_get_def)
    have ft: "card (set willBe \<inter> set ranked) \<le> formType ?g1" "0 < formType ?g1"
      "formType ?g1 \<le> length ranked" "formType ?g1 = nat (max 6 ft)"
      using False want g(1) by auto
    obtain g' where "generateLoop (nat howMany) ranked willBe ?g1 = Some g'"
      "gen_inv a ranked willBe draws g'" "length (results g') \<le> nat howMany"
      "formType g' = nat (max 6 ft)" "g_strong g' = TopStrong a mode"
      using generateLoop_inv [OF a ranked(1) \<open>length ranked \<le> 70\<close> ft(1-3) inv, of "nat howMany"] ft(4)
      by auto
    then show ?thesis using False rank by (auto simp: Generate_def g Let_def gen_inv_def)
  qed
qed

subsection \<open>Properties\<close>





text \<open>Six-number forms in strong mode from a fresh archive of the given draws.\<close>

definition generate_from :: "LotteryResult list \<Rightarrow> int \<Rightarrow> int list \<Rightarrow> int list list option" where
  "generate_from draws howMany willBe =
     (case NewLotteryArchive Lottery 0 0 draws of
        None \<Rightarrow> None
      | Some a \<Rightarrow> map_option fst (Generate howMany willBe (NewFormGenerator a 6 Strong)))"

text \<open>C39: The search leaves forms out. With the draws 1-6 and 2-7 five of the seven forms over the seven
  ranked numbers have not won; ten forms are asked for, three are returned, and one of them is the
  winning combination 1-6.\<close>

theorem Generate_incomplete:
  "generate_from [sample_draw 1 [1..6] 1, sample_draw 2 [2..7] 1] 10 [] =
   Some [[1, 3, 4, 5, 6, 7, 1], [1, 2, 3, 4, 5, 6, 1], [1, 2, 4, 5, 6, 7, 1]]"
  by code_simp

text \<open>More ranked wanted numbers than places make the second search index past the candidate list:
  asking an archive without draws for two forms of six numbers that contain 1 to 7 panics.\<close>

theorem Generate_panics: "generate_from [] 2 [1..7] = None"
  by code_simp

end
