(* ===== verification/Archive_Properties.thy ===== *)
theory Archive_Properties
  imports Analysis Form_Generator
begin

section \<open>Properties of the archive\<close>

text \<open>
  The results about \<open>lottery_archive.go\<close>, \<open>tree.go\<close> and \<open>node.go\<close>, stated of an archive that
  \<open>NewLotteryArchive\<close> returns for arbitrary draws.
\<close>

text \<open>A small archive for the instances.\<close>

definition two_draws :: "LotteryResult list" where
  "two_draws = [sample_draw 1 [1, 2, 3, 4, 5, 6] 3, sample_draw 2 [2, 3, 4, 5, 6, 7] 3]"

lemma two_draws_archive:
  obtains a where "NewLotteryArchive Lottery 0 0 two_draws = Some a"
  using NewLotteryArchive_ok [of Lottery 0 0 two_draws] by blast

lemma two_draws_ascending: "\<forall>d \<in> set two_draws. sorted_wrt (<) (d_Numbers d)"
  by (simp add: two_draws_def sample_draw_def)

lemma MaxNumberOf_Lottery [simp]: "MaxNumberOf Lottery = 37"
  by (simp add: MaxNumberOf_def Lottery_def TripleSeven_def OneTwoThree_def)

subsection \<open>The tree\<close>

text \<open>C1: The constructor never panics, and the count at the tree's node for a group is the number of
  ways the group reads off a draw's numbers in order, summed over the draws; groups that do not
  ascend, leave the game's range or have more than six numbers have no node.\<close>

theorem archive_counts:
  "\<exists>a t anchor. NewLotteryArchive lottery lo hi draws = Some a \<and> a_Tree a = Some t \<and>
     Anchor t = Some anchor \<and> BuildCalls t = int (length draws) \<and>
     (\<forall>p. p \<noteq> [] \<longrightarrow> count_at anchor p =
        (if sorted_wrt (<) p \<and> set p \<subseteq> {1..MaxNumberOf lottery} \<and> length p \<le> 6
         then group_count (map d_Numbers draws) p else 0))"
proof -
  obtain a where a: "NewLotteryArchive lottery lo hi draws = Some a" "archive_of lottery draws a"
    using NewLotteryArchive_ok by blast
  obtain t where t: "a_Tree a = Some t" "tree_of (MaxNumberOf lottery) 6 (map d_Numbers draws) t"
    using archive_of_tree [OF a(2)] by metis
  obtain an where an: "Anchor t = Some an"
    "\<And>p. p \<noteq> [] \<Longrightarrow> count_at an p =
        (if fits (MaxNumberOf lottery) 0 6 p then group_count (map d_Numbers draws) p else 0)"
    using tree_of_anchor [OF t(2)] by metis
  have "fits (MaxNumberOf lottery) 0 6 p \<longleftrightarrow>
      sorted_wrt (<) p \<and> set p \<subseteq> {1..MaxNumberOf lottery} \<and> length p \<le> 6" for p
    by (auto simp: fits_iff subset_iff int_one_le_iff_zero_less)
  then show ?thesis using a(1) t an by (auto simp: tree_of_def)
qed

theorem archive_counts_witness:
  "\<exists>a t anchor. NewLotteryArchive Lottery 0 0 two_draws = Some a \<and> a_Tree a = Some t \<and>
     Anchor t = Some anchor \<and> BuildCalls t = 2 \<and>
     (\<forall>p. p \<noteq> [] \<longrightarrow> count_at anchor p =
        (if sorted_wrt (<) p \<and> set p \<subseteq> {1..37} \<and> length p \<le> 6
         then group_count (map d_Numbers two_draws) p else 0))"
proof -
  have "int (length two_draws) = 2" by (simp add: two_draws_def)
  then show ?thesis using archive_counts [of Lottery 0 0 two_draws] by (simp del: fits.simps)
qed

lemma distinct_sorted_entries: "sorted_wrt (entry_before mode) es \<Longrightarrow> distinct es"
proof -
  have "\<not> entry_before mode e e" for e by (simp add: entry_before_def)
  then show "sorted_wrt (entry_before mode) es \<Longrightarrow> ?thesis"
    by (metis (no_types, lifting) distinct_conv_nth nat_neq_iff sorted_wrt_nth_less)
qed

text \<open>C14: \<open>TopGroups\<close> returns the first \<open>howMany\<close> of exactly the groups of the requested size that occur
  in the draws, each once with its count, most frequent first (least frequent first in weak mode) and
  in lexicographic order among equal counts.\<close>

theorem TopGroups_correct:
  assumes "NewLotteryArchive lottery lo hi draws = Some a"
    and "1 \<le> k" "k \<le> 6" "1 \<le> howMany"
  shows "\<exists>es. TopGroups a howMany k mode = take (nat howMany) es \<and> distinct es \<and>
    sorted_wrt (entry_before mode) es \<and>
    set es = groups_of (MaxNumberOf lottery) (map d_Numbers draws) k"
proof -
  have a: "archive_of lottery draws a" using assms(1) by (rule NewLotteryArchive_archive_of)
  obtain es where es: "TopGroups a howMany k mode = take (nat howMany) es"
    "sorted_wrt (entry_before mode) es" "set es = groups_of (MaxNumberOf lottery) (map d_Numbers draws) k"
    using TopGroups_spec [OF a assms(2-4)] by blast
  have "distinct es" using es(2) by (rule distinct_sorted_entries)
  with es show ?thesis by blast
qed

theorem TopGroups_correct_witness:
  "\<exists>a es. NewLotteryArchive Lottery 0 0 two_draws = Some a \<and>
     TopGroups a 3 2 Strong = take 3 es \<and> distinct es \<and> sorted_wrt (entry_before Strong) es \<and>
     set es = groups_of 37 (map d_Numbers two_draws) 2"
proof -
  obtain a where "NewLotteryArchive Lottery 0 0 two_draws = Some a" by (rule two_draws_archive)
  then show ?thesis using TopGroups_correct [of Lottery 0 0 two_draws a 2 3 Strong] by auto
qed

text \<open>\<open>RankNumbers\<close> lists the drawn numbers of the game's range, each once, by how often they were drawn
  and then in ascending order; without draws it lists the whole range.\<close>

theorem RankNumbers_correct:
  assumes "NewLotteryArchive lottery lo hi draws = Some a"
  shows "\<exists>ns. RankNumbers a mode = Some ns \<and> sorted_wrt (ranked_before draws mode) ns \<and>
    set ns = {n. 1 \<le> n \<and> n \<le> MaxNumberOf lottery \<and> (draws = [] \<or> 0 < drawn draws n)}"
  using RankNumbers_ok [OF NewLotteryArchive_archive_of [OF assms], of mode] unfolding rankable_def by blast

theorem RankNumbers_correct_witness:
  "\<exists>a ns. NewLotteryArchive Lottery 0 0 two_draws = Some a \<and> RankNumbers a Weak = Some ns \<and>
     sorted_wrt (ranked_before two_draws Weak) ns \<and>
     set ns = {n. 1 \<le> n \<and> n \<le> 37 \<and> (two_draws = [] \<or> 0 < drawn two_draws n)}"
proof -
  obtain a where "NewLotteryArchive Lottery 0 0 two_draws = Some a" by (rule two_draws_archive)
  then show ?thesis using RankNumbers_correct [of Lottery 0 0 two_draws a Weak] by auto
qed

text \<open>In the main game \<open>TopStrong\<close> is the strong number 1-7 drawn most (in weak mode least, but at least
  once), the smallest among equals, and 0 when none was drawn.\<close>

theorem TopStrong_correct:
  assumes "NewLotteryArchive Lottery lo hi draws = Some a" and "int (length draws) < MaxInt32"
  shows "is_top_strong mode draws (TopStrong a mode) \<or>
     TopStrong a mode = 0 \<and> (\<forall>n \<in> {1..7}. strong_drawn draws n = 0)"
  using TopStrong_spec [OF NewLotteryArchive_archive_of [OF assms(1)] assms(2)] .

theorem TopStrong_correct_witness:
  "\<exists>a. NewLotteryArchive Lottery 0 0 two_draws = Some a \<and>
     (is_top_strong Strong two_draws (TopStrong a Strong) \<or>
      TopStrong a Strong = 0 \<and> (\<forall>n \<in> {1..7}. strong_drawn two_draws n = 0))"
proof -
  obtain a where a: "NewLotteryArchive Lottery 0 0 two_draws = Some a" by (rule two_draws_archive)
  have "int (length two_draws) < MaxInt32" by (simp add: two_draws_def MaxInt32_def)
  from TopStrong_correct [OF a this, of Strong] a show ?thesis by blast
qed

subsection \<open>Winning combinations\<close>

text \<open>on numbers 1-63 \<open>HasWon\<close> holds exactly when the combination, as a set, is the set of the first
  six numbers of a draw with at least six.\<close>

theorem HasWon_correct:
  assumes "NewLotteryArchive lottery lo hi draws = Some a"
    and "set combo \<subseteq> {1..63}" and "\<forall>d \<in> set draws. set (d_Numbers d) \<subseteq> {1..63}"
  shows "HasWon a combo \<longleftrightarrow> set combo \<in> winning_sets draws"
proof -
  have "set (take 6 (d_Numbers d)) \<inter> {1..63} = set (take 6 (d_Numbers d))" if "d \<in> set draws" for d
    using assms(3) that set_take_subset [of 6 "d_Numbers d"] by blast
  moreover have "set combo \<inter> {1..63} = set combo" using assms(2) by blast
  ultimately show ?thesis
    unfolding HasWon_mask [OF NewLotteryArchive_archive_of [OF assms(1)]] winning_sets_def by auto
qed

theorem HasWon_correct_witness:
  "\<exists>a. NewLotteryArchive Lottery 0 0 two_draws = Some a \<and>
     (HasWon a [6, 5, 4, 3, 2, 1] \<longleftrightarrow> set [6, 5, 4, 3, 2, 1] \<in> winning_sets two_draws)"
proof -
  obtain a where a: "NewLotteryArchive Lottery 0 0 two_draws = Some a" by (rule two_draws_archive)
  have "\<forall>d \<in> set two_draws. set (d_Numbers d) \<subseteq> {1..63}" by (simp add: two_draws_def sample_draw_def)
  then show ?thesis using HasWon_correct [OF a, of "[6, 5, 4, 3, 2, 1]"] a by simp
qed

text \<open>The mask drops numbers from 64 on, which the 777 game (1-70) draws: there \<open>HasWon\<close> reports a
  combination as won that differs from the only draw.\<close>

theorem HasWon_aliases:
  "\<exists>a. NewLotteryArchive TripleSeven 0 0 [sample_draw 1 [1, 2, 3, 4, 5, 64] 0] = Some a \<and>
     HasWon a [1, 2, 3, 4, 5, 70] \<and>
     {1, 2, 3, 4, 5, 70} \<notin> winning_sets [sample_draw 1 [1, 2, 3, 4, 5, 64] 0]"
proof -
  obtain a where a: "NewLotteryArchive TripleSeven 0 0 [sample_draw 1 [1, 2, 3, 4, 5, 64] 0] = Some a"
    "archive_of TripleSeven [sample_draw 1 [1, 2, 3, 4, 5, 64] 0] a"
    using NewLotteryArchive_ok by blast
  have "HasWon a [1, 2, 3, 4, 5, 70]" unfolding HasWon_mask [OF a(2)] by (simp add: sample_draw_def)
  moreover have "winning_sets [sample_draw 1 [1, 2, 3, 4, 5, 64] 0] = {{1, 2, 3, 4, 5, 64}}"
    by (auto simp: winning_sets_def sample_draw_def)
  moreover have "{1, 2, 3, 4, 5, 70} \<noteq> {1, 2, 3, 4, 5, 64 :: int}"
  proof
    assume "{1, 2, 3, 4, 5, 70} = {1, 2, 3, 4, 5, 64 :: int}"
    then have "70 \<in> {1, 2, 3, 4, 5, 64 :: int}" by blast
    then show False by simp
  qed
  ultimately show ?thesis using a(1) by blast
qed

subsection \<open>Analysis and score\<close>

lemma form_entries_exact:
  assumes "\<forall>d \<in> set draws. sorted_wrt (<) (d_Numbers d)"
    and "sorted_wrt (<) form" "set form \<subseteq> {1..MaxNumberOf lottery}" and "length draws < 2 ^ 31"
  shows "form_entries (MaxNumberOf lottery) (map d_Numbers draws) form k = map (\<lambda>q. \<lparr>fe_Numbers = q,
            fe_Count = int (length (filter (\<lambda>d. set q \<subseteq> set (d_Numbers d)) draws))\<rparr>)
          (filter (\<lambda>q. \<exists>d \<in> set draws. set q \<subseteq> set (d_Numbers d)) (combs k form))"
proof -
  let ?L = "MaxNumberOf lottery" and ?data = "map d_Numbers draws"
  have asc: "\<forall>d \<in> set ?data. sorted_wrt (<) d" using assms(1) by simp
  have gc: "group_count ?data q = int (length (filter (\<lambda>d. set q \<subseteq> set (d_Numbers d)) draws))"
    if "sorted_wrt (<) q" for q
    using group_count_ascending [OF asc that] by (simp add: filter_map comp_def)
  have q: "sorted_wrt (<) q" "map int32 q = q" "int32 (group_count ?data q) = group_count ?data q"
    if "q \<in> set (combs k form)" for q
  proof -
    show s: "sorted_wrt (<) q" by (rule combs_sorted [OF assms(2) that])
    have "set q \<subseteq> {1..70}" using combs_set [OF that] assms(3) by (auto simp: MaxNumberOf_def split: if_splits)
    then show "map int32 q = q" by (intro map_idI int32_id) auto
    show "int32 (group_count ?data q) = group_count ?data q"
      using group_count_le [OF asc s] assms(4) by (intro int32_id) simp_all
  qed
  have pos: "0 < group_count ?data q \<longleftrightarrow> (\<exists>d \<in> set draws. set q \<subseteq> set (d_Numbers d))"
    if "q \<in> set (combs k form)" for q
    using gc [OF q(1) [OF that]] by (auto simp: filter_empty_conv)
  have "form_groups ?L ?data form k =
      filter (\<lambda>q. \<exists>d \<in> set draws. set q \<subseteq> set (d_Numbers d)) (combs k form)"
    unfolding form_groups_ascending [OF assms(2,3)] by (rule filter_cong [OF refl pos])
  then show ?thesis unfolding form_entries_def 
  proof (intro map_cong refl)
    fix x assume "x \<in> set (filter (\<lambda>q. \<exists>d \<in> set draws. set q \<subseteq> set (d_Numbers d)) (combs k form))"
    then have "x \<in> set (combs k form)" by simp
    from q [OF this] gc [OF q(1) [OF this]]
    show "\<lparr>fe_Numbers = map int32 x, fe_Count = int32 (group_count ?data x)\<rparr> = \<lparr>fe_Numbers = x,
        fe_Count = int (length (filter (\<lambda>d. set x \<subseteq> set (d_Numbers d)) draws))\<rparr>" by simp
  qed
qed

lemma binomials_of_range:
  assumes "j < 6"
  shows "binomialCount (MaxNumberOf lottery) (int j + 1) = int (nat (MaxNumberOf lottery) choose Suc j)"
    and "int (nat (MaxNumberOf lottery) choose Suc j) < 2 ^ 31"
proof -
  let ?L = "MaxNumberOf lottery"
  have L: "0 < nat ?L" "nat ?L \<le> 70" by (auto simp: MaxNumberOf_def)
  have "nat ?L ^ Suc j \<le> 70 ^ 6" using L assms
    by (intro order_trans [OF power_mono power_increasing [of "Suc j" 6 70]]) auto
  then have p: "int (nat ?L ^ Suc j) \<le> int (70 ^ 6)" by (simp only: of_nat_le_iff)
  then have "binomial_safe (nat ?L) (Suc j)"
    using L(1) by (intro binomial_safe_power order_le_less_trans [OF p]) auto
  from binomialCount_correct [OF this] L(1) show "binomialCount ?L (int j + 1) = int (nat ?L choose Suc j)"
    by (simp add: add.commute)
  have "MaxNumberOf lottery < 2147483648" by (simp add: MaxNumberOf_def)
  moreover have "(nat ?L choose Suc j) * fact (Suc j) \<le> 70 ^ Suc j"
    using binomial_fact_pow [of "nat ?L" "Suc j"] power_mono [OF L(2), of "Suc j"] by simp
  moreover have "j = 0 \<or> j = 1 \<or> j = 2 \<or> j = 3 \<or> j = 4 \<or> j = 5" using assms by linarith
  ultimately show "int (nat ?L choose Suc j) < 2 ^ 31"
    using L(2) by (elim disjE) (simp_all add: fact_numeral)
qed





text \<open>the analysis follows the form's own order, so a form written in descending order shares no pair with
  any draw: its score counts no hits whatever was drawn.\<close>

theorem ScoreForm_descending:
  assumes "NewLotteryArchive lottery lo hi draws = Some a" and "sorted_wrt (>) form"
  shows "map_option ObservedPairHits (ScoreForm a form) = Some 0"
proof -
  have a: "archive_of lottery draws a" using assms(1) by (rule NewLotteryArchive_archive_of)
  have "\<not> sorted_wrt (<) q" if "q \<in> set (combs 2 form)" for q
  proof -
    have "sorted_wrt (>) q" by (rule combs_sorted [OF assms(2) that])
    moreover have "length q = 2" using that by (rule combs_length)
    ultimately show ?thesis by (auto simp: length_Suc_conv numeral_2_eq_2)
  qed
  then have "form_groups (MaxNumberOf lottery) (map d_Numbers draws) form 2 = []"
    by (auto simp: form_groups_def filter_empty_conv)
  then have "observed_pairs a form = Some 0"
    by (simp add: observed_pairs_eq [OF a] form_entries_def)
  then show ?thesis by (simp add: ScoreForm_def Let_def)
qed

theorem ScoreForm_descending_witness:
  "\<exists>a. NewLotteryArchive Lottery 0 0 two_draws = Some a \<and>
     map_option ObservedPairHits (ScoreForm a [6, 5, 4, 3, 2]) = Some 0"
proof -
  obtain a where a: "NewLotteryArchive Lottery 0 0 two_draws = Some a" by (rule two_draws_archive)
  have "sorted_wrt (>) [6, 5, 4, 3, 2 :: int]" by simp
  from ScoreForm_descending [OF a this] a show ?thesis by blast
qed

subsection \<open>Enumeration\<close>

text \<open>C31: \<open>binomialCount\<close> is the binomial coefficient, with no product leaving the 64-bit range, for up to 57
  numbers and any size, and for up to 70 numbers and groups of up to six.\<close>

theorem binomialCount_exact:
  assumes "n \<le> 57 \<or> n \<le> 70 \<and> k \<le> 6"
  shows "binomialCount (int n) (int k) = int (n choose k)"
proof (cases "n \<le> 57")
  case False
  then have "n ^ k \<le> 70 ^ 6"
    using assms by (intro order_trans [OF power_mono [of n 70 k] power_increasing [of k 6 70]]) auto
  then have "int (n ^ k) \<le> int (70 ^ 6)" by (simp only: of_nat_le_iff)
  then have "binomial_safe n k" using False by (intro binomial_safe_power order_le_less_trans [of "int (n ^ k)"]) auto
  then show ?thesis by (rule binomialCount_correct)
qed (intro binomialCount_correct binomial_safe_57)

theorem binomialCount_exact_witness: "binomialCount (int 37) (int 6) = int (37 choose 6)"
  by (rule binomialCount_exact) simp

text \<open>C30: For a slice of up to 57 numbers \<open>GenerateCombinations\<close> ends, does not panic and returns its
  \<open>k\<close>-element sub-lists: exactly those, \<open>C(n, k)\<close> of them, and in index order.\<close>

theorem GenerateCombinations_all:
  assumes "length numbers \<le> 57" and "0 < k"
  shows "\<exists>cs. GenerateCombinations numbers (int k) = Some cs \<and> length cs = (length numbers choose k) \<and>
    set cs = {p. p \<in> set (subseqs numbers) \<and> length p = k} \<and>
    cs = map (map ((!) numbers)) (combs k [0..<length numbers])"
proof -
  have "binomial_safe (length numbers) (nat (int k))" using assms(1) by (rule binomial_safe_57)
  from GenerateCombinations_combs [OF this] assms(2)
  have "GenerateCombinations numbers (int k) = Some (combs k numbers)" by simp
  then show ?thesis
    by (intro exI [of _ "combs k numbers"] conjI combs_nth length_combs set_combs)
qed

theorem GenerateCombinations_all_witness:
  "\<exists>cs. GenerateCombinations [1, 2, 3, 4, 5, 6, 7 :: int] (int 6) = Some cs \<and>
     length cs = (length [1, 2, 3, 4, 5, 6, 7 :: int] choose 6) \<and>
     set cs = {p. p \<in> set (subseqs [1, 2, 3, 4, 5, 6, 7]) \<and> length p = 6} \<and>
     cs = map (map ((!) [1, 2, 3, 4, 5, 6, 7])) (combs 6 [0..<length [1, 2, 3, 4, 5, 6, 7 :: int]])"
  by (rule GenerateCombinations_all) simp_all

end
