(* ===== verification/Service.thy ===== *)
theory Service
  imports Analysis Form_Generator Manager
begin

section \<open>The gRPC handlers (lottery_service.go)\<close>

text \<open>
  The handlers of \<open>internal/services/lottery_service.go\<close>. A handler takes the repository's range query
  and the manager's state and returns the answer with the manager's next state. Outcomes: \<open>None\<close> when
  the call panics or does not return, \<open>Inl\<close> the error, \<open>Inr\<close> the response. Messages are records;
  a nil message or an unset field is an option.

  \<open>with_archive_refines\<close> is the lemma every handler shares: on a consistent cache the archive a handler
  works on is the one the abstract LRU list answers, so a handler is its pure part applied to it. The locale
  \<open>archive_source\<close> states what a handler needs of the place its archives come from.
\<close>

datatype Strength = STRENGTH_UNSPECIFIED | WEAK | STRONG

record DateWindow =
  w_From :: "time option"
  w_To :: "time option"

definition windowFromProto :: "DateWindow option \<Rightarrow> time \<times> time" where
  "windowFromProto w =
     (case w of
        None \<Rightarrow> (0, 0)
      | Some w \<Rightarrow> ((case w_From w of None \<Rightarrow> 0 | Some t \<Rightarrow> t), (case w_To w of None \<Rightarrow> 0 | Some t \<Rightarrow> t)))"

definition strengthMode :: "Strength \<Rightarrow> string" where
  "strengthMode st = (case st of WEAK \<Rightarrow> Weak | _ \<Rightarrow> Strong)"

type_synonym 'a handler = "LotteryManager \<Rightarrow> ((error + 'a) \<times> LotteryManager) option"

text \<open>\<open>LotteryService.archive\<close>: resolve the window's archive.\<close>

definition service_archive ::
  "range_query option \<Rightarrow> DateWindow option \<Rightarrow> LotteryManager \<Rightarrow>
   ((error + LotteryArchive option) \<times> LotteryManager) option" where
  "service_archive repo w m = (let (from, to) = windowFromProto w in Archive repo from to m)"

text \<open>
  What follows the call in every handler: an error is returned, and on success the handler goes on with
  the archive, panicking if the pointer is nil.
\<close>

definition serve_with ::
  "('s \<Rightarrow> ((error + LotteryArchive option) \<times> 's) option) \<Rightarrow> (LotteryArchive \<Rightarrow> (error + 'a) option) \<Rightarrow>
   's \<Rightarrow> ((error + 'a) \<times> 's) option" where
  "serve_with ask k s =
     Option.bind (ask s) (\<lambda>(res, s).
       case res of
         Inl err \<Rightarrow> Some (Inl err, s)
       | Inr None \<Rightarrow> None
       | Inr (Some a) \<Rightarrow> map_option (\<lambda>r. (r, s)) (k a))"

definition with_archive ::
  "range_query option \<Rightarrow> DateWindow option \<Rightarrow> (LotteryArchive \<Rightarrow> (error + 'a) option) \<Rightarrow> 'a handler" where
  "with_archive repo w k m = serve_with (service_archive repo w) k m"

subsection \<open>Messages\<close>

record GenerateFormRequest =
  gf_HowMany :: int
  gf_FormType :: int
  gf_WillBe :: "int list"
  gf_Window :: "DateWindow option"
  gf_Strength :: Strength

record NumberSet =
  ns_Numbers :: "int list"
  ns_Strong :: "int option"

record GetStatisticsRequest =
  gs_HowMany :: int
  gs_FormType :: int
  gs_Window :: "DateWindow option"
  gs_Strength :: Strength

record Pair =
  p_Numbers :: "int list"
  p_Count :: int

record GetStatisticsResponse =
  Pairs :: "Pair list"
  TotalDrawsInRange :: int

record AnalyzeRequest =
  an_Form :: "int list"
  an_Window :: "DateWindow option"

record ScoreFormRequest =
  sc_Form :: "int list"
  sc_Window :: "DateWindow option"

record HealthCheckResponse =
  h_Status :: string
  h_Version :: string
  DrawsLoaded :: int

definition version :: string where "version = ''1.0.0''"

definition errUnsupportedGroupSize :: error where
  "errUnsupportedGroupSize = ''statistics: form_type must be between 1 and 6''"

text \<open>The text of \<open>status.Error(codes.InvalidArgument, msg)\<close>.\<close>

definition InvalidArgument :: "string \<Rightarrow> error" where
  "InvalidArgument msg = ''rpc error: code = InvalidArgument desc = '' @ msg"

subsection \<open>Handlers\<close>

text \<open>\<open>drawCount\<close> is the repository's \<open>Count\<close>, \<open>None\<close> without a repository.\<close>

definition HealthCheck :: "(error + int) option \<Rightarrow> HealthCheckResponse" where
  "HealthCheck drawCount =
     (let drawsLoaded = (case drawCount of Some (Inr n) \<Rightarrow> int32 n | _ \<Rightarrow> 0)
      in \<lparr>h_Status = ''healthy'', h_Version = version, DrawsLoaded = drawsLoaded\<rparr>)"

text \<open>The response loop: each non-empty row is its regular numbers followed by the strong number.\<close>

fun number_sets :: "int list list \<Rightarrow> NumberSet list" where
  "number_sets [] = []"
| "number_sets (row # rows) =
     (if length row = 0 then number_sets rows
      else
        let regular = take (length row - 1) row; strong = int32 (row ! (length row - 1))
        in \<lparr>ns_Numbers = IntsToInt32s regular, ns_Strong = (if 0 < strong then Some strong else None)\<rparr>
           # number_sets rows)"

definition generate_with :: "int \<Rightarrow> GenerateFormRequest \<Rightarrow> LotteryArchive \<Rightarrow> (error + NumberSet list) option" where
  "generate_with howMany req arch =
     (let mode = strengthMode (gf_Strength req);
          formType = (if gf_FormType req < 6 then 6 else gf_FormType req);
          willBe = Int32sToInts (gf_WillBe req);
          gen = NewFormGenerator arch formType mode
      in map_option (\<lambda>(results, _). Inr (number_sets results)) (Generate howMany willBe gen))"

definition GenerateForm :: "range_query option \<Rightarrow> GenerateFormRequest \<Rightarrow> NumberSet list handler" where
  "GenerateForm repo req m =
     (let howMany = gf_HowMany req in
      if howMany \<le> 0 then Some (Inl (InvalidArgument ''how_many must be positive''), m)
      else
        let howMany = (if 50 < howMany then 50 else howMany)
        in with_archive repo (gf_Window req) (generate_with howMany req) m)"

definition statistics_with :: "int \<Rightarrow> GetStatisticsRequest \<Rightarrow> LotteryArchive \<Rightarrow> (error + GetStatisticsResponse) option" where
  "statistics_with groupSize req arch =
     (let howMany = (if gs_HowMany req \<le> 0 then 10 else gs_HowMany req);
          entries = TopGroups arch howMany groupSize (strengthMode (gs_Strength req))
      in Some (Inr \<lparr>Pairs = map (\<lambda>e. \<lparr>p_Numbers = IntsToInt32s (e_Numbers e), p_Count = int32 (e_Count e)\<rparr>) entries,
                    TotalDrawsInRange = int32 (int (length (Draws arch)))\<rparr>))"

definition GetStatistics :: "range_query option \<Rightarrow> GetStatisticsRequest \<Rightarrow> GetStatisticsResponse handler" where
  "GetStatistics repo req m =
     (let groupSize = (if gs_FormType req \<le> 0 then 2 else gs_FormType req) in
      if 6 < groupSize then Some (Inl errUnsupportedGroupSize, m)
      else with_archive repo (gs_Window req) (statistics_with groupSize req) m)"

definition Analyze :: "range_query option \<Rightarrow> AnalyzeRequest \<Rightarrow> AnalyzeResponse handler" where
  "Analyze repo req =
     with_archive repo (an_Window req) (\<lambda>arch. map_option Inr (AnalyzeForm arch (Int32sToInts (an_Form req))))"

definition score_with :: "ScoreFormRequest \<Rightarrow> LotteryArchive \<Rightarrow> (error + ScoreFormResponse) option" where
  "score_with req arch =
     (let numbers = Int32sToInts (sc_Form req) in
      if length numbers < 2 then Some (Inl (InvalidArgument ''form must contain at least 2 numbers''))
      else map_option Inr (ScoreForm arch numbers))"

definition handle_ScoreForm :: "range_query option \<Rightarrow> ScoreFormRequest \<Rightarrow> ScoreFormResponse handler" where
  "handle_ScoreForm repo req = with_archive repo (sc_Window req) (score_with req)"

subsection \<open>Handlers on a consistent cache\<close>

text \<open>The archive that the abstract cache answers for a request window.\<close>

definition answered :: "range_query option \<Rightarrow> DateWindow option \<Rightarrow> window list \<Rightarrow> error + LotteryArchive" where
  "answered repo w ws = (let (from, to) = windowFromProto w in fst (lru_archive repo from to ws))"

lemma with_archive_refines:
  assumes "cache_ok m rs"
  shows "\<exists>m' rs'. cache_ok m' rs' \<and>
    with_archive repo w k m =
      (case answered repo w (windows m rs) of
         Inl err \<Rightarrow> Some (Inl err, m')
       | Inr a \<Rightarrow> map_option (\<lambda>r. (r, m')) (k a))"
proof -
  obtain lo hi where w: "windowFromProto w = (lo, hi)" by fastforce
  obtain m' rs' where *: "Archive repo lo hi m =
      Some (map_sum id Some (fst (lru_archive repo lo hi (windows m rs))), m')" "cache_ok m' rs'"
    using Archive_step [OF assms, of repo lo hi] by blast
  show ?thesis
    by (rule exI [of _ m'], rule exI [of _ rs'])
      (use * in \<open>auto simp: with_archive_def serve_with_def service_archive_def answered_def w split: sum.splits\<close>)
qed

text \<open>An archive of the main game, and a list of windows that hold such archives, each built for its window.\<close>

definition built :: "LotteryArchive \<Rightarrow> bool" where
  "built a \<longleftrightarrow> (\<exists>lo hi draws. NewLotteryArchive Lottery lo hi draws = Some a)"

definition built_windows :: "window list \<Rightarrow> bool" where
  "built_windows ws \<longleftrightarrow> (\<forall>x \<in> set ws. \<exists>draws. NewLotteryArchive Lottery (w_from x) (w_to x) draws = Some (w_arch x))"

lemma build_archive:
  "build repo lo hi = Some (Inr a) \<Longrightarrow> \<exists>draws. NewLotteryArchive Lottery lo hi draws = Some a"
  by (auto simp: build_def split: option.splits sum.splits)

lemma built_windows_step:
  assumes "built_windows ws"
  shows "built_windows (snd (lru_archive repo lo hi ws))"
    and "fst (lru_archive repo lo hi ws) = Inr a \<Longrightarrow>
      \<exists>from to draws. NewLotteryArchive Lottery from to draws = Some a"
proof -
  obtain f t where nw: "normalizeWindow lo hi = (f, t)" by fastforce
  obtain res where res: "build repo f t = Some res" using build_ok by blast
  have "built_windows (snd (lru_archive repo lo hi ws)) \<and>
    (fst (lru_archive repo lo hi ws) = Inr a \<longrightarrow>
      (\<exists>from to draws. NewLotteryArchive Lottery from to draws = Some a))"
  proof (cases "find (\<lambda>w. w_key w = windowKey f t) ws")
    case (Some w)
    then have "w \<in> set ws" by (metis find_Some_iff nth_mem)
    then obtain draws where "NewLotteryArchive Lottery (w_from w) (w_to w) draws = Some (w_arch w)"
      using assms by (auto simp: built_windows_def)
    then have "\<exists>from to draws. NewLotteryArchive Lottery from to draws = Some (w_arch w)" by blast
    then show ?thesis using assms Some \<open>w \<in> set ws\<close> by (auto simp: lru_archive_def nw built_windows_def Let_def)
  next
    case None
    have rest: "built_windows (if length ws < 8 then ws else butlast ws)"
      using assms in_set_butlastD by (fastforce simp: built_windows_def)
    show ?thesis
      using rest None res build_archive [of repo f t]
      by (cases res) (auto simp: lru_archive_def nw Let_def built_windows_def)
  qed
  then show "built_windows (snd (lru_archive repo lo hi ws))"
    and "fst (lru_archive repo lo hi ws) = Inr a \<Longrightarrow>
      \<exists>from to draws. NewLotteryArchive Lottery from to draws = Some a" by blast+
qed

text \<open>The invariant of the cache between handlers.\<close>

definition ready :: "LotteryManager \<Rightarrow> bool" where
  "ready m \<longleftrightarrow> (\<exists>rs. cache_ok m rs \<and> built_windows (windows m rs))"

lemma ready_new: "ready NewLotteryManager"
  by (auto simp: ready_def cache_ok_new built_windows_def windows_def intro!: exI [of _ "[]"])

lemma service_archive_ready:
  assumes "ready m"
  shows "\<exists>res m'. service_archive repo w m = Some (res, m') \<and> ready m' \<and>
    (\<forall>r. res = Inr r \<longrightarrow> (\<exists>a. r = Some a \<and> built a))"
proof -
  obtain rs where rs: "cache_ok m rs" "built_windows (windows m rs)" using assms by (auto simp: ready_def)
  obtain lo hi where w: "windowFromProto w = (lo, hi)" by fastforce
  let ?out = "lru_archive repo lo hi (windows m rs)"
  obtain m' rs' where *: "Archive repo lo hi m = Some (map_sum id Some (fst ?out), m')"
    "cache_ok m' rs'" "windows m' rs' = snd ?out"
    using Archive_step [OF rs(1), of repo lo hi] by blast
  note step = built_windows_step [OF rs(2), of repo lo hi]
  have "ready m'" unfolding ready_def using *(2,3) step(1) by metis
  moreover have "\<exists>a. r = Some a \<and> built a" if "map_sum id Some (fst ?out) = Inr r" for r
    using that step(2) unfolding built_def by (cases "fst ?out") auto
  ultimately show ?thesis using *(1) w by (auto simp: service_archive_def)
qed

subsection \<open>The source of archives as an interface\<close>

lemma ScoreForm_total: "archive_of lottery draws a \<Longrightarrow> \<exists>r. ScoreForm a form = Some r"
  by (simp add: ScoreForm_def observed_pairs_eq Let_def)

lemma number_sets_rows:
  "\<forall>row \<in> set rows. row \<noteq> [] \<Longrightarrow>
   number_sets rows = map (\<lambda>row. \<lparr>ns_Numbers = IntsToInt32s (butlast row),
     ns_Strong = (if 0 < int32 (last row) then Some (int32 (last row)) else None)\<rparr>) rows"
  by (induction rows) (auto simp: butlast_conv_take last_conv_nth Let_def)

text \<open>A generated form: ascending numbers of the ranking, as many as asked, with every wanted number that is ranked.\<close>

definition form_message :: "GenerateFormRequest \<Rightarrow> LotteryResult list \<Rightarrow> NumberSet \<Rightarrow> bool" where
  "form_message req draws f \<longleftrightarrow> sorted_wrt (<) (ns_Numbers f) \<and> int (length (ns_Numbers f)) = max 6 (gf_FormType req) \<and>
     set (ns_Numbers f) \<subseteq> rankable Lottery draws \<and> set (gf_WillBe req) \<inter> rankable Lottery draws \<subseteq> set (ns_Numbers f)"

lemma generate_with_forms:
  assumes new: "NewLotteryArchive Lottery lo hi draws = Some a"
    and "card (set (gf_WillBe req)) \<le> nat (max 6 (gf_FormType req))"
  shows "\<exists>forms. generate_with n req a = Some (Inr forms) \<and> length forms \<le> nat n \<and> distinct forms \<and>
    (\<forall>f \<in> set forms. form_message req draws f)"
proof -
  let ?ft = "gf_FormType req" and ?mode = "strengthMode (gf_Strength req)"
  let ?ft' = "if ?ft < 6 then 6 else ?ft"
  obtain ranked where r: "RankNumbers a ?mode = Some ranked" "set ranked = rankable Lottery draws"
    using RankNumbers_ok [OF NewLotteryArchive_archive_of [OF new]] by blast
  have "card (set (gf_WillBe req) \<inter> set ranked) \<le> card (set (gf_WillBe req))" by (intro card_mono) auto
  then have w: "card (set (gf_WillBe req) \<inter> set ranked) \<le> nat (max 6 ?ft')"
    using assms(2) by (auto simp: max_def split: if_splits)
  have ft: "max 6 ?ft' = max 6 ?ft" by auto
  obtain rows g' where g: "Generate n (gf_WillBe req) (NewFormGenerator a ?ft' ?mode) = Some (rows, g')"
    "length rows \<le> nat n" "distinct rows"
    "\<forall>f \<in> set rows. is_form ranked (gf_WillBe req) (nat (max 6 ?ft)) (TopStrong a ?mode) f"
    using Generate_inv [OF new r(1) w, of n] unfolding ft by blast
  have row: "row \<noteq> []" "last row = TopStrong a ?mode" "IntsToInt32s (butlast row) = butlast row"
    "sorted_wrt (<) (butlast row)" "int (length (butlast row)) = max 6 ?ft" "set (butlast row) \<subseteq> set ranked"
    "set (gf_WillBe req) \<inter> set ranked \<subseteq> set (butlast row)" if "row \<in> set rows" for row
  proof -
    from g(4) that obtain ns where ns: "row = ns @ [TopStrong a ?mode]" "sorted_wrt (<) ns"
      "length ns = nat (max 6 ?ft)" "set ns \<subseteq> set ranked" "set (gf_WillBe req) \<inter> set ranked \<subseteq> set ns"
      by (auto simp: is_form_def)
    have "MaxNumberOf Lottery \<le> 70" by (simp add: MaxNumberOf_def)
    then have "IntsToInt32s ns = ns" using ns(4) r(2) rankable_range [of Lottery draws]
      by (auto simp: IntsToInt32s_def intro!: map_idI int32_id)
    with ns show "row \<noteq> []" "last row = TopStrong a ?mode" "IntsToInt32s (butlast row) = butlast row"
      "sorted_wrt (<) (butlast row)" "int (length (butlast row)) = max 6 ?ft" "set (butlast row) \<subseteq> set ranked"
      "set (gf_WillBe req) \<inter> set ranked \<subseteq> set (butlast row)" by auto
  qed
  have eq: "number_sets rows = map (\<lambda>row. \<lparr>ns_Numbers = IntsToInt32s (butlast row),
     ns_Strong = (if 0 < int32 (last row) then Some (int32 (last row)) else None)\<rparr>) rows"
    using number_sets_rows row(1) by blast
  have "inj_on butlast (set rows)" using row(1,2) by (intro inj_onI) (metis append_butlast_last_id)
  then have "distinct (number_sets rows)"
    unfolding eq distinct_map using g(3) row(3) by (auto simp: inj_on_def)
  moreover have "generate_with n req a = Some (Inr (number_sets rows))"
    using g(1) by (simp add: generate_with_def Let_def Int32sToInts_def)
  moreover have "\<forall>f \<in> set (number_sets rows). form_message req draws f"
    using row(3-7) unfolding eq form_message_def r(2) by auto
  ultimately show ?thesis using g(2) by (intro exI [of _ "number_sets rows"]) (simp add: eq)
qed

text \<open>
  What a handler needs of the place it gets archives from: on a good state \<open>ask\<close> returns, never with a nil archive,
  and leaves a good state; the archives are built from draws. The cache is one such source, and the cache over the
  table of a running server is another.
\<close>

locale archive_source =
  fixes ask :: "DateWindow option \<Rightarrow> 's \<Rightarrow> ((error + LotteryArchive option) \<times> 's) option" and good :: "'s \<Rightarrow> bool"
  assumes asked: "good s \<Longrightarrow> \<exists>res s'. ask w s = Some (res, s') \<and> good s' \<and>
    (\<forall>r. res = Inr r \<longrightarrow> (\<exists>a. r = Some a \<and> built a))"
begin

lemma served:
  assumes "good s" and "\<And>a. built a \<Longrightarrow> \<exists>res. k a = Some res \<and> (\<forall>r. res = Inr r \<longrightarrow> P r)"
  shows "\<exists>res s'. serve_with (ask w) k s = Some (res, s') \<and> good s' \<and> (\<forall>r. res = Inr r \<longrightarrow> P r)"
proof -
  obtain res s' where one: "ask w s = Some (res, s')" "good s'" "\<forall>r. res = Inr r \<longrightarrow> (\<exists>a. r = Some a \<and> built a)"
    using asked [OF assms(1)] by blast
  show ?thesis
  proof (cases res)
    case (Inr r)
    then obtain a where "r = Some a" "built a" using one(3) by blast
    with assms(2) [OF this(2)] show ?thesis using one(1,2) Inr by (auto simp: serve_with_def)
  qed (use one(1,2) in \<open>simp add: serve_with_def\<close>)
qed

lemma statistics: "good s \<Longrightarrow> \<exists>res s'. serve_with (ask w) (statistics_with n req) s = Some (res, s') \<and> good s'"
  using served [of s "statistics_with n req" "\<lambda>_. True" w] by (auto simp: statistics_with_def Let_def)

lemma analyzed:
  assumes "good s"
  shows "\<exists>res s'. serve_with (ask w) (\<lambda>arch. map_option Inr (AnalyzeForm arch form)) s = Some (res, s') \<and> good s'"
proof -
  let ?k = "\<lambda>arch. map_option Inr (AnalyzeForm arch form) :: (error + AnalyzeResponse) option"
  have "\<exists>res. ?k a = Some res \<and> (\<forall>r. res = Inr r \<longrightarrow> True)" if "built a" for a
    using that AnalyzeForm_spec [OF NewLotteryArchive_archive_of, of Lottery _ _ _ a form] by (auto simp: built_def)
  from served [OF assms, where P = "\<lambda>_. True" and k = ?k, OF this] show ?thesis by simp
qed

lemma scored:
  assumes "good s"
  shows "\<exists>res s'. serve_with (ask w) (score_with req) s = Some (res, s') \<and> good s'"
proof -
  have "\<exists>res. score_with req a = Some res \<and> (\<forall>r. res = Inr r \<longrightarrow> True)" if "built a" for a
    using that ScoreForm_total [OF NewLotteryArchive_archive_of, of Lottery _ _ _ a "Int32sToInts (sc_Form req)"]
    by (auto simp: score_with_def built_def Let_def)
  from served [OF assms, where P = "\<lambda>_. True" and k = "score_with req", OF this] show ?thesis by simp
qed

lemma generated:
  assumes "good s" and "card (set (gf_WillBe req)) \<le> nat (max 6 (gf_FormType req))"
  shows "\<exists>res s'. serve_with (ask w) (generate_with n req) s = Some (res, s') \<and> good s' \<and>
    (\<forall>forms. res = Inr forms \<longrightarrow> length forms \<le> nat n \<and> distinct forms \<and>
       (\<exists>draws. \<forall>f \<in> set forms. form_message req draws f))"
  by (rule served [OF assms(1)]) (use generate_with_forms [OF _ assms(2), of _ _ _ _ n] in \<open>fastforce simp: built_def\<close>)

end

interpretation cached: archive_source "service_archive repo" ready for repo :: "range_query option"
  by unfold_locales (rule service_archive_ready)

subsection \<open>Properties\<close>

text \<open>On a consistent cache the read-only handlers neither panic nor block, whatever the request; each
  answers a response or an error and leaves the cache consistent.\<close>

theorem handlers_total:
  assumes "ready m"
  shows "(\<exists>res m'. GetStatistics repo stat m = Some (res, m') \<and> ready m') \<and>
    (\<exists>res m'. Analyze repo an m = Some (res, m') \<and> ready m') \<and>
    (\<exists>res m'. handle_ScoreForm repo sc m = Some (res, m') \<and> ready m')"
  using cached.statistics [OF assms] cached.analyzed [OF assms] cached.scored [OF assms] assms
  by (auto simp: GetStatistics_def Analyze_def handle_ScoreForm_def with_archive_def Let_def)

theorem handlers_total_witness:
  "(\<exists>res m'. GetStatistics None \<lparr>gs_HowMany = 1, gs_FormType = 2, gs_Window = None, gs_Strength = STRONG\<rparr>
      NewLotteryManager = Some (res, m') \<and> ready m') \<and>
   (\<exists>res m'. Analyze None \<lparr>an_Form = [1, 2], an_Window = None\<rparr> NewLotteryManager = Some (res, m') \<and> ready m') \<and>
   (\<exists>res m'. handle_ScoreForm None \<lparr>sc_Form = [1, 2], sc_Window = None\<rparr> NewLotteryManager = Some (res, m') \<and> ready m')"
  by (rule handlers_total [OF ready_new])

text \<open>a \<open>GenerateForm\<close> call for a positive number of forms with no more wanted numbers than places answers
  the load error or at most \<open>min 50 how_many\<close> different forms, each of \<open>max 6 form_type\<close> ascending numbers that were
  drawn in the archive's draws (or any of 1-37 when there are none), with every wanted number among them.\<close>

theorem GenerateForm_forms:
  assumes "ready m" and "0 < gf_HowMany req" and "card (set (gf_WillBe req)) \<le> nat (max 6 (gf_FormType req))"
  shows "\<exists>res m'. GenerateForm repo req m = Some (res, m') \<and> ready m' \<and>
    (\<forall>forms. res = Inr forms \<longrightarrow> int (length forms) \<le> min 50 (gf_HowMany req) \<and> distinct forms \<and>
       (\<exists>draws. \<forall>f \<in> set forms. form_message req draws f))"
proof -
  let ?n = "if 50 < gf_HowMany req then 50 else gf_HowMany req"
  obtain res m' where "serve_with (service_archive repo (gf_Window req)) (generate_with ?n req) m = Some (res, m')" "ready m'"
    "\<forall>forms. res = Inr forms \<longrightarrow> length forms \<le> nat ?n \<and> distinct forms \<and>
       (\<exists>draws. \<forall>f \<in> set forms. form_message req draws f)"
    using cached.generated [OF assms(1,3)] by blast
  moreover have "length forms \<le> nat ?n \<longleftrightarrow> int (length forms) \<le> min 50 (gf_HowMany req)" for forms :: "NumberSet list"
    using assms(2) by auto
  ultimately show ?thesis using assms(2) by (simp add: GenerateForm_def with_archive_def Let_def)
qed

theorem GenerateForm_forms_witness:
  "\<exists>res m'. GenerateForm None \<lparr>gf_HowMany = 60, gf_FormType = 0, gf_WillBe = [3], gf_Window = None,
       gf_Strength = WEAK\<rparr> NewLotteryManager = Some (res, m') \<and> ready m' \<and>
    (\<forall>forms. res = Inr forms \<longrightarrow> int (length forms) \<le> 50 \<and> distinct forms)"
  using GenerateForm_forms [OF ready_new, of "\<lparr>gf_HowMany = 60, gf_FormType = 0, gf_WillBe = [3],
    gf_Window = None, gf_Strength = WEAK\<rparr>" None] by fastforce

end
