(* ===== verification/End_to_End.thy ===== *)
theory End_to_End
  imports Archive_Properties Service Runner
begin

section \<open>From the table to the answer\<close>

text \<open>
  The handlers on the world of \<open>Runner\<close>: the repository's range query reads the table as it is, the cache is the one
  that scrape runs invalidate. \<open>handler_fresh\<close> is the composition: on a coherent world every handler works on an
  archive of the current table. With the archive's own properties it gives what a request is answered after
  any history of requests and scrape runs.
\<close>

definition table_query :: "world \<Rightarrow> range_query option" where
  "table_query s = Some (\<lambda>lo hi. Inr (select_range lo hi (rows (w_db s))))"

definition on_cache :: "'a handler \<Rightarrow> world \<Rightarrow> ((error + 'a) \<times> world) option" where
  "on_cache h s = map_option (\<lambda>(res, m). (res, s\<lparr>w_cache := m\<rparr>)) (h (w_cache s))"

text \<open>The draws an answer is about: those of the table in a window that has the key of the request.\<close>

definition answer_draws :: "world \<Rightarrow> DateWindow option \<Rightarrow> LotteryResult list \<Rightarrow> bool" where
  "answer_draws s w draws \<longleftrightarrow> (\<exists>lo hi f t. windowFromProto w = (lo, hi) \<and> windowKey f t = requestKey lo hi \<and>
     draws = select_range f t (rows (w_db s)))"

lemma handler_fresh:
  assumes "coherent s"
  obtains a s' draws lo hi where "\<And>k. on_cache (with_archive (table_query s) w k) s = map_option (\<lambda>r. (r, s')) (k a)"
    "coherent s'" "w_db s' = w_db s" "answer_draws s w draws" "NewLotteryArchive Lottery lo hi draws = Some a"
proof -
  obtain lo hi where w: "windowFromProto w = (lo, hi)" by fastforce
  obtain a s' f t where *: "archive_port lo hi s = Some (Inr (Some a), s')" "coherent s'" "w_db s' = w_db s"
    "windowKey f t = requestKey lo hi" "NewLotteryArchive Lottery f t (select_range f t (rows (w_db s))) = Some a"
    using archive_port_coherent [OF assms, of lo hi] by blast
  then obtain m where m: "Archive (table_query s) lo hi (w_cache s) = Some (Inr (Some a), m)" "s' = s\<lparr>w_cache := m\<rparr>"
    by (auto simp: archive_port_def table_query_def)
  have "on_cache (with_archive (table_query s) w k) s = map_option (\<lambda>r. (r, s')) (k a)" for k
    by (cases "k a") (simp_all add: on_cache_def with_archive_def serve_with_def service_archive_def w m)
  moreover have "answer_draws s w (select_range f t (rows (w_db s)))"
    using w *(4) unfolding answer_draws_def by blast
  ultimately show ?thesis using that *(2,3,5) by blast
qed

text \<open>The running server as a source of archives for the handlers.\<close>

definition table_archive :: "DateWindow option \<Rightarrow> world \<Rightarrow> ((error + LotteryArchive option) \<times> world) option" where
  "table_archive w s = (let (lo, hi) = windowFromProto w in archive_port lo hi s)"

interpretation running: archive_source table_archive coherent
proof
  fix s w assume "coherent s"
  moreover obtain lo hi where "windowFromProto w = (lo, hi)" by fastforce
  ultimately show "\<exists>res s'. table_archive w s = Some (res, s') \<and> coherent s' \<and>
      (\<forall>r. res = Inr r \<longrightarrow> (\<exists>a. r = Some a \<and> built a))"
    using archive_port_coherent [of s lo hi] by (fastforce simp: table_archive_def built_def)
qed

lemma on_cache_served: "on_cache (with_archive (table_query s) w k) s = serve_with (table_archive w) k s"
proof -
  obtain lo hi where w: "windowFromProto w = (lo, hi)" by fastforce
  show ?thesis
  proof (cases "Archive (table_query s) lo hi (w_cache s)")
    case (Some out)
    obtain res m where out: "out = (res, m)" by fastforce
    show ?thesis
      using Some unfolding out
      by (cases res; cases "projr res"; cases "k (the (projr res))")
        (auto simp: on_cache_def with_archive_def serve_with_def service_archive_def table_archive_def archive_port_def
          table_query_def w split: option.splits)
  qed (simp add: on_cache_def with_archive_def serve_with_def service_archive_def table_archive_def archive_port_def
      table_query_def w)
qed

text \<open>The handlers leave a coherent world, so requests of every kind may be part of a history.\<close>

lemma handlers_coherent:
  assumes "coherent s"
  shows "\<exists>res s'. on_cache (GetStatistics (table_query s) stat) s = Some (res, s') \<and> coherent s'"
    and "\<exists>res s'. on_cache (Analyze (table_query s) an) s = Some (res, s') \<and> coherent s'"
    and "\<exists>res s'. on_cache (handle_ScoreForm (table_query s) sc) s = Some (res, s') \<and> coherent s'"
proof -
  have refused: "on_cache (\<lambda>m. Some (r, m)) s = Some (r, s)" for r :: "error + GetStatisticsResponse"
    by (simp add: on_cache_def)
  have "GetStatistics (table_query s) stat = (\<lambda>m. Some (Inl errUnsupportedGroupSize, m)) \<or>
    (\<exists>n. GetStatistics (table_query s) stat = with_archive (table_query s) (gs_Window stat) (statistics_with n stat))"
    by (cases "gs_FormType stat \<le> 0"; cases "6 < gs_FormType stat") (auto simp: GetStatistics_def [abs_def] Let_def)
  then show "\<exists>res s'. on_cache (GetStatistics (table_query s) stat) s = Some (res, s') \<and> coherent s'"
    using running.statistics [OF assms] assms by (elim disjE exE) (simp_all only: on_cache_served refused, blast)
  show "\<exists>res s'. on_cache (Analyze (table_query s) an) s = Some (res, s') \<and> coherent s'"
    unfolding Analyze_def on_cache_served by (rule running.analyzed [OF assms])
  show "\<exists>res s'. on_cache (handle_ScoreForm (table_query s) sc) s = Some (res, s') \<and> coherent s'"
    unfolding handle_ScoreForm_def on_cache_served by (rule running.scored [OF assms])
qed

text \<open>The pair message of a collected group.\<close>

definition pair_of :: "NodeEntry \<Rightarrow> Pair" where
  "pair_of e = \<lparr>p_Numbers = IntsToInt32s (e_Numbers e), p_Count = int32 (e_Count e)\<rparr>"





end
