(* ===== verification/Simulate.thy ===== *)
theory Simulate
  imports Service
begin

section \<open>Backtesting a form (simulate.go)\<close>

text \<open>
  \<open>internal/services/simulate.go\<close>: the union of the two request windows, the filter of the draws, the
  form's clean-up, the combinations, the per-draw tiers and the totals. Arrays of eight tiers are lists
  of length eight; money is \<open>f64\<close>. The totals are exact when the amounts are integers and stay below
  \<open>2 ^ 53\<close>; the tier counts are those of the hypergeometric distribution (\<open>tier_counts\<close>).
\<close>

definition errInvalidForm :: error where
  "errInvalidForm = ''simulate: form must contain at least 6 numbers''"

definition defaultPrizeAmounts :: "f64 list" where
  "defaultPrizeAmounts = map (\<lambda>n. Fin (of_int n)) [5000000, 750000, 10000, 2000, 500, 150, 75, 15]"

definition tierLabels :: "string list" where
  "tierLabels = [''6+strong'', ''6'', ''5+strong'', ''5'', ''4+strong'', ''4'', ''3+strong'', ''3'']"

definition defaultTicketCost :: f64 where "defaultTicketCost = Fin 3"

subsection \<open>Windows\<close>

text \<open>\<open>timestamppb.New(t)\<close> and back is the identity on the instants of the service.\<close>

definition unionWindows :: "DateWindow option \<Rightarrow> DateWindow option \<Rightarrow> DateWindow option" where
  "unionWindows a b =
     (if a = None then b
      else if b = None then a
      else
        let (aFrom, aTo) = windowFromProto a; (bFrom, bTo) = windowFromProto b;
            from = (if IsZero bFrom \<or> (\<not> IsZero aFrom \<and> bFrom < aFrom) then bFrom else aFrom);
            to = (if IsZero bTo \<or> (\<not> IsZero aTo \<and> aTo < bTo) then bTo else aTo)
        in Some \<lparr>w_From = (if \<not> IsZero from then Some from else None),
                 w_To = (if \<not> IsZero to then Some to else None)\<rparr>)"

fun filterLoop :: "LotteryResult list \<Rightarrow> time \<Rightarrow> time \<Rightarrow> LotteryResult list" where
  "filterLoop [] from to = []"
| "filterLoop (d # ds) from to =
     (if \<not> IsZero from \<and> DrawDate d < from then filterLoop ds from to
      else if \<not> IsZero to \<and> to < DrawDate d then filterLoop ds from to
      else d # filterLoop ds from to)"

definition filterDrawsByWindow :: "LotteryResult list \<Rightarrow> time \<Rightarrow> time \<Rightarrow> LotteryResult list" where
  "filterDrawsByWindow draws from to =
     (if IsZero from \<and> IsZero to then draws else filterLoop draws from to)"

subsection \<open>The form\<close>

fun dedupLoop :: "int list \<Rightarrow> (int \<times> bool) list \<Rightarrow> int list \<Rightarrow> int list" where
  "dedupLoop [] known result = result"
| "dedupLoop (n # ns) known result =
     (if \<not> map_get known n then dedupLoop ns (AList.update n True known) (result @ [n])
      else dedupLoop ns known result)"

definition dedupAndSort :: "int list \<Rightarrow> int list" where
  "dedupAndSort nums = sort (dedupLoop nums [] [])"

subsection \<open>One draw\<close>

definition matchToTier :: "int \<Rightarrow> bool \<Rightarrow> int" where
  "matchToTier matches strongMatched =
     (if matches = 6 then (if strongMatched then 1 else 2)
      else if matches = 5 then (if strongMatched then 3 else 4)
      else if matches = 4 then (if strongMatched then 5 else 6)
      else if matches = 3 then (if strongMatched then 7 else 8)
      else 0)"

record TierHit =
  Tier :: int
  Hits :: int
  AmountPerHit :: f64
  Total :: f64

record DrawResult =
  dr_DrawNumber :: int
  dr_DrawDate :: time
  WinningNumbers :: "int list"
  WinningStrong :: int
  TierHits :: "TierHit list"
  PrizeWon :: f64
  TicketCost :: f64
  UsedRealPrizes :: bool

fun winningLoop :: "int list \<Rightarrow> (int \<times> bool) list \<Rightarrow> (int \<times> bool) list" where
  "winningLoop [] m = m"
| "winningLoop (n # ns) m = winningLoop ns (AList.update n True m)"

fun matchLoop :: "(int \<times> bool) list \<Rightarrow> int list \<Rightarrow> int \<Rightarrow> int" where
  "matchLoop ws [] matches = matches"
| "matchLoop ws (n # ns) matches = matchLoop ws ns (if map_get ws n then matches + 1 else matches)"

fun tierLoop :: "(int \<times> bool) list \<Rightarrow> bool \<Rightarrow> int list list \<Rightarrow> int list \<Rightarrow> int list" where
  "tierLoop ws strongMatched [] counts = counts"
| "tierLoop ws strongMatched (combo # combos) counts =
     (let tier = matchToTier (matchLoop ws combo 0) strongMatched in
      tierLoop ws strongMatched combos
        (if 0 < tier then counts[nat (tier - 1) := counts ! nat (tier - 1) + 1] else counts))"

text \<open>The loop over the tiers: \<open>i\<close> is the index of the head of both lists.\<close>

fun hitLoop :: "nat \<Rightarrow> int list \<Rightarrow> f64 list \<Rightarrow> TierHit list \<Rightarrow> f64 \<Rightarrow> TierHit list \<times> f64" where
  "hitLoop i (c # cs) (p # ps) hits won =
     (if 0 < c then
        let total = fmul (f64_of_int c) p
        in hitLoop (Suc i) cs ps
             (hits @ [\<lparr>Tier = int i + 1, Hits = int32 c, AmountPerHit = p, Total = total\<rparr>]) (fadd won total)
      else hitLoop (Suc i) cs ps hits won)"
| "hitLoop i _ _ hits won = (hits, won)"

definition simulateDraw :: "LotteryResult \<Rightarrow> int list list \<Rightarrow> int \<Rightarrow> f64 list \<Rightarrow> f64 \<Rightarrow> DrawResult" where
  "simulateDraw draw combinations userStrong prizeAmounts costPerDraw =
     (let winningSet = winningLoop (d_Numbers draw) [];
          strongMatched = (0 < userStrong \<and> userStrong = d_Strong draw);
          counts = tierLoop winningSet strongMatched combinations (replicate 8 0);
          (hits, won) = hitLoop 0 counts prizeAmounts [] (Fin 0)
      in \<lparr>dr_DrawNumber = int32 (DrawNumber draw), dr_DrawDate = DrawDate draw,
          WinningNumbers = IntsToInt32s (d_Numbers draw), WinningStrong = int32 (d_Strong draw),
          TierHits = hits, PrizeWon = won, TicketCost = costPerDraw, UsedRealPrizes = False\<rparr>)"

subsection \<open>The whole request\<close>

record SimulateRequest =
  sm_Form :: "int list"
  sm_Strong :: int
  sm_ArchiveWindow :: "DateWindow option"
  sm_TicketCost :: f64
  sm_PrizeAmounts :: "f64 list"
  sm_SimulateWindow :: "DateWindow option"

record TierSummary =
  ts_Tier :: int
  ts_Label :: string
  TotalHits :: int
  TotalAmount :: f64

record SimulateSummary =
  TotalDraws :: int
  TotalCombinations :: int
  TotalSpent :: f64
  TotalWon :: f64
  Net :: f64
  TierSummaries :: "TierSummary list"
  DrawsWithRealPrizes :: int

record SimulateResponse =
  sr_Draws :: "DrawResult list"
  sr_Summary :: SimulateSummary

text \<open>The accumulators of the loop over the draws.\<close>

record totals =
  drawResults :: "DrawResult list"
  tierTotalHits :: "int list"
  tierTotalAmount :: "f64 list"
  totalSpent :: f64
  totalWon :: f64
  usingRealPrizes :: int

text \<open>The form of the request: positive numbers only, as they were sent.\<close>

definition positive_numbers :: "int list \<Rightarrow> int list" where
  "positive_numbers xs = filter (\<lambda>n. 0 < n) xs"

text \<open>Slot \<open>i\<close> of the overrides is set by a request amount that compares \<open>>= 0\<close>.\<close>

definition overrides :: "f64 list \<Rightarrow> f64 option list" where
  "overrides pa = (if length pa = 8 then map (\<lambda>p. if fle (Fin 0) p then Some p else None) pa else replicate 8 None)"

definition has_real :: "LotteryResult \<Rightarrow> bool" where
  "has_real draw \<longleftrightarrow> (case PrizeAmounts draw of None \<Rightarrow> False | Some ps \<Rightarrow> length ps = 8)"

definition draw_prizes :: "f64 option list \<Rightarrow> LotteryResult \<Rightarrow> f64 list" where
  "draw_prizes ovr draw =
     map2 (\<lambda>over p. case over of Some q \<Rightarrow> q | None \<Rightarrow> p) ovr
       (if has_real draw then the (PrizeAmounts draw) else defaultPrizeAmounts)"

fun addHits :: "TierHit list \<Rightarrow> int list \<Rightarrow> f64 list \<Rightarrow> int list \<times> f64 list" where
  "addHits [] hits amounts = (hits, amounts)"
| "addHits (h # hs) hits amounts =
     (let idx = Tier h - 1 in
      if 0 \<le> idx \<and> idx < 8
      then addHits hs (hits[nat idx := hits ! nat idx + Hits h])
             (amounts[nat idx := fadd (amounts ! nat idx) (Total h)])
      else addHits hs hits amounts)"

fun drawsLoop ::
  "int list list \<Rightarrow> int \<Rightarrow> f64 option list \<Rightarrow> f64 \<Rightarrow> LotteryResult list \<Rightarrow> totals \<Rightarrow> totals" where
  "drawsLoop combinations userStrong ovr costPerDraw [] s = s"
| "drawsLoop combinations userStrong ovr costPerDraw (draw # draws) s =
     (let drawPrizes = draw_prizes ovr draw;
          drawHasReal = has_real draw;
          r = (simulateDraw draw combinations userStrong drawPrizes costPerDraw)\<lparr>UsedRealPrizes := drawHasReal\<rparr>;
          (hits, amounts) = addHits (TierHits r) (tierTotalHits s) (tierTotalAmount s)
      in drawsLoop combinations userStrong ovr costPerDraw draws
           \<lparr>drawResults = drawResults s @ [r], tierTotalHits = hits, tierTotalAmount = amounts,
            totalSpent = fadd (totalSpent s) (TicketCost r), totalWon = fadd (totalWon s) (PrizeWon r),
            usingRealPrizes = (if drawHasReal then usingRealPrizes s + 1 else usingRealPrizes s)\<rparr>)"

definition no_totals :: totals where
  "no_totals = \<lparr>drawResults = [], tierTotalHits = replicate 8 0, tierTotalAmount = replicate 8 (Fin 0),
     totalSpent = Fin 0, totalWon = Fin 0, usingRealPrizes = 0\<rparr>"

definition ticket_cost :: "f64 \<Rightarrow> f64" where
  "ticket_cost tc = (if fle tc (Fin 0) then defaultTicketCost else tc)"

definition simulate_with :: "SimulateRequest \<Rightarrow> LotteryArchive \<Rightarrow> (error + SimulateResponse) option" where
  "simulate_with req arch =
     (let (simFrom, simTo) = windowFromProto (sm_SimulateWindow req);
          results = (if sm_SimulateWindow req \<noteq> None then filterDrawsByWindow (Draws arch) simFrom simTo
                     else Draws arch);
          form = positive_numbers (sm_Form req) in
      if length form < 6 then Some (Inl errInvalidForm)
      else
        let form = dedupAndSort form;
            form = (if 12 < length form then take 12 form else form) in
        Option.bind (generateCombinations form 6) (\<lambda>combinations.
          let numCombinations = int (length combinations);
              costPerDraw = fmul (f64_of_int numCombinations) (ticket_cost (sm_TicketCost req));
              s = drawsLoop combinations (sm_Strong req) (overrides (sm_PrizeAmounts req)) costPerDraw
                    results no_totals;
              winningDraws = filter (\<lambda>d. flt (Fin 0) (PrizeWon d)) (drawResults s);
              tierSummaries = map (\<lambda>i. \<lparr>ts_Tier = int32 (int i + 1), ts_Label = tierLabels ! i,
                TotalHits = int32 (tierTotalHits s ! i), TotalAmount = tierTotalAmount s ! i\<rparr>) [0..<8]
          in Some (Inr \<lparr>sr_Draws = winningDraws,
               sr_Summary = \<lparr>TotalDraws = int32 (int (length results)),
                 TotalCombinations = int32 (int (length results) * numCombinations),
                 TotalSpent = totalSpent s, TotalWon = totalWon s, Net = fsub (totalWon s) (totalSpent s),
                 TierSummaries = tierSummaries, DrawsWithRealPrizes = int32 (usingRealPrizes s)\<rparr>\<rparr>)))"

definition Simulate :: "range_query option \<Rightarrow> SimulateRequest \<Rightarrow> SimulateResponse handler" where
  "Simulate repo req =
     with_archive repo (unionWindows (sm_ArchiveWindow req) (sm_SimulateWindow req)) (simulate_with req)"

subsection \<open>Windows and forms\<close>

lemma filterLoop_filter: "filterLoop ds lo hi = filter (\<lambda>d. DrawDate d \<in> window_instants lo hi) ds"
  by (induction ds) (auto simp: window_instants_def)

lemma filterDrawsByWindow_filter:
  "filterDrawsByWindow ds lo hi = filter (\<lambda>d. DrawDate d \<in> window_instants lo hi) ds"
  by (auto simp: filterDrawsByWindow_def filterLoop_filter window_instants_def filter_id_conv)

definition instants_of :: "DateWindow option \<Rightarrow> time set" where
  "instants_of w = (let (lo, hi) = windowFromProto w in window_instants lo hi)"

lemma dedupLoop_spec:
  "(\<forall>n. map_get m n \<longleftrightarrow> n \<in> set res) \<Longrightarrow> distinct res \<Longrightarrow>
   distinct (dedupLoop ns m res) \<and> set (dedupLoop ns m res) = set res \<union> set ns"
proof (induction ns arbitrary: m res)
  case (Cons n ns)
  have up: "map_get (AList.update n True m) k \<longleftrightarrow> map_get m k \<or> k = n" for k
    by (simp add: map_get_def update_conv)
  show ?case
    using Cons.IH [of m res] Cons.IH [of "AList.update n True m" "res @ [n]"] Cons.prems
    by (auto simp: up)
qed simp

lemma dedupAndSort_spec: "sorted_wrt (<) (dedupAndSort ns) \<and> set (dedupAndSort ns) = set ns"
  using dedupLoop_spec [of "[]" "[]" ns] by (simp add: dedupAndSort_def strict_sorted_iff map_get_def)

subsection \<open>Counting the combinations of a tier\<close>

lemma winningLoop_get: "map_get (winningLoop ns m) k \<longleftrightarrow> map_get m k \<or> k \<in> set ns"
proof (induction ns arbitrary: m)
  case (Cons n ns)
  have "map_get (AList.update n True m) k \<longleftrightarrow> map_get m k \<or> k = n"
    by (simp add: map_get_def update_conv)
  then show ?case using Cons by auto
qed simp

lemma matchLoop_filter: "matchLoop ws c j = j + int (length (filter (map_get ws) c))"
  by (induction c arbitrary: j) auto

text \<open>The sub-lists of \<open>k\<close> elements of which exactly \<open>m\<close> lie in a set: the hypergeometric count.\<close>

lemma combs_matching:
  "length (filter (\<lambda>c. length (filter P c) = m) (combs k xs)) =
     (if m \<le> k then (length (filter P xs) choose m) * (length (filter (\<lambda>x. \<not> P x) xs) choose (k - m)) else 0)"
proof (induction k xs arbitrary: m rule: combs.induct)
  case (1 xs)
  then show ?case by (cases m) auto
next
  case (2 k)
  then show ?case by (cases m) auto
next
  case (3 k x xs)
  let ?a = "length (filter P xs)" and ?b = "length (filter (\<lambda>x. \<not> P x) xs)"
  have split: "length (filter (\<lambda>c. length (filter P c) = m) (combs (Suc k) (x # xs))) =
      length (filter (\<lambda>c. length (filter P (x # c)) = m) (combs k xs)) +
      length (filter (\<lambda>c. length (filter P c) = m) (combs (Suc k) xs))"
    by (simp add: filter_map comp_def)
  show ?case
  proof (cases "P x")
    case True
    show ?thesis
    proof (cases m)
      case 0
      then show ?thesis using 3(2) [of 0] True unfolding split by simp
    next
      case (Suc j)
      then have "length (filter (\<lambda>c. length (filter P (x # c)) = m) (combs k xs)) =
          (if j \<le> k then (?a choose j) * (?b choose (k - j)) else 0)"
        using 3(1) [of j] True by simp
      then show ?thesis using 3(2) [of m] True Suc unfolding split by (simp add: algebra_simps)
    qed
  next
    case False
    then have first: "length (filter (\<lambda>c. length (filter P (x # c)) = m) (combs k xs)) =
        (if m \<le> k then (?a choose m) * (?b choose (k - m)) else 0)"
      using 3(1) [of m] by simp
    consider "m \<le> k" | "m = Suc k" | "Suc k < m" by linarith
    then show ?thesis
      using 3(2) [of m] False first unfolding split by cases (simp_all add: Suc_diff_le algebra_simps)
  qed
qed

definition tier_of :: "bool \<Rightarrow> int list \<Rightarrow> int list \<Rightarrow> int" where
  "tier_of strongMatched numbers combo =
     matchToTier (int (length (filter (\<lambda>n. n \<in> set numbers) combo))) strongMatched"

lemma tierLoop_counts:
  assumes "\<And>k. map_get ws k \<longleftrightarrow> k \<in> set numbers"
  shows "length counts = 8 \<Longrightarrow> length (tierLoop ws s combos counts) = 8 \<and>
    (\<forall>i < 8. tierLoop ws s combos counts ! i =
       counts ! i + int (length (filter (\<lambda>c. tier_of s numbers c = int i + 1) combos)))"
proof (induction combos arbitrary: counts)
  case (Cons c cs)
  have t: "matchToTier (matchLoop ws c 0) s = tier_of s numbers c"
    by (simp add: matchLoop_filter tier_of_def assms cong: filter_cong)
  have range: "0 \<le> tier_of s numbers c \<and> tier_of s numbers c \<le> 8"
    by (simp add: tier_of_def matchToTier_def)
  let ?t = "tier_of s numbers c"
  let ?counts = "if 0 < ?t then counts[nat (?t - 1) := counts ! nat (?t - 1) + 1] else counts"
  have "?counts ! i = counts ! i + (if ?t = int i + 1 then 1 else 0)" if "i < 8" for i
    using range that Cons.prems by (auto simp: nth_list_update nat_eq_iff)
  then show ?case using Cons.IH [of ?counts] Cons.prems by (simp add: t Let_def)
qed simp

text \<open>
  Tier \<open>i + 1\<close> asks for \<open>6 - i div 2\<close> matches, with the strong number for even \<open>i\<close>; \<open>h\<close> of the
  form's \<open>n\<close> numbers were drawn.
\<close>

definition tier_count :: "nat \<Rightarrow> nat \<Rightarrow> bool \<Rightarrow> nat \<Rightarrow> int" where
  "tier_count n h strongMatched i =
     (if strongMatched \<longleftrightarrow> even i then int ((h choose (6 - i div 2)) * ((n - h) choose (i div 2))) else 0)"

lemma less_8_cases: "(i::nat) < 8 \<longleftrightarrow> i = 0 \<or> i = 1 \<or> i = 2 \<or> i = 3 \<or> i = 4 \<or> i = 5 \<or> i = 6 \<or> i = 7"
  by linarith

lemma tier_counts:
  assumes "sorted_wrt (<) form" and i: "i < 8"
  shows "int (length (filter (\<lambda>c. tier_of s numbers c = int i + 1) (combs 6 form))) =
    tier_count (length form) (card (set form \<inter> set numbers)) s i"
proof -
  let ?P = "\<lambda>n. n \<in> set numbers"
  have d: "distinct form" using assms(1) by (simp add: strict_sorted_iff)
  have h: "length (filter ?P form) = card (set form \<inter> set numbers)"
    using d by (simp add: distinct_length_filter Int_commute)
  have rest: "length (filter (\<lambda>n. \<not> ?P n) form) = length form - card (set form \<inter> set numbers)"
    using sum_length_filter_compl [of ?P form] h by simp
  have iff: "tier_of s numbers c = int i + 1 \<longleftrightarrow> (s \<longleftrightarrow> even i) \<and> length (filter ?P c) = 6 - i div 2"
    if "c \<in> set (combs 6 form)" for c
  proof -
    have "length (filter ?P c) \<le> 6" using combs_length [OF that] length_filter_le [of ?P c] by simp
    then show ?thesis
      using i unfolding less_8_cases by (elim disjE) (auto simp: tier_of_def matchToTier_def)
  qed
  show ?thesis
  proof (cases "s \<longleftrightarrow> even i")
    case True
    then have "filter (\<lambda>c. tier_of s numbers c = int i + 1) (combs 6 form) =
        filter (\<lambda>c. length (filter ?P c) = 6 - i div 2) (combs 6 form)"
      using iff by (intro filter_cong refl) blast
    moreover have "6 - (6 - i div 2) = i div 2" using i by simp
    ultimately show ?thesis
      using True by (simp add: combs_matching h rest tier_count_def)
  next
    case False
    then have "filter (\<lambda>c. tier_of s numbers c = int i + 1) (combs 6 form) = []"
      using iff by (auto simp: filter_empty_conv)
    then show ?thesis using False by (simp add: tier_count_def)
  qed
qed

subsection \<open>Exact amounts\<close>

lemma upt_Suc_map: "[0..<Suc n] = 0 # map Suc [0..<n]"
  by (simp add: map_Suc_upt upt_conv_Cons del: upt_Suc)

definition hit_at :: "nat \<Rightarrow> int list \<Rightarrow> f64 list \<Rightarrow> nat \<Rightarrow> TierHit" where
  "hit_at k counts prizes i =
     \<lparr>Tier = int (k + i) + 1, Hits = int32 (counts ! i), AmountPerHit = prizes ! i,
      Total = fmul (f64_of_int (counts ! i)) (prizes ! i)\<rparr>"

lemma hitLoop_eq:
  "length cs = length ps \<Longrightarrow> hitLoop k cs ps hits won =
     (hits @ map (hit_at k cs ps) (filter (\<lambda>i. 0 < cs ! i) [0..<length cs]),
      foldl (\<lambda>w i. fadd w (fmul (f64_of_int (cs ! i)) (ps ! i))) won (filter (\<lambda>i. 0 < cs ! i) [0..<length cs]))"
proof (induction k cs ps hits won rule: hitLoop.induct)
  case (1 k c cs p ps hits won)
  have at: "hit_at k (c # cs) (p # ps) (Suc i) = hit_at (Suc k) cs ps i" for i
    by (simp add: hit_at_def)
  have filt: "filter (\<lambda>i. 0 < (c # cs) ! i) [0..<length (c # cs)] =
      (if 0 < c then [0] else []) @ map Suc (filter (\<lambda>i. 0 < cs ! i) [0..<length cs])"
    unfolding length_Cons upt_Suc_map by (simp add: filter_map comp_def del: upt_Suc)
  show ?case
    using 1 unfolding filt
    by (auto simp: at Let_def comp_def hit_at_def foldl_map)
qed auto

lemma foldl_fadd:
  "\<forall>j \<in> set js. f j = fint (t j) \<and> 0 \<le> t j \<Longrightarrow> 0 \<le> w \<Longrightarrow> w + (\<Sum>j\<leftarrow>js. t j) < 2 ^ 53 \<Longrightarrow>
   foldl (\<lambda>w j. fadd w (f j)) (fint w) js = fint (w + (\<Sum>j\<leftarrow>js. t j))"
proof (induction js arbitrary: w)
  case (Cons j js)
  have "0 \<le> (\<Sum>j\<leftarrow>js. t j)" using Cons.prems(1) by (auto intro!: sum_list_nonneg)
  then have "fadd (fint w) (fint (t j)) = fint (w + t j)"
    using Cons.prems by (intro fadd_int) auto
  then show ?case using Cons.IH [of "w + t j"] Cons.prems by (simp add: add.assoc)
qed simp

lemma elem_le_sum_list_int:
  "\<forall>y \<in> set xs. 0 \<le> f y \<Longrightarrow> x \<in> set xs \<Longrightarrow> f x \<le> (\<Sum>y\<leftarrow>xs. (f y :: int))"
proof (induction xs)
  case (Cons a xs)
  have "0 \<le> (\<Sum>y\<leftarrow>xs. f y)" using Cons.prems by (auto intro!: sum_list_nonneg)
  then show ?case using Cons by auto
qed simp

lemma sum_list_filter_zero:
  "(\<And>x. x \<in> set xs \<Longrightarrow> \<not> P x \<Longrightarrow> f x = 0) \<Longrightarrow> (\<Sum>x\<leftarrow>filter P xs. f x) = (\<Sum>x\<leftarrow>xs. (f x :: int))"
  by (induction xs) auto

text \<open>The amount a draw pays: over the tiers, the combinations in the tier times its prize.\<close>

definition strong_ok :: "int \<Rightarrow> LotteryResult \<Rightarrow> bool" where
  "strong_ok userStrong draw \<longleftrightarrow> 0 < userStrong \<and> userStrong = d_Strong draw"

definition draw_count :: "int list \<Rightarrow> int \<Rightarrow> LotteryResult \<Rightarrow> nat \<Rightarrow> int" where
  "draw_count form userStrong draw i =
     tier_count (length form) (card (set form \<inter> set (d_Numbers draw))) (strong_ok userStrong draw) i"

definition draw_win :: "int list \<Rightarrow> int \<Rightarrow> int list \<Rightarrow> LotteryResult \<Rightarrow> int" where
  "draw_win form userStrong qs draw = (\<Sum>i\<leftarrow>[0..<8]. draw_count form userStrong draw i * qs ! i)"

lemma draw_count_nonneg [simp]: "0 \<le> draw_count form s draw i"
  by (simp add: draw_count_def tier_count_def)

lemma draw_count_le:
  assumes "sorted_wrt (<) form" and "i < 8"
  shows "draw_count form s draw i \<le> int (length form choose 6)"
  unfolding draw_count_def tier_counts [OF assms, symmetric]
  using length_filter_le [of _ "combs 6 form"] by (simp add: length_combs)

lemma choose_12_6:
  assumes "n \<le> 12"
  shows "n choose 6 \<le> 924"
proof -
  have "n choose 6 \<le> 12 choose 6"
    using assms by (rule binomial_right_mono)
  also have "12 choose 6 = (924::nat)"
    using binomial_fact_lemma [of 6 12] by (simp add: fact_numeral)
  finally show ?thesis .
qed

lemma simulateDraw_exact:
  assumes form: "sorted_wrt (<) form" "length form \<le> 12"
    and ps: "prizes = map fint qs" "length qs = 8" "\<forall>q \<in> set qs. 0 \<le> q"
    and small: "draw_win form s qs draw < 2 ^ 53"
  shows "TierHits (simulateDraw draw (combs 6 form) s prizes cost) =
      map (\<lambda>i. \<lparr>Tier = int i + 1, Hits = draw_count form s draw i, AmountPerHit = fint (qs ! i),
             Total = fint (draw_count form s draw i * qs ! i)\<rparr>)
        (filter (\<lambda>i. 0 < draw_count form s draw i) [0..<8])"
    and "PrizeWon (simulateDraw draw (combs 6 form) s prizes cost) = fint (draw_win form s qs draw)"
    and "TicketCost (simulateDraw draw (combs 6 form) s prizes cost) = cost"
    and "dr_DrawNumber (simulateDraw draw (combs 6 form) s prizes cost) = int32 (DrawNumber draw)"
proof -
  let ?c = "draw_count form s draw"
  let ?counts = "tierLoop (winningLoop (d_Numbers draw) []) (strong_ok s draw) (combs 6 form) (replicate 8 0)"
  have ws: "map_get (winningLoop (d_Numbers draw) []) k \<longleftrightarrow> k \<in> set (d_Numbers draw)" for k
    by (simp add: winningLoop_get) (simp add: map_get_def)
  have counts: "length ?counts = 8" "\<And>i. i < 8 \<Longrightarrow> ?counts ! i = ?c i"
    using tierLoop_counts [OF ws, of "replicate 8 0" "strong_ok s draw" "combs 6 form"]
    by (auto simp: tier_counts [OF form(1)] draw_count_def)
  have c: "0 \<le> ?c i" "?c i \<le> 924" if "i < 8" for i
    using draw_count_le [OF form(1) that, of s draw] choose_12_6 [OF form(2)] by simp_all
  have q: "0 \<le> qs ! i" if "i < 8" for i using ps that by simp
  have part: "?c i * qs ! i \<le> draw_win form s qs draw" if "i < 8" for i
    unfolding draw_win_def
    by (rule elem_le_sum_list_int [where f = "\<lambda>i. ?c i * qs ! i"])
      (use that q in \<open>auto simp del: upt_rec_numeral\<close>)
  have tot: "fmul (f64_of_int (?c i)) (prizes ! i) = fint (?c i * qs ! i)" if "i < 8" for i
  proof -
    have "f64_of_int (?c i) = fint (?c i)" using c [OF that] by (intro f64_of_int_exact) simp
    moreover have "prizes ! i = fint (qs ! i)" using ps that by simp
    moreover have "\<bar>?c i * qs ! i\<bar> < 2 ^ 53" using part [OF that] small c [OF that] q [OF that] by simp
    ultimately show ?thesis by (simp only: fmul_int)
  qed
  have loop: "hitLoop 0 ?counts prizes [] (Fin 0) =
      (map (hit_at 0 ?counts prizes) (filter (\<lambda>i. 0 < ?c i) [0..<8]),
       foldl (\<lambda>w i. fadd w (fmul (f64_of_int (?counts ! i)) (prizes ! i))) (Fin 0) (filter (\<lambda>i. 0 < ?c i) [0..<8]))"
  proof -
    have "filter (\<lambda>i. 0 < ?counts ! i) [0..<8] = filter (\<lambda>i. 0 < ?c i) [0..<8]"
      by (intro filter_cong refl) (simp add: counts(2) del: upt_rec_numeral)
    then show ?thesis using hitLoop_eq [of ?counts prizes 0 "[]" "Fin 0"] counts(1) ps
      by (simp del: upt_rec_numeral)
  qed
  have "map (hit_at 0 ?counts prizes) (filter (\<lambda>i. 0 < ?c i) [0..<8]) =
      map (\<lambda>i. \<lparr>Tier = int i + 1, Hits = ?c i, AmountPerHit = fint (qs ! i), Total = fint (?c i * qs ! i)\<rparr>)
        (filter (\<lambda>i. 0 < ?c i) [0..<8])"
  proof (intro map_cong refl)
    fix i assume "i \<in> set (filter (\<lambda>i. 0 < ?c i) [0..<8])"
    then have i: "i < 8" by simp
    then have "int32 (?c i) = ?c i"
      using c [OF i] order.trans [of "- (2 ^ 31)" 0 "?c i"] by (intro int32_id) simp_all
    moreover have "prizes ! i = fint (qs ! i)" using ps i by simp
    ultimately show "hit_at 0 ?counts prizes i =
        \<lparr>Tier = int i + 1, Hits = ?c i, AmountPerHit = fint (qs ! i), Total = fint (?c i * qs ! i)\<rparr>"
      unfolding hit_at_def counts(2) [OF i] tot [OF i] by simp
  qed
  moreover have "foldl (\<lambda>w i. fadd w (fmul (f64_of_int (?counts ! i)) (prizes ! i))) (fint 0)
      (filter (\<lambda>i. 0 < ?c i) [0..<8]) = fint (0 + (\<Sum>i\<leftarrow>filter (\<lambda>i. 0 < ?c i) [0..<8]. ?c i * qs ! i))"
    and "(\<Sum>i\<leftarrow>filter (\<lambda>i. 0 < ?c i) [0..<8]. ?c i * qs ! i) = draw_win form s qs draw"
  proof -
    show sum: "(\<Sum>i\<leftarrow>filter (\<lambda>i. 0 < ?c i) [0..<8]. ?c i * qs ! i) = draw_win form s qs draw"
      unfolding draw_win_def
      by (rule sum_list_filter_zero) (use c in \<open>auto simp: order.order_iff_strict simp del: upt_rec_numeral\<close>)
    show "foldl (\<lambda>w i. fadd w (fmul (f64_of_int (?counts ! i)) (prizes ! i))) (fint 0)
      (filter (\<lambda>i. 0 < ?c i) [0..<8]) = fint (0 + (\<Sum>i\<leftarrow>filter (\<lambda>i. 0 < ?c i) [0..<8]. ?c i * qs ! i))"
      by (rule foldl_fadd) (use small c q sum in \<open>auto simp: counts(2) tot simp del: upt_rec_numeral fmul.simps\<close>)
  qed
  ultimately show "TierHits (simulateDraw draw (combs 6 form) s prizes cost) =
      map (\<lambda>i. \<lparr>Tier = int i + 1, Hits = draw_count form s draw i, AmountPerHit = fint (qs ! i),
             Total = fint (draw_count form s draw i * qs ! i)\<rparr>)
        (filter (\<lambda>i. 0 < draw_count form s draw i) [0..<8])"
    and "PrizeWon (simulateDraw draw (combs 6 form) s prizes cost) = fint (draw_win form s qs draw)"
    using loop by (simp_all add: simulateDraw_def strong_ok_def [symmetric] Let_def del: upt_rec_numeral)
qed (simp_all add: simulateDraw_def Let_def split: prod.splits)


definition tier_win :: "int list \<Rightarrow> int \<Rightarrow> int list \<Rightarrow> LotteryResult \<Rightarrow> nat \<Rightarrow> int" where
  "tier_win form s qs draw i = draw_count form s draw i * qs ! i"

lemma addHits_exact:
  "distinct js \<Longrightarrow> set js \<subseteq> {..<8} \<Longrightarrow> \<forall>j \<in> set js. 0 \<le> t j \<and> 0 \<le> am j \<and> am j + t j < 2 ^ 53 \<Longrightarrow>
   addHits (map (\<lambda>i. \<lparr>Tier = int i + 1, Hits = c i, AmountPerHit = p i, Total = fint (t i)\<rparr>) js)
     (map h [0..<8]) (map (\<lambda>i. fint (am i)) [0..<8]) =
   (map (\<lambda>i. h i + (if i \<in> set js then c i else 0)) [0..<8],
    map (\<lambda>i. fint (am i + (if i \<in> set js then t i else 0))) [0..<8])"
proof (induction js arbitrary: h am)
  case (Cons j js)
  have j: "j < 8" "j \<notin> set js" using Cons.prems by auto
  have add: "fadd (fint (am j)) (fint (t j)) = fint (am j + t j)"
    using Cons.prems(3) by (intro fadd_int) auto
  have upd: "(map f [0..<8])[j := y] = map (f(j := y)) [0..<8]" for f :: "nat \<Rightarrow> 'x" and y
    by (rule nth_equalityI) (simp_all add: nth_list_update del: upt_rec_numeral)
  have "addHits (map (\<lambda>i. \<lparr>Tier = int i + 1, Hits = c i, AmountPerHit = p i, Total = fint (t i)\<rparr>) (j # js))
      (map h [0..<8]) (map (\<lambda>i. fint (am i)) [0..<8]) =
    addHits (map (\<lambda>i. \<lparr>Tier = int i + 1, Hits = c i, AmountPerHit = p i, Total = fint (t i)\<rparr>) js)
      (map (h(j := h j + c j)) [0..<8]) (map (\<lambda>i. fint ((am(j := am j + t j)) i)) [0..<8])"
    using j by (simp add: upd add Let_def fun_upd_def if_distrib [of fint] del: upt_rec_numeral fadd.simps cong del: if_weak_cong)
  also have "\<dots> = (map (\<lambda>i. (h(j := h j + c j)) i + (if i \<in> set js then c i else 0)) [0..<8],
    map (\<lambda>i. fint ((am(j := am j + t j)) i + (if i \<in> set js then t i else 0))) [0..<8])"
    by (rule Cons.IH) (use Cons.prems j in auto)
  also have "\<dots> = (map (\<lambda>i. h i + (if i \<in> set (j # js) then c i else 0)) [0..<8],
    map (\<lambda>i. fint (am i + (if i \<in> set (j # js) then t i else 0))) [0..<8])"
    using j by (auto simp del: upt_rec_numeral)
  finally show ?case .
qed simp


lemma addHits_filter:
  assumes "\<forall>i < 8. 0 \<le> t i \<and> 0 \<le> am i \<and> am i + t i < 2 ^ 53"
    and "\<And>i. i < 8 \<Longrightarrow> \<not> 0 < c i \<Longrightarrow> c i = 0 \<and> t i = 0"
  shows "addHits (map (\<lambda>i. \<lparr>Tier = int i + 1, Hits = c i, AmountPerHit = p i, Total = fint (t i)\<rparr>)
      (filter (\<lambda>i. 0 < c i) [0..<8])) (map h [0..<8]) (map (\<lambda>i. fint (am i)) [0..<8]) =
    (map (\<lambda>i. h i + c i) [0..<8], map (\<lambda>i. fint (am i + t i)) [0..<8])"
proof -
  have "addHits (map (\<lambda>i. \<lparr>Tier = int i + 1, Hits = c i, AmountPerHit = p i, Total = fint (t i)\<rparr>)
      (filter (\<lambda>i. 0 < c i) [0..<8])) (map h [0..<8]) (map (\<lambda>i. fint (am i)) [0..<8]) =
    (map (\<lambda>i. h i + (if i \<in> set (filter (\<lambda>i. 0 < c i) [0..<8]) then c i else 0)) [0..<8],
     map (\<lambda>i. fint (am i + (if i \<in> set (filter (\<lambda>i. 0 < c i) [0..<8]) then t i else 0))) [0..<8])"
    by (rule addHits_exact) (use assms(1) in \<open>auto simp del: upt_rec_numeral\<close>)
  also have "\<dots> = (map (\<lambda>i. h i + c i) [0..<8], map (\<lambda>i. fint (am i + t i)) [0..<8])"
    using assms(2) by (auto simp del: upt_rec_numeral)
  finally show ?thesis .
qed

text \<open>Integer prizes of a draw.\<close>

definition int_prizes :: "f64 list \<Rightarrow> int list \<Rightarrow> bool" where
  "int_prizes ps qs \<longleftrightarrow> ps = map fint qs \<and> length qs = 8 \<and> (\<forall>q \<in> set qs. 0 \<le> q)"

lemma tier_win_bounds:
  assumes "int_prizes ps qs" and i: "i < 8"
  shows "0 \<le> tier_win form s qs draw i" and "tier_win form s qs draw i \<le> draw_win form s qs draw"
proof -
  have q: "0 \<le> qs ! j" if "j < 8" for j using assms(1) that by (simp add: int_prizes_def)
  then show "0 \<le> tier_win form s qs draw i" using i by (simp add: tier_win_def)
  show "tier_win form s qs draw i \<le> draw_win form s qs draw"
    unfolding tier_win_def draw_win_def
    by (rule elem_le_sum_list_int [where f = "\<lambda>i. draw_count form s draw i * qs ! i"])
      (use q i in \<open>auto simp del: upt_rec_numeral\<close>)
qed

lemma draw_win_nonneg: "int_prizes ps qs \<Longrightarrow> 0 \<le> draw_win form s qs draw"
  using tier_win_bounds [of ps qs 0 form s draw] by simp

definition played :: "int list \<Rightarrow> int \<Rightarrow> f64 option list \<Rightarrow> f64 \<Rightarrow> LotteryResult \<Rightarrow> DrawResult" where
  "played form s ovr cost d =
     (simulateDraw d (combs 6 form) s (draw_prizes ovr d) cost)\<lparr>UsedRealPrizes := has_real d\<rparr>"

lemma played_fields:
  "TierHits (played form s ovr cost d) = TierHits (simulateDraw d (combs 6 form) s (draw_prizes ovr d) cost)"
  "PrizeWon (played form s ovr cost d) = PrizeWon (simulateDraw d (combs 6 form) s (draw_prizes ovr d) cost)"
  "TicketCost (played form s ovr cost d) = TicketCost (simulateDraw d (combs 6 form) s (draw_prizes ovr d) cost)"
  by (simp_all add: played_def)

lemma drawsLoop_exact:
  assumes form: "sorted_wrt (<) form" "length form \<le> 12" and "0 \<le> C"
  shows "\<forall>d \<in> set ds. int_prizes (draw_prizes ovr d) (q d) \<Longrightarrow> 0 \<le> S \<Longrightarrow> 0 \<le> W \<Longrightarrow>
    \<forall>i < 8. 0 \<le> A i \<and> A i \<le> W \<Longrightarrow>
    S + int (length ds) * C < 2 ^ 53 \<Longrightarrow> W + (\<Sum>d\<leftarrow>ds. draw_win form s (q d) d) < 2 ^ 53 \<Longrightarrow>
    drawsLoop (combs 6 form) s ovr (fint C) ds
      \<lparr>drawResults = rs, tierTotalHits = map h [0..<8], tierTotalAmount = map (\<lambda>i. fint (A i)) [0..<8],
       totalSpent = fint S, totalWon = fint W, usingRealPrizes = u\<rparr> =
      \<lparr>drawResults = rs @ map (played form s ovr (fint C)) ds,
       tierTotalHits = map (\<lambda>i. h i + (\<Sum>d\<leftarrow>ds. draw_count form s d i)) [0..<8],
       tierTotalAmount = map (\<lambda>i. fint (A i + (\<Sum>d\<leftarrow>ds. tier_win form s (q d) d i))) [0..<8],
       totalSpent = fint (S + int (length ds) * C),
       totalWon = fint (W + (\<Sum>d\<leftarrow>ds. draw_win form s (q d) d)),
       usingRealPrizes = u + int (length (filter has_real ds))\<rparr>"
proof (induction ds arbitrary: rs h A S W u)
  case (Cons d ds)
  let ?r = "played form s ovr (fint C) d" and ?w = "draw_win form s (q d) d" and ?t = "tier_win form s (q d) d"
  have ip: "int_prizes (draw_prizes ovr d) (q d)" using Cons.prems by simp
  have rest: "0 \<le> (\<Sum>d\<leftarrow>ds. draw_win form s (q d) d)"
    by (rule sum_list_nonneg) (use Cons.prems(1) draw_win_nonneg in auto)
  have w: "0 \<le> ?w" "W + ?w < 2 ^ 53" using draw_win_nonneg [OF ip] rest Cons.prems by simp_all
  have "?w < 2 ^ 53" using w Cons.prems by simp
  have ps: "draw_prizes ovr d = map fint (q d)" "length (q d) = 8" "\<forall>x \<in> set (q d). 0 \<le> x"
    using ip by (simp_all add: int_prizes_def)
  note exact = simulateDraw_exact [OF form ps \<open>?w < 2 ^ 53\<close>, of "fint C"]
  have one: "TierHits ?r = map (\<lambda>i. \<lparr>Tier = int i + 1, Hits = draw_count form s d i, AmountPerHit = fint (q d ! i),
             Total = fint (?t i)\<rparr>) (filter (\<lambda>i. 0 < draw_count form s d i) [0..<8])"
    "PrizeWon ?r = fint ?w" "TicketCost ?r = fint C"
    unfolding played_fields tier_win_def by (fact exact)+
  have ti: "0 \<le> ?t i" "?t i \<le> ?w" "0 \<le> A i" "A i \<le> W" if "i < 8" for i
    using tier_win_bounds [OF ip that] Cons.prems(4) that by simp_all
  have add: "addHits (TierHits ?r) (map h [0..<8]) (map (\<lambda>i. fint (A i)) [0..<8]) =
      (map (\<lambda>i. h i + draw_count form s d i) [0..<8], map (\<lambda>i. fint (A i + ?t i)) [0..<8])"
    unfolding one
  proof (rule addHits_filter)
    show "\<forall>i < 8. 0 \<le> ?t i \<and> 0 \<le> A i \<and> A i + ?t i < 2 ^ 53"
      using ti w(2) by (meson add_mono le_less_trans order.refl)
    show "draw_count form s d i = 0 \<and> ?t i = 0" if "\<not> 0 < draw_count form s d i" for i
      using that draw_count_nonneg [of form s d i] by (simp add: tier_win_def)
  qed
  have lenC: "0 \<le> int (length ds) * C" using assms(3) by simp
  have "S + C + int (length ds) * C < 2 ^ 53" using Cons.prems(5) by (simp add: algebra_simps)
  then have sc: "S + C < 2 ^ 53" using lenC by linarith
  have spent: "fadd (fint S) (fint C) = fint (S + C)"
    using Cons.prems(2) assms(3) sc by (intro fadd_int) simp
  have won: "fadd (fint W) (fint ?w) = fint (W + ?w)" using w Cons.prems by (intro fadd_int) auto
  have IH: "drawsLoop (combs 6 form) s ovr (fint C) ds
      \<lparr>drawResults = rs @ [?r], tierTotalHits = map (\<lambda>i. h i + draw_count form s d i) [0..<8],
       tierTotalAmount = map (\<lambda>i. fint (A i + ?t i)) [0..<8],
       totalSpent = fint (S + C), totalWon = fint (W + ?w),
       usingRealPrizes = (if has_real d then u + 1 else u)\<rparr> =
      \<lparr>drawResults = (rs @ [?r]) @ map (played form s ovr (fint C)) ds,
       tierTotalHits = map (\<lambda>i. h i + draw_count form s d i + (\<Sum>d\<leftarrow>ds. draw_count form s d i)) [0..<8],
       tierTotalAmount = map (\<lambda>i. fint (A i + ?t i + (\<Sum>d\<leftarrow>ds. tier_win form s (q d) d i))) [0..<8],
       totalSpent = fint (S + C + int (length ds) * C),
       totalWon = fint (W + ?w + (\<Sum>d\<leftarrow>ds. draw_win form s (q d) d)),
       usingRealPrizes = (if has_real d then u + 1 else u) + int (length (filter has_real ds))\<rparr>"
  proof (rule Cons.IH)
    show "\<forall>i < 8. 0 \<le> A i + ?t i \<and> A i + ?t i \<le> W + ?w"
      using ti by (meson add_mono add_nonneg_nonneg)
  qed (use Cons.prems assms(3) w in \<open>auto simp: algebra_simps\<close>)
  have "drawsLoop (combs 6 form) s ovr (fint C) (d # ds)
      \<lparr>drawResults = rs, tierTotalHits = map h [0..<8], tierTotalAmount = map (\<lambda>i. fint (A i)) [0..<8],
       totalSpent = fint S, totalWon = fint W, usingRealPrizes = u\<rparr> =
     drawsLoop (combs 6 form) s ovr (fint C) ds
      \<lparr>drawResults = rs @ [?r], tierTotalHits = map (\<lambda>i. h i + draw_count form s d i) [0..<8],
       tierTotalAmount = map (\<lambda>i. fint (A i + ?t i)) [0..<8],
       totalSpent = fint (S + C), totalWon = fint (W + ?w),
       usingRealPrizes = (if has_real d then u + 1 else u)\<rparr>"
    using add one(2,3) spent won
    by (simp only: drawsLoop.simps Let_def played_def [symmetric] split totals.simps)
  then show ?case unfolding IH by (simp add: algebra_simps del: upt_rec_numeral)
qed simp

text \<open>The draws a request backtests and the form it plays.\<close>

definition backtested :: "SimulateRequest \<Rightarrow> LotteryArchive \<Rightarrow> LotteryResult list" where
  "backtested req arch =
     (if sm_SimulateWindow req = None then Draws arch
      else filter (\<lambda>d. DrawDate d \<in> instants_of (sm_SimulateWindow req)) (Draws arch))"

definition backtest_form :: "SimulateRequest \<Rightarrow> int list" where
  "backtest_form req = take 12 (dedupAndSort (positive_numbers (sm_Form req)))"

lemma backtest_form_ok: "sorted_wrt (<) (backtest_form req)" "length (backtest_form req) \<le> 12"
  by (simp_all add: backtest_form_def dedupAndSort_spec sorted_wrt_take)

text \<open>C22: A backtested draw: the response of \<open>simulateDraw\<close> for an ascending form of at most twelve numbers
  lists exactly the tiers that are hit, with the number of combinations the hypergeometric count gives for the
  numbers the form shares with the draw, and the prize is the exact sum of count times amount, for integer
  amounts with a total below \<open>2 ^ 53\<close>.\<close>

theorem simulateDraw_pays:
  assumes "sorted_wrt (<) form" and "length form \<le> 12" and "int_prizes prizes qs"
    and "draw_win form s qs draw < 2 ^ 53"
  shows "simulateDraw draw (combs 6 form) s prizes cost =
    \<lparr>dr_DrawNumber = int32 (DrawNumber draw), dr_DrawDate = DrawDate draw,
     WinningNumbers = IntsToInt32s (d_Numbers draw), WinningStrong = int32 (d_Strong draw),
     TierHits = map (\<lambda>i. \<lparr>Tier = int i + 1, Hits = draw_count form s draw i, AmountPerHit = fint (qs ! i),
          Total = fint (draw_count form s draw i * qs ! i)\<rparr>)
        (filter (\<lambda>i. 0 < draw_count form s draw i) [0..<8]),
     PrizeWon = fint (draw_win form s qs draw), TicketCost = cost, UsedRealPrizes = False\<rparr>"
proof (rule DrawResult.equality)
  have ps: "prizes = map fint qs" "length qs = 8" "\<forall>q \<in> set qs. 0 \<le> q"
    using assms(3) by (simp_all add: int_prizes_def)
  note exact = simulateDraw_exact [OF assms(1,2) ps assms(4), of cost]
  show "TierHits (simulateDraw draw (combs 6 form) s prizes cost) = TierHits
    \<lparr>dr_DrawNumber = int32 (DrawNumber draw), dr_DrawDate = DrawDate draw,
     WinningNumbers = IntsToInt32s (d_Numbers draw), WinningStrong = int32 (d_Strong draw),
     TierHits = map (\<lambda>i. \<lparr>Tier = int i + 1, Hits = draw_count form s draw i, AmountPerHit = fint (qs ! i),
          Total = fint (draw_count form s draw i * qs ! i)\<rparr>)
        (filter (\<lambda>i. 0 < draw_count form s draw i) [0..<8]),
     PrizeWon = fint (draw_win form s qs draw), TicketCost = cost, UsedRealPrizes = False\<rparr>"
    using exact(1) by (simp only: DrawResult.simps)
  show "PrizeWon (simulateDraw draw (combs 6 form) s prizes cost) = PrizeWon
    \<lparr>dr_DrawNumber = int32 (DrawNumber draw), dr_DrawDate = DrawDate draw,
     WinningNumbers = IntsToInt32s (d_Numbers draw), WinningStrong = int32 (d_Strong draw),
     TierHits = map (\<lambda>i. \<lparr>Tier = int i + 1, Hits = draw_count form s draw i, AmountPerHit = fint (qs ! i),
          Total = fint (draw_count form s draw i * qs ! i)\<rparr>)
        (filter (\<lambda>i. 0 < draw_count form s draw i) [0..<8]),
     PrizeWon = fint (draw_win form s qs draw), TicketCost = cost, UsedRealPrizes = False\<rparr>"
    using exact(2) by (simp only: DrawResult.simps)
qed (simp_all add: simulateDraw_def Let_def split: prod.splits)

theorem simulateDraw_pays_witness:
  "PrizeWon (simulateDraw (sample_draw 1 [1, 2, 3, 4, 5, 20] 6) (combs 6 [1, 2, 3, 4, 5, 6, 7]) 6
      (map fint [5000000, 750000, 10000, 2000, 500, 150, 75, 15]) (fint 21)) = fint 22500"
proof -
  let ?qs = "[5000000, 750000, 10000, 2000, 500, 150, 75, 15]"
  have win: "draw_win [1, 2, 3, 4, 5, 6, 7] 6 ?qs (sample_draw 1 [1, 2, 3, 4, 5, 20] 6) = 22500" by code_simp
  show ?thesis
    using simulateDraw_pays [where form = "[1, 2, 3, 4, 5, 6, 7]" and qs = ?qs and s = 6
        and draw = "sample_draw 1 [1, 2, 3, 4, 5, 20] 6" and prizes = "map fint ?qs" and cost = "fint 21"]
    by (simp only: win) (simp add: int_prizes_def)
qed

lemma simulate_with_eq:
  assumes "6 \<le> length (positive_numbers (sm_Form req))"
  shows "simulate_with req arch =
    (let form = backtest_form req; ds = backtested req arch; n = int (length form choose 6);
         cost = fmul (f64_of_int n) (ticket_cost (sm_TicketCost req));
         t = drawsLoop (combs 6 form) (sm_Strong req) (overrides (sm_PrizeAmounts req)) cost ds no_totals
     in Some (Inr \<lparr>sr_Draws = filter (\<lambda>d. flt (Fin 0) (PrizeWon d)) (drawResults t),
               sr_Summary = \<lparr>TotalDraws = int32 (int (length ds)),
                 TotalCombinations = int32 (int (length ds) * n),
                 TotalSpent = totalSpent t, TotalWon = totalWon t, Net = fsub (totalWon t) (totalSpent t),
                 TierSummaries = map (\<lambda>i. \<lparr>ts_Tier = int32 (int i + 1), ts_Label = tierLabels ! i,
                   TotalHits = int32 (tierTotalHits t ! i), TotalAmount = tierTotalAmount t ! i\<rparr>) [0..<8],
                 DrawsWithRealPrizes = int32 (usingRealPrizes t)\<rparr>\<rparr>))"
proof -
  have form_eq: "(if 12 < length (dedupAndSort (positive_numbers (sm_Form req)))
      then take 12 (dedupAndSort (positive_numbers (sm_Form req)))
      else dedupAndSort (positive_numbers (sm_Form req))) = backtest_form req"
    by (simp add: backtest_form_def)
  have combs: "generateCombinations f 6 = Some (combs 6 f)" for f :: "int list"
    by (simp add: generateCombinations_combs)
  obtain lo hi where w: "windowFromProto (sm_SimulateWindow req) = (lo, hi)" by fastforce
  have ds: "(if sm_SimulateWindow req \<noteq> None then filterDrawsByWindow (Draws arch) lo hi else Draws arch) =
      backtested req arch"
    by (simp add: backtested_def filterDrawsByWindow_filter instants_of_def w)
  show ?thesis
    using assms unfolding simulate_with_def w split Let_def form_eq combs ds
    by (simp add: length_combs del: upt_rec_numeral)
qed

lemma backtest_cost:
  assumes "sm_TicketCost req = fint c" "0 < c" "c < 2 ^ 43" "0 \<le> n" "n \<le> 924"
  shows "fmul (f64_of_int n) (ticket_cost (sm_TicketCost req)) = fint (n * c)" "0 \<le> n * c" "n * c < 2 ^ 53"
proof -
  show nc: "0 \<le> n * c" "n * c < 2 ^ 53" using assms mult_mono [of n 924 c "2 ^ 43"] by simp_all
  have "ticket_cost (sm_TicketCost req) = fint c"
    using assms(1,2) fle_int [of c 0] by (simp add: ticket_cost_def)
  moreover have "f64_of_int n = fint n" using assms(4,5) by (intro f64_of_int_exact) simp
  ultimately show "fmul (f64_of_int n) (ticket_cost (sm_TicketCost req)) = fint (n * c)"
    using nc by (simp only: fmul_int abs_of_nonneg)
qed

lemma winning_draws:
  assumes form: "sorted_wrt (<) form" "length form \<le> 12"
    and ip: "\<forall>d \<in> set ds. int_prizes (draw_prizes ovr d) (q d)"
    and dw: "\<And>d. d \<in> set ds \<Longrightarrow> 0 \<le> draw_win form s (q d) d"
    and won: "(\<Sum>d\<leftarrow>ds. draw_win form s (q d) d) < 2 ^ 53"
  shows "filter (\<lambda>d. flt (Fin 0) (PrizeWon d)) (map (played form s ovr cost) ds) =
      map (played form s ovr cost) (filter (\<lambda>d. 0 < draw_win form s (q d) d) ds)"
proof -
  have "PrizeWon (played form s ovr cost d) = fint (draw_win form s (q d) d)" if "d \<in> set ds" for d
  proof -
    have "draw_win form s (q d) d \<le> (\<Sum>d\<leftarrow>ds. draw_win form s (q d) d)"
      by (rule elem_le_sum_list_int [where f = "\<lambda>d. draw_win form s (q d) d"])
        (use that dw in auto)
    then have "draw_win form s (q d) d < 2 ^ 53" using won by simp
    moreover have "int_prizes (draw_prizes ovr d) (q d)" using ip that by simp
    ultimately show ?thesis unfolding played_fields int_prizes_def by (auto intro!: simulateDraw_exact(2) form)
  qed
  then show ?thesis
    by (simp add: filter_map comp_def flt_int [of 0, simplified] cong: filter_cong)
qed

text \<open>C8: The totals of a backtest: with integer ticket cost and prizes and totals below \<open>2 ^ 53\<close>, \<open>Simulate\<close>
  answers (it does not panic), spends one ticket per combination and draw, wins the sum of the draws' prizes,
  the net is their exact difference, every tier total is the sum over the draws, and exactly the winning draws are
  listed, in their order.\<close>

theorem Simulate_totals:
  assumes "6 \<le> length (positive_numbers (sm_Form req))"
    and "sm_TicketCost req = fint c" and "0 < c" and "c < 2 ^ 43"
    and "\<forall>d \<in> set (backtested req arch). int_prizes (draw_prizes (overrides (sm_PrizeAmounts req)) d) (q d)"
    and "int (length (backtested req arch)) * (int (length (backtest_form req) choose 6) * c) < 2 ^ 53"
    and "(\<Sum>d\<leftarrow>backtested req arch. draw_win (backtest_form req) (sm_Strong req) (q d) d) < 2 ^ 53"
  shows "simulate_with req arch =
    (let form = backtest_form req; ds = backtested req arch; n = int (length form choose 6);
         spent = int (length ds) * (n * c); won = (\<Sum>d\<leftarrow>ds. draw_win form (sm_Strong req) (q d) d)
     in Some (Inr
       \<lparr>sr_Draws = map (played form (sm_Strong req) (overrides (sm_PrizeAmounts req)) (fint (n * c)))
          (filter (\<lambda>d. 0 < draw_win form (sm_Strong req) (q d) d) ds),
        sr_Summary = \<lparr>TotalDraws = int32 (int (length ds)), TotalCombinations = int32 (int (length ds) * n),
          TotalSpent = fint spent, TotalWon = fint won, Net = fint (won - spent),
          TierSummaries = map (\<lambda>i. \<lparr>ts_Tier = int32 (int i + 1), ts_Label = tierLabels ! i,
            TotalHits = int32 (\<Sum>d\<leftarrow>ds. draw_count form (sm_Strong req) d i),
            TotalAmount = fint (\<Sum>d\<leftarrow>ds. tier_win form (sm_Strong req) (q d) d i)\<rparr>) [0..<8],
          DrawsWithRealPrizes = int32 (int (length (filter has_real ds)))\<rparr>\<rparr>))"
proof -
  define form where "form = backtest_form req"
  define ds where "ds = backtested req arch"
  define s where "s = sm_Strong req"
  define ovr where "ovr = overrides (sm_PrizeAmounts req)"
  define n where "n = int (length form choose 6)"
  note form = backtest_form_ok [of req, folded form_def]
  have n: "0 \<le> n" "n \<le> 924" using choose_12_6 [OF form(2)] by (simp_all add: n_def)
  note cost = backtest_cost(1) [OF assms(2-4) n] and nc = backtest_cost(2,3) [OF assms(2-4) n]
  have ip: "\<forall>d \<in> set ds. int_prizes (draw_prizes ovr d) (q d)"
    using assms(5) by (simp add: ds_def ovr_def)
  have dw: "0 \<le> draw_win form s (q d) d" if "d \<in> set ds" for d
    by (rule draw_win_nonneg) (use ip that in blast)
  have won: "0 \<le> (\<Sum>d\<leftarrow>ds. draw_win form s (q d) d)" "(\<Sum>d\<leftarrow>ds. draw_win form s (q d) d) < 2 ^ 53"
    using dw assms(7) by (auto intro!: sum_list_nonneg simp: ds_def form_def s_def)
  have spent: "0 \<le> int (length ds) * (n * c)" "int (length ds) * (n * c) < 2 ^ 53"
    using nc assms(6) by (simp_all add: ds_def form_def n_def)
  have nt: "no_totals = \<lparr>drawResults = [], tierTotalHits = map (\<lambda>_. 0) [0..<8],
      tierTotalAmount = map (\<lambda>_. fint 0) [0..<8], totalSpent = fint 0, totalWon = fint 0, usingRealPrizes = 0\<rparr>"
    by (simp add: no_totals_def map_replicate_const)
  have loop: "drawsLoop (combs 6 form) s ovr (fint (n * c)) ds no_totals =
      \<lparr>drawResults = map (played form s ovr (fint (n * c))) ds,
       tierTotalHits = map (\<lambda>i. \<Sum>d\<leftarrow>ds. draw_count form s d i) [0..<8],
       tierTotalAmount = map (\<lambda>i. fint (\<Sum>d\<leftarrow>ds. tier_win form s (q d) d i)) [0..<8],
       totalSpent = fint (int (length ds) * (n * c)),
       totalWon = fint (\<Sum>d\<leftarrow>ds. draw_win form s (q d) d),
       usingRealPrizes = int (length (filter has_real ds))\<rparr>"
    using drawsLoop_exact [OF form nc(1) ip, of 0 0 "\<lambda>_. 0" s "[]" "\<lambda>_. 0" 0] spent won
    unfolding nt by (simp del: upt_rec_numeral)
  note winning = winning_draws [OF form ip dw won(2), of "fint (n * c)"]
  have net: "fsub (fint (\<Sum>d\<leftarrow>ds. draw_win form s (q d) d)) (fint (int (length ds) * (n * c))) =
      fint ((\<Sum>d\<leftarrow>ds. draw_win form s (q d) d) - int (length ds) * (n * c))"
    using spent won by (intro fsub_int) linarith
  show ?thesis
    unfolding simulate_with_eq [OF assms(1)] Let_def form_def [symmetric] ds_def [symmetric] s_def [symmetric]
      ovr_def [symmetric] n_def [symmetric] cost loop
    by (simp add: winning net nth_map_upt [of _ 8 0, simplified] del: upt_rec_numeral of_int_mult of_int_diff cong: map_cong)
qed

text \<open>A two-draw backtest for the concrete instances: seven numbers, one winning draw out of two.\<close>

definition sample_request :: SimulateRequest where
  "sample_request = \<lparr>sm_Form = [1, 2, 3, 4, 5, 6, 7], sm_Strong = 6, sm_ArchiveWindow = None,
     sm_TicketCost = fint 3, sm_PrizeAmounts = [], sm_SimulateWindow = None\<rparr>"

definition sample_draws :: "LotteryResult list" where
  "sample_draws = [sample_draw 1 [1, 2, 3, 4, 5, 20] 6, sample_draw 2 [31, 32, 33, 34, 35, 36] 1]"

theorem Simulate_totals_witness:
  "\<exists>a r. NewLotteryArchive Lottery 0 0 sample_draws = Some a \<and> simulate_with sample_request a = Some (Inr r) \<and>
     TotalSpent (sr_Summary r) = fint 42 \<and> TotalWon (sr_Summary r) = fint 22500 \<and>
     Net (sr_Summary r) = fint 22458 \<and> map dr_DrawNumber (sr_Draws r) = [1]"
proof -
  let ?qs = "[5000000, 750000, 10000, 2000, 500, 150, 75, 15]"
  obtain a where a: "NewLotteryArchive Lottery 0 0 sample_draws = Some a" "archive_of Lottery sample_draws a"
    using NewLotteryArchive_ok [of Lottery 0 0 sample_draws] by auto
  have ds: "backtested sample_request a = sample_draws"
    using a(2) by (simp add: backtested_def sample_request_def archive_of_def)
  have form: "backtest_form sample_request = [1, 2, 3, 4, 5, 6, 7]" by code_simp
  have req: "sm_Strong sample_request = 6" "sm_TicketCost sample_request = fint 3"
    "positive_numbers (sm_Form sample_request) = [1, 2, 3, 4, 5, 6, 7]"
    by (simp_all add: sample_request_def positive_numbers_def)
  have prizes: "draw_prizes (overrides (sm_PrizeAmounts sample_request)) d = map fint ?qs" if "d \<in> set sample_draws" for d
    using that by (auto simp: sample_draws_def sample_draw_def draw_prizes_def overrides_def sample_request_def
        has_real_def defaultPrizeAmounts_def eval_nat_numeral)
  have win: "draw_win [1, 2, 3, 4, 5, 6, 7] 6 ?qs (sample_draw 1 [1, 2, 3, 4, 5, 20] 6) = 22500"
    "draw_win [1, 2, 3, 4, 5, 6, 7] 6 ?qs (sample_draw 2 [31, 32, 33, 34, 35, 36] 1) = 0" by code_simp+
  have choose: "length [1, 2, 3, 4, 5, 6, 7 :: int] choose 6 = 7" by code_simp
  have sum: "(\<Sum>d\<leftarrow>sample_draws. draw_win [1, 2, 3, 4, 5, 6, 7] 6 ?qs d) = 22500"
    by (simp add: sample_draws_def win)
  have len: "length sample_draws = 2" by (simp add: sample_draws_def)
  have filt: "filter (\<lambda>d. 0 < draw_win [1, 2, 3, 4, 5, 6, 7] 6 ?qs d) sample_draws =
      [sample_draw 1 [1, 2, 3, 4, 5, 20] 6]"
    by (simp add: sample_draws_def win)
  have number: "dr_DrawNumber (played f s ovr c (sample_draw 1 ns t)) = 1" for f s ovr c ns t
    by (simp add: played_def simulateDraw_def sample_draw_def Let_def int32_id split: prod.splits)
  note totals = Simulate_totals [where req = sample_request and arch = a and c = 3 and q = "\<lambda>_. ?qs",
      unfolded ds req choose form sum len filt Let_def]
  have "simulate_with sample_request a = Some (Inr r) \<longrightarrow> TotalSpent (sr_Summary r) = fint 42 \<and>
      TotalWon (sr_Summary r) = fint 22500 \<and> Net (sr_Summary r) = fint 22458 \<and> map dr_DrawNumber (sr_Draws r) = [1]"
    for r
    using prizes by (subst totals) (auto simp add: int_prizes_def number simp del: upt_rec_numeral)
  moreover have "\<exists>r. simulate_with sample_request a = Some (Inr r)"
    using prizes by (subst totals) (simp_all add: int_prizes_def del: upt_rec_numeral)
  ultimately show ?thesis using a(1) by blast
qed

subsection \<open>The range that is loaded\<close>

text \<open>With both windows set, the union that Simulate loads has exactly the earlier lower and the later upper bound, an
  unset bound winning, and so covers every instant of the archive window and of the backtest window.\<close>

theorem unionWindows_spans:
  "windowFromProto (unionWindows (Some a) (Some b)) =
     (let (aFrom, aTo) = windowFromProto (Some a); (bFrom, bTo) = windowFromProto (Some b)
      in (if IsZero aFrom \<or> IsZero bFrom then 0 else min aFrom bFrom,
          if IsZero aTo \<or> IsZero bTo then 0 else max aTo bTo)) \<and>
   instants_of (Some a) \<union> instants_of (Some b) \<subseteq> instants_of (unionWindows (Some a) (Some b))"
proof -
  obtain af at' bf bt where w: "windowFromProto (Some a) = (af, at')" "windowFromProto (Some b) = (bf, bt)" by fastforce
  have bounds: "windowFromProto (unionWindows (Some a) (Some b)) =
      (if IsZero af \<or> IsZero bf then 0 else min af bf, if IsZero at' \<or> IsZero bt then 0 else max at' bt)"
    using w by (auto simp: unionWindows_def windowFromProto_def IsZero_def min_def max_def Let_def split: option.splits)
  show ?thesis
    by (simp add: bounds instants_of_def w) (auto simp: window_instants_def IsZero_def min_def max_def)
qed

lemma unionWindows_covers:
  "w \<noteq> None \<Longrightarrow> instants_of w \<subseteq> instants_of (unionWindows a w)"
  using unionWindows_spans by (cases a; cases w) (auto simp: unionWindows_def)

lemma simulate_with_short:
  "length (positive_numbers (sm_Form req)) < 6 \<Longrightarrow> simulate_with req a = Some (Inl errInvalidForm)"
  by (simp add: simulate_with_def split: prod.splits)

lemma simulate_with_total: "\<exists>res. simulate_with req a = Some res"
  using simulate_with_short [of req a] simulate_with_eq [of req a]
  by (cases "length (positive_numbers (sm_Form req)) < 6") (auto simp: Let_def)



subsection \<open>Repeated numbers\<close>

lemma hitLoop_zeros: "hitLoop k (replicate n 0) ps hits won = (hits, won)"
proof (induction n arbitrary: k ps)
  case (Suc n)
  then show ?case by (cases ps) simp_all
qed simp

lemma drawsLoop_nothing:
  "totalSpent s = Fin 0 \<Longrightarrow> totalWon s = Fin 0 \<Longrightarrow> \<forall>r \<in> set (drawResults s). PrizeWon r = Fin 0 \<Longrightarrow>
   let t = drawsLoop [] strong ovr (Fin 0) ds s
   in totalSpent t = Fin 0 \<and> totalWon t = Fin 0 \<and> (\<forall>r \<in> set (drawResults t). PrizeWon r = Fin 0)"
proof (induction ds arbitrary: s)
  case (Cons d ds)
  have draw: "simulateDraw d [] strong ps (Fin 0) =
      \<lparr>dr_DrawNumber = int32 (DrawNumber d), dr_DrawDate = DrawDate d,
       WinningNumbers = IntsToInt32s (d_Numbers d), WinningStrong = int32 (d_Strong d),
       TierHits = [], PrizeWon = Fin 0, TicketCost = Fin 0, UsedRealPrizes = False\<rparr>" for ps
    using hitLoop_zeros [of 0 8 ps "[]" "Fin 0"] by (simp add: simulateDraw_def Let_def)
  have zero: "fadd (Fin 0) (Fin 0) = Fin 0" using fadd_int [of 0 0] by simp
  let ?s = "\<lparr>drawResults = drawResults s @ [(simulateDraw d [] strong (draw_prizes ovr d) (Fin 0))\<lparr>UsedRealPrizes := has_real d\<rparr>],
    tierTotalHits = tierTotalHits s, tierTotalAmount = tierTotalAmount s, totalSpent = Fin 0, totalWon = Fin 0,
    usingRealPrizes = (if has_real d then usingRealPrizes s + 1 else usingRealPrizes s)\<rparr>"
  have "drawsLoop [] strong ovr (Fin 0) (d # ds) s = drawsLoop [] strong ovr (Fin 0) ds ?s"
    using Cons.prems(1,2) by (simp add: draw Let_def zero del: fadd.simps)
  then show ?case using Cons.IH [of ?s] Cons.prems by (simp only:) (simp add: draw)
qed (simp add: Let_def)

text \<open>The length check counts the numbers before repeated ones are dropped: a form that repeats one number
  six times is accepted, plays no combination and reports a backtest that cost nothing and won nothing.\<close>

theorem Simulate_repeated:
  "\<exists>r. simulate_with (sample_request\<lparr>sm_Form := [1, 1, 1, 1, 1, 1]\<rparr>) arch = Some (Inr r) \<and>
     TotalCombinations (sr_Summary r) = 0 \<and> TotalSpent (sr_Summary r) = fint 0 \<and>
     TotalWon (sr_Summary r) = fint 0 \<and> sr_Draws r = []"
proof -
  let ?req = "sample_request\<lparr>sm_Form := [1, 1, 1, 1, 1, 1]\<rparr>"
  have form: "backtest_form ?req = [1]" by code_simp
  have choose: "length [1::int] choose 6 = 0" "combs 6 [1::int] = []"
    by (simp_all add: combs_eq_Nil binomial_eq_0)
  have long: "6 \<le> length (positive_numbers (sm_Form ?req))" by (simp add: positive_numbers_def)
  have ds: "backtested ?req arch = Draws arch" by (simp add: backtested_def sample_request_def)
  have cost: "fmul (f64_of_int 0) (ticket_cost (sm_TicketCost sample_request)) = Fin 0"
    using fmul_int [of 0 3] f64_of_int_exact [of 0]
    by (simp add: sample_request_def ticket_cost_def fle_int [of 3 0, simplified] del: fmul.simps)
  have no: "totalSpent no_totals = Fin 0" "totalWon no_totals = Fin 0"
    "\<forall>r \<in> set (drawResults no_totals). PrizeWon r = Fin 0" by (simp_all add: no_totals_def)
  let ?t = "drawsLoop [] (sm_Strong ?req) (overrides (sm_PrizeAmounts ?req)) (Fin 0) (Draws arch) no_totals"
  have t: "totalSpent ?t = Fin 0" "totalWon ?t = Fin 0" "\<forall>r \<in> set (drawResults ?t). PrizeWon r = Fin 0"
    using drawsLoop_nothing [OF no, unfolded Let_def] by blast+
  have "filter (\<lambda>d. flt (Fin 0) (PrizeWon d)) (drawResults ?t) = []"
    using t(3) flt_int [of 0 0] by (auto simp: filter_empty_conv)
  then show ?thesis
    using t(1,2) unfolding simulate_with_eq [OF long] choose Let_def ds form
    by (simp add: cost int32_id del: fmul.simps upt_rec_numeral)
qed

end
