(* ===== verification/Config.thy ===== *)
theory Config
  imports Go_Strings
begin

section \<open>Configuration\<close>

text \<open>
  \<open>internal/config/config.go\<close>. The environment is a function from names to values, the empty string for an
  unset variable as with \<open>os.Getenv\<close>. The search for a \<open>.env\<close> file goes up the directories; whether a file
  exists and whether \<open>godotenv\<close> can load it are parameters. Log lines are left out.
\<close>

record ServerConfig =
  GRPCPort :: string
  GatewayPort :: string

record DatabaseConfig =
  Host :: string
  db_Port :: string
  User :: string
  Password :: string
  DBName :: string
  SSLMode :: string
  Schema :: string

record AuthConfig =
  Enabled :: bool
  JWKSURL :: string
  Issuer :: string
  Audience :: string

record ScraperConfig =
  Cron :: string
  SeedOnBoot :: bool

record Configuration =
  cfg_Server :: ServerConfig
  cfg_Database :: DatabaseConfig
  cfg_Auth :: AuthConfig
  cfg_Scraper :: ScraperConfig
  cfg_RedisURL :: string

type_synonym environment = "string \<Rightarrow> string"

definition GetEnv :: "environment \<Rightarrow> string \<Rightarrow> string \<Rightarrow> string" where
  "GetEnv env key defaultValue = (if env key \<noteq> [] then env key else defaultValue)"

definition GetEnvAsBool :: "environment \<Rightarrow> string \<Rightarrow> bool \<Rightarrow> bool" where
  "GetEnvAsBool env key defaultValue =
     (if env key \<noteq> [] then (case ParseBool (env key) of Some b \<Rightarrow> b | None \<Rightarrow> defaultValue) else defaultValue)"

definition Load :: "environment \<Rightarrow> Configuration" where
  "Load env = \<lparr>
     cfg_Server = \<lparr>GRPCPort = GetEnv env ''GRPC_PORT'' ''9090'', GatewayPort = GetEnv env ''GATEWAY_PORT'' ''8080''\<rparr>,
     cfg_Database = \<lparr>Host = GetEnv env ''DB_HOST'' ''localhost'', db_Port = GetEnv env ''DB_PORT'' ''5432'',
       User = GetEnv env ''DB_USER'' ''postgres'', Password = GetEnv env ''DB_PASSWORD'' ''postgres'',
       DBName = GetEnv env ''DB_NAME'' ''statistiloto'', SSLMode = GetEnv env ''DB_SSLMODE'' ''disable'',
       Schema = GetEnv env ''DB_SCHEMA'' ''lottery''\<rparr>,
     cfg_Auth = \<lparr>Enabled = GetEnvAsBool env ''AUTH_ENABLED'' True,
       JWKSURL = GetEnv env ''KEYCLOAK_JWKS_URL''
         ''http://auth:8080/realms/statistiloto/protocol/openid-connect/certs'',
       Issuer = GetEnv env ''KEYCLOAK_ISSUER'' '''',
       Audience = GetEnv env ''KEYCLOAK_AUDIENCE'' ''statistiloto-ui''\<rparr>,
     cfg_Scraper = \<lparr>Cron = GetEnv env ''LOTTERY_SCRAPER_CRON'' ''0 3 * * *'',
       SeedOnBoot = GetEnvAsBool env ''LOTTERY_SEED_ON_BOOT'' True\<rparr>,
     cfg_RedisURL = GetEnv env ''REDIS_URL'' ''''\<rparr>"

text \<open>A directory is the list of its components, the innermost first; the root is \<open>[]\<close>. The result is the directory
  whose file was loaded.\<close>

fun env_file_loop :: "(string list \<Rightarrow> bool) \<Rightarrow> (string list \<Rightarrow> bool) \<Rightarrow> string list \<Rightarrow> string list option" where
  "env_file_loop exists load [] = (if exists [] \<and> load [] then Some [] else None)"
| "env_file_loop exists load (d # ds) =
     (if exists (d # ds) \<and> load (d # ds) then Some (d # ds) else env_file_loop exists load ds)"

definition loadEnvFile :: "bool \<Rightarrow> (string list \<Rightarrow> bool) \<Rightarrow> (string list \<Rightarrow> bool) \<Rightarrow> string list \<Rightarrow> string list option" where
  "loadEnvFile here exists load dir = (if here then Some dir else env_file_loop exists load dir)"

text \<open>\<open>internal/database/postgres.go\<close>: the connection string.\<close>

definition buildConnectionString :: "DatabaseConfig \<Rightarrow> string" where
  "buildConnectionString cfg =
     ''host='' @ Host cfg @ '' port='' @ db_Port cfg @ '' user='' @ User cfg @ '' password='' @ Password cfg @
     '' dbname='' @ DBName cfg @ '' sslmode='' @ SSLMode cfg"

text \<open>The nearest enclosing directory with a loadable file wins.\<close>

lemma env_file_loop_suffix:
  "env_file_loop exists load dir = Some d \<Longrightarrow> (\<exists>below. dir = below @ d) \<and> exists d \<and> load d"
  by (induction dir) (auto split: if_splits)

lemma Load_defaults: "Enabled (cfg_Auth (Load (\<lambda>_. []))) \<and> Issuer (cfg_Auth (Load (\<lambda>_. []))) = []"
  by (simp add: Load_def GetEnv_def GetEnvAsBool_def)

end
