(* ===== verification/Auth.thy ===== *)
theory Auth
  imports Config
begin

section \<open>Authentication\<close>

text \<open>
  \<open>internal/middleware/auth.go\<close>: the cache of the realm's keys, the validation of a token, and the two guards
  that use it. The JWKS endpoint is a parameter, its reply after the JSON decoding. \<open>github.com/golang-jwt/jwt\<close> is
  third-party: \<open>decode\<close> is what it reads off a token without trusting it, \<open>verifies\<close> its check of the
  signature and of the time claims with a key; \<open>ParseWithClaims\<close> puts them together in the documented order
  (decode, allowed method, key function, verification). Times are instants; the middleware is its configuration and
  the lazily created cache.
\<close>

type_synonym error = string

subsection \<open>Keys\<close>

record jwksKey =
  Kty :: string
  Kid :: string
  Use :: string
  key_N :: string
  key_E :: string

record PublicKey =
  modulus :: int
  exponent :: int

text \<open>\<open>base64.RawURLEncoding\<close>: the value of a character, and the bytes of groups of four; the decoder skips line
  breaks and does not check the bits left over.\<close>

definition b64_value :: "char \<Rightarrow> nat option" where
  "b64_value c =
     (let n = of_char c :: nat in
      if 65 \<le> n \<and> n \<le> 90 then Some (n - 65)
      else if 97 \<le> n \<and> n \<le> 122 then Some (n - 71)
      else if 48 \<le> n \<and> n \<le> 57 then Some (n + 4)
      else if c = CHR ''-'' then Some 62
      else if c = CHR ''_'' then Some 63
      else None)"

fun b64_values :: "string \<Rightarrow> nat list option" where
  "b64_values [] = Some []"
| "b64_values (c # cs) =
     (if c = newline \<or> c = creturn then b64_values cs
      else case b64_value c of
        None \<Rightarrow> None
      | Some v \<Rightarrow> (case b64_values cs of None \<Rightarrow> None | Some vs \<Rightarrow> Some (v # vs)))"

fun b64_bytes :: "nat list \<Rightarrow> nat list option" where
  "b64_bytes [] = Some []"
| "b64_bytes [a] = None"
| "b64_bytes [a, b] = Some [(a * 4 + b div 16) mod 256]"
| "b64_bytes [a, b, c] = Some [(a * 4 + b div 16) mod 256, (b * 16 + c div 4) mod 256]"
| "b64_bytes (a # b # c # d # rest) =
     (case b64_bytes rest of
        None \<Rightarrow> None
      | Some bs \<Rightarrow> Some ((a * 4 + b div 16) mod 256 # (b * 16 + c div 4) mod 256 # (c * 64 + d) mod 256 # bs))"

definition base64URLDecode :: "string \<Rightarrow> nat list option" where
  "base64URLDecode s = Option.bind (b64_values (TrimRight s CHR ''='')) b64_bytes"

text \<open>The loop over the bytes of the exponent, on a 64-bit \<open>int\<close>.\<close>

fun exponentLoop :: "nat list \<Rightarrow> int \<Rightarrow> int" where
  "exponentLoop [] e = e"
| "exponentLoop (b # bs) e = exponentLoop bs (int64 (int64 (e * 256) + int b))"

definition SetBytes :: "nat list \<Rightarrow> int" where
  "SetBytes bs = foldl (\<lambda>n b. n * 256 + int b) 0 bs"

definition parseRSAPublicKey :: "string \<Rightarrow> string \<Rightarrow> error + PublicKey" where
  "parseRSAPublicKey nB64 eB64 =
     (case base64URLDecode nB64 of
        None \<Rightarrow> Inl ''invalid modulus''
      | Some n \<Rightarrow>
          (case base64URLDecode eB64 of
             None \<Rightarrow> Inl ''invalid exponent''
           | Some e \<Rightarrow>
               let x = exponentLoop e 0 in
               if x = 0 then Inl ''invalid exponent value''
               else Inr \<lparr>modulus = SetBytes n, exponent = x\<rparr>))"

subsection \<open>The key cache\<close>

record jwksCache =
  jc_keys :: "(string \<times> PublicKey) list"
  fetchedAt :: time
  jc_ttl :: int
  jc_url :: string

definition minute :: int where "minute = 60 * 1000000000"

definition newJWKSCache :: "string \<Rightarrow> jwksCache" where
  "newJWKSCache url = \<lparr>jc_keys = [], fetchedAt = 0, jc_ttl = 15 * minute, jc_url = url\<rparr>"

datatype jwks_reply =
    BadURL error
  | FetchFailed error
  | BadStatus int
  | Unreadable error
  | BadJSON error
  | Keys "jwksKey list"

type_synonym endpoint = "string \<Rightarrow> jwks_reply"

fun keysLoop :: "jwksKey list \<Rightarrow> (string \<times> PublicKey) list \<Rightarrow> (string \<times> PublicKey) list" where
  "keysLoop [] keys = keys"
| "keysLoop (k # ks) keys =
     (if Kty k \<noteq> ''RSA'' \<or> Use k \<noteq> ''sig'' then keysLoop ks keys
      else case parseRSAPublicKey (key_N k) (key_E k) of
        Inl _ \<Rightarrow> keysLoop ks keys
      | Inr pub \<Rightarrow> keysLoop ks (AList.update (Kid k) pub keys))"

definition is_fresh :: "time \<Rightarrow> jwksCache \<Rightarrow> bool" where
  "is_fresh now c \<longleftrightarrow> now - fetchedAt c < jc_ttl c"

definition refresh :: "endpoint \<Rightarrow> time \<Rightarrow> jwksCache \<Rightarrow> error option \<times> jwksCache" where
  "refresh endpoint now c =
     (if 0 < length (jc_keys c) \<and> is_fresh now c then (None, c)
      else case endpoint (jc_url c) of
        BadURL e \<Rightarrow> (Some (''failed to create JWKS request: '' @ e), c)
      | FetchFailed e \<Rightarrow> (Some (''failed to fetch JWKS: '' @ e), c)
      | BadStatus n \<Rightarrow> (Some (''JWKS endpoint returned status '' @ Itoa n), c)
      | Unreadable e \<Rightarrow> (Some (''failed to read JWKS response: '' @ e), c)
      | BadJSON e \<Rightarrow> (Some (''failed to parse JWKS JSON: '' @ e), c)
      | Keys ks \<Rightarrow>
          let keys = keysLoop ks [] in
          if keys = [] then (Some ''no valid RSA signing keys in JWKS'', c)
          else (None, c\<lparr>jc_keys := keys, fetchedAt := now\<rparr>))"

definition get_key :: "endpoint \<Rightarrow> time \<Rightarrow> string \<Rightarrow> jwksCache \<Rightarrow> (error + PublicKey) \<times> jwksCache" where
  "get_key endpoint now kid c =
     (case map_of (jc_keys c) kid of
        Some key \<Rightarrow> if is_fresh now c then (Inr key, c) else
          (case refresh endpoint now c of
             (Some e, c) \<Rightarrow> (Inl e, c)
           | (None, c) \<Rightarrow>
               (case map_of (jc_keys c) kid of
                  Some key \<Rightarrow> (Inr key, c) | None \<Rightarrow> (Inl (''key not found for kid: '' @ kid), c)))
      | None \<Rightarrow>
          (case refresh endpoint now c of
             (Some e, c) \<Rightarrow> (Inl e, c)
           | (None, c) \<Rightarrow>
               (case map_of (jc_keys c) kid of
                  Some key \<Rightarrow> (Inr key, c) | None \<Rightarrow> (Inl (''key not found for kid: '' @ kid), c))))"

subsection \<open>Tokens\<close>

text \<open>A claim value: a string, a list of strings, a list of values, or another value with its \<open>%v\<close> text.\<close>

datatype claim = CStr string | CStrings "string list" | CList "claim list" | COther string

fun join_spaces :: "string list \<Rightarrow> string" where
  "join_spaces [] = []"
| "join_spaces [x] = x"
| "join_spaces (x # xs) = x @ '' '' @ join_spaces xs"

fun Sprintv :: "claim \<Rightarrow> string" where
  "Sprintv (CStr s) = s"
| "Sprintv (COther t) = t"
| "Sprintv (CStrings ss) = ''['' @ join_spaces ss @ '']''"
| "Sprintv (CList cs) = ''['' @ join_spaces (map Sprintv cs) @ '']''"

definition audienceContains :: "claim option \<Rightarrow> string \<Rightarrow> bool" where
  "audienceContains aud expected =
     (case aud of
        Some (CStr v) \<Rightarrow> v = expected
      | Some (CStrings v) \<Rightarrow> list_ex (\<lambda>a. a = expected) v
      | Some (CList v) \<Rightarrow> list_ex (\<lambda>a. Sprintv a = expected) v
      | _ \<Rightarrow> False)"

record token =
  alg :: string
  is_rsa :: bool
  kid_header :: "claim option"
  claims :: "(string \<times> claim) list"

definition claim_string :: "claim option \<Rightarrow> string" where
  "claim_string c = (case c of Some (CStr s) \<Rightarrow> s | _ \<Rightarrow> [])"

record AuthMiddleware =
  am_cfg :: AuthConfig
  am_jwks :: "jwksCache option"

definition NewAuthMiddleware :: "AuthConfig \<Rightarrow> AuthMiddleware" where
  "NewAuthMiddleware cfg = \<lparr>am_cfg = cfg, am_jwks = None\<rparr>"

definition keyFunc :: "AuthMiddleware \<Rightarrow> jwksCache \<times> AuthMiddleware" where
  "keyFunc am =
     (case am_jwks am of
        Some c \<Rightarrow> (c, am)
      | None \<Rightarrow> let c = newJWKSCache (JWKSURL (am_cfg am)) in (c, am\<lparr>am_jwks := Some c\<rparr>))"

text \<open>The surroundings of a validation.\<close>

record auth_env =
  endpoint_of :: endpoint
  auth_now :: time
  decode :: "string \<Rightarrow> token option"
  verifies :: "string \<Rightarrow> PublicKey \<Rightarrow> bool"

text \<open>
  The callback that chooses the key of a token: \<open>lookup\<close> is \<open>cache.get\<close>. \<open>ParseWithClaims\<close> is the library's, with the
  callback on a state and \<open>WithValidMethods\<close> of \<open>RS256\<close>: parse, check the method, ask for the key, verify.
\<close>

definition token_key ::
  "(string \<Rightarrow> 'c \<Rightarrow> (error + PublicKey) \<times> 'c) \<Rightarrow> token \<Rightarrow> 'c \<Rightarrow> (error + PublicKey) \<times> 'c" where
  "token_key lookup t c =
     (if \<not> is_rsa t then (Inl (''unexpected signing method: '' @ alg t), c)
      else lookup (claim_string (kid_header t)) c)"

definition ParseWithClaims ::
  "auth_env \<Rightarrow> string \<Rightarrow> (token \<Rightarrow> 'c \<Rightarrow> (error + PublicKey) \<times> 'c) \<Rightarrow> 'c \<Rightarrow> token option \<times> 'c" where
  "ParseWithClaims env tokenString key_of c =
     (case decode env tokenString of
        None \<Rightarrow> (None, c)
      | Some t \<Rightarrow>
          if alg t \<noteq> ''RS256'' then (None, c)
          else (case key_of t c of
             (Inl e, c) \<Rightarrow> (None, c)
           | (Inr key, c) \<Rightarrow> (if verifies env tokenString key then Some t else None, c)))"

definition cache_key :: "auth_env \<Rightarrow> token \<Rightarrow> jwksCache \<Rightarrow> (error + PublicKey) \<times> jwksCache" where
  "cache_key env = token_key (get_key (endpoint_of env) (auth_now env))"

definition validateTokenString :: "auth_env \<Rightarrow> string \<Rightarrow> AuthMiddleware \<Rightarrow> error option \<times> AuthMiddleware" where
  "validateTokenString env tokenString am =
     (let (c, am) = keyFunc am; (res, c) = ParseWithClaims env tokenString (cache_key env) c; am = am\<lparr>am_jwks := Some c\<rparr> in
      case res of
        None \<Rightarrow> (Some ''Invalid token'', am)
      | Some t \<Rightarrow>
          if Issuer (am_cfg am) \<noteq> [] \<and> claim_string (map_of (claims t) ''iss'') \<noteq> Issuer (am_cfg am)
          then (Some ''Invalid token issuer'', am)
          else if Audience (am_cfg am) \<noteq> [] \<and> \<not> audienceContains (map_of (claims t) ''aud'') (Audience (am_cfg am))
          then (Some ''Invalid token audience'', am)
          else (None, am))"

definition validateAuthHeader :: "auth_env \<Rightarrow> string \<Rightarrow> AuthMiddleware \<Rightarrow> error option \<times> AuthMiddleware" where
  "validateAuthHeader env authHeader am =
     (if authHeader = [] then (Some ''Authorization header required'', am)
      else
        let tokenString = TrimPrefix authHeader ''Bearer '' in
        if tokenString = authHeader then (Some ''Invalid authorization header format'', am)
        else validateTokenString env tokenString am)"

subsection \<open>The guards\<close>

text \<open>\<open>JWT\<close>: \<open>Inl\<close> is the 401 answer, \<open>Inr\<close> means that the next handler is called.\<close>

definition JWT :: "auth_env \<Rightarrow> string \<Rightarrow> AuthMiddleware \<Rightarrow> (error + unit) \<times> AuthMiddleware" where
  "JWT env authHeader am =
     (if \<not> Enabled (am_cfg am) then (Inr (), am)
      else case validateAuthHeader env authHeader am of
        (Some e, am) \<Rightarrow> (Inl e, am)
      | (None, am) \<Rightarrow> (Inr (), am))"

text \<open>The text of \<open>status.Error(codes.Unauthenticated, msg)\<close>.\<close>

definition Unauthenticated :: "string \<Rightarrow> error" where
  "Unauthenticated msg = ''rpc error: code = Unauthenticated desc = '' @ msg"

text \<open>The interceptor: the incoming metadata, \<open>None\<close> when there is none, as the values of \<open>authorization\<close>.\<close>

definition GRPCUnaryInterceptor ::
  "auth_env \<Rightarrow> string list option \<Rightarrow> AuthMiddleware \<Rightarrow> (error + unit) \<times> AuthMiddleware" where
  "GRPCUnaryInterceptor env md am =
     (if \<not> Enabled (am_cfg am) then (Inr (), am)
      else case md of
        None \<Rightarrow> (Inl (Unauthenticated ''Authorization metadata required''), am)
      | Some [] \<Rightarrow> (Inl (Unauthenticated ''Authorization header required''), am)
      | Some (v # _) \<Rightarrow>
          (case validateAuthHeader env v am of
             (Some e, am) \<Rightarrow> (Inl (Unauthenticated e), am)
           | (None, am) \<Rightarrow> (Inr (), am)))"

subsection \<open>The key source as an interface\<close>

text \<open>
  What the validation of a token needs of its key source: on a good state \<open>lookup\<close> gives only keys that are \<open>trusted\<close>
  for the asked id, and leaves a good state.
\<close>

locale key_source =
  fixes lookup :: "string \<Rightarrow> 'c \<Rightarrow> (error + PublicKey) \<times> 'c" and good :: "'c \<Rightarrow> bool"
    and trusted :: "string \<Rightarrow> PublicKey \<Rightarrow> bool"
  assumes lookup: "good c \<Longrightarrow> lookup kid c = (res, c') \<Longrightarrow> good c' \<and> (\<forall>pub. res = Inr pub \<longrightarrow> trusted kid pub)"
begin

lemma parsed:
  assumes "good c" and "ParseWithClaims env tok (token_key lookup) c = (res, c')"
  shows "good c'"
    and "\<And>t. res = Some t \<Longrightarrow> decode env tok = Some t \<and> alg t = ''RS256'' \<and> is_rsa t \<and>
      (\<exists>pub. trusted (claim_string (kid_header t)) pub \<and> verifies env tok pub)"
proof -
  have "good c' \<and> (\<forall>t. res = Some t \<longrightarrow> decode env tok = Some t \<and> alg t = ''RS256'' \<and> is_rsa t \<and>
      (\<exists>pub. trusted (claim_string (kid_header t)) pub \<and> verifies env tok pub))"
  proof (cases "decode env tok")
    case (Some t)
    obtain k c1 where k: "lookup (claim_string (kid_header t)) c = (k, c1)" by fastforce
    show ?thesis
      using assms Some k lookup [OF assms(1) k] by (auto simp: ParseWithClaims_def token_key_def split: if_splits sum.splits)
  qed (use assms in \<open>auto simp: ParseWithClaims_def\<close>)
  then show "good c'"
    and "\<And>t. res = Some t \<Longrightarrow> decode env tok = Some t \<and> alg t = ''RS256'' \<and> is_rsa t \<and>
      (\<exists>pub. trusted (claim_string (kid_header t)) pub \<and> verifies env tok pub)" by blast+
qed

end

subsection \<open>Where keys come from\<close>

text \<open>\<open>trusted\<close> are the keys the realm has published.\<close>

definition published :: "jwksKey set \<Rightarrow> string \<Rightarrow> PublicKey \<Rightarrow> bool" where
  "published trusted kid pub \<longleftrightarrow> (\<exists>k \<in> trusted. Kid k = kid \<and> Kty k = ''RSA'' \<and> Use k = ''sig'' \<and>
     parseRSAPublicKey (key_N k) (key_E k) = Inr pub)"

definition cache_published :: "jwksKey set \<Rightarrow> jwksCache \<Rightarrow> bool" where
  "cache_published trusted c \<longleftrightarrow> (\<forall>kid pub. map_of (jc_keys c) kid = Some pub \<longrightarrow> published trusted kid pub)"

definition endpoint_published :: "jwksKey set \<Rightarrow> endpoint \<Rightarrow> bool" where
  "endpoint_published trusted endpoint \<longleftrightarrow> (\<forall>url ks. endpoint url = Keys ks \<longrightarrow> set ks \<subseteq> trusted)"

lemma keysLoop_published:
  "set ks \<subseteq> trusted \<Longrightarrow> (\<forall>kid pub. map_of keys kid = Some pub \<longrightarrow> published trusted kid pub) \<Longrightarrow>
   map_of (keysLoop ks keys) kid = Some pub \<Longrightarrow> published trusted kid pub"
proof (induction ks keys rule: keysLoop.induct)
  case (2 k ks keys)
  show ?case
  proof (cases "Kty k \<noteq> ''RSA'' \<or> Use k \<noteq> ''sig''")
    case True
    then show ?thesis using 2(1) "2.prems" by auto
  next
    case False
    show ?thesis
    proof (cases "parseRSAPublicKey (key_N k) (key_E k)")
      case (Inl e)
      then show ?thesis using 2(2) "2.prems" False by auto
    next
      case (Inr p)
      have "published trusted (Kid k) p" using False Inr "2.prems"(1) by (auto simp: published_def)
      then have "\<forall>kid pub. map_of (AList.update (Kid k) p keys) kid = Some pub \<longrightarrow> published trusted kid pub"
        using "2.prems"(2) by (simp add: update_conv)
      then show ?thesis using 2(3) [OF False Inr] "2.prems" False Inr by simp
    qed
  qed
qed simp

lemma refresh_published:
  assumes "endpoint_published trusted endpoint" and "cache_published trusted c" and "refresh endpoint now c = (res, c')"
  shows "cache_published trusted c'"
proof (cases "endpoint (jc_url c)")
  case (Keys ks)
  have "set ks \<subseteq> trusted" using assms(1) Keys by (auto simp: endpoint_published_def)
  then have "map_of (keysLoop ks []) kid = Some pub \<Longrightarrow> published trusted kid pub" for kid pub
    using keysLoop_published [of ks trusted "[]"] by simp
  then show ?thesis
    using assms(2,3) Keys by (auto simp: refresh_def cache_published_def Let_def split: if_splits)
qed (use assms(2,3) in \<open>auto simp: refresh_def split: if_splits\<close>)

lemma get_key_published:
  assumes "endpoint_published trusted endpoint" and "cache_published trusted c" and "get_key endpoint now kid c = (res, c')"
  shows "cache_published trusted c'" and "\<And>pub. res = Inr pub \<Longrightarrow> published trusted kid pub"
proof -
  obtain e c1 where r: "refresh endpoint now c = (e, c1)" by fastforce
  have c1: "cache_published trusted c1" using refresh_published [OF assms(1,2) r] .
  have "cache_published trusted c' \<and> (\<forall>pub. res = Inr pub \<longrightarrow> published trusted kid pub)"
    using assms(2,3) r c1
    by (auto simp: get_key_def cache_published_def split: option.splits if_splits)
  then show "cache_published trusted c'" and "\<And>pub. res = Inr pub \<Longrightarrow> published trusted kid pub" by blast+
qed

text \<open>What an accepted call must have shown.\<close>

definition claims_ok :: "AuthConfig \<Rightarrow> token \<Rightarrow> bool" where
  "claims_ok cfg t \<longleftrightarrow>
     (Issuer cfg = [] \<or> claim_string (map_of (claims t) ''iss'') = Issuer cfg) \<and>
     (Audience cfg = [] \<or> audienceContains (map_of (claims t) ''aud'') (Audience cfg))"

definition signed_call :: "auth_env \<Rightarrow> AuthConfig \<Rightarrow> (string \<Rightarrow> PublicKey \<Rightarrow> bool) \<Rightarrow> string \<Rightarrow> bool" where
  "signed_call env cfg key_ok authHeader \<longleftrightarrow>
     (\<exists>tok t pub. authHeader = ''Bearer '' @ tok \<and> decode env tok = Some t \<and> alg t = ''RS256'' \<and> is_rsa t \<and>
        key_ok (claim_string (kid_header t)) pub \<and> verifies env tok pub \<and> claims_ok cfg t)"

definition middleware_ok :: "jwksKey set \<Rightarrow> AuthMiddleware \<Rightarrow> bool" where
  "middleware_ok trusted am \<longleftrightarrow> (case am_jwks am of None \<Rightarrow> True | Some c \<Rightarrow> cache_published trusted c)"

interpretation realm: key_source "get_key endpoint now" "\<lambda>c. endpoint_published trusted endpoint \<and> cache_published trusted c"
  "published trusted" for endpoint :: endpoint and now :: time and trusted :: "jwksKey set"
  by unfold_locales (use get_key_published in blast)

lemma validateTokenString_safe:
  assumes "endpoint_published trusted (endpoint_of env)" and "middleware_ok trusted am"
    and out: "validateTokenString env tok am = (res, am')"
  shows "middleware_ok trusted am' \<and> am_cfg am' = am_cfg am"
    and "res = None \<Longrightarrow> signed_call env (am_cfg am) (published trusted) (''Bearer '' @ tok)"
proof -
  obtain c am1 where k: "keyFunc am = (c, am1)" by fastforce
  have k1: "cache_published trusted c" "am_cfg am1 = am_cfg am"
    using k assms(2)
    by (auto simp: keyFunc_def middleware_ok_def newJWKSCache_def cache_published_def Let_def split: option.splits)
  obtain p c1 where p: "ParseWithClaims env tok (cache_key env) c = (p, c1)" by fastforce
  note pc = realm.parsed [OF conjI [OF assms(1) k1(1)] p [unfolded cache_key_def]]
  have am': "am' = am1\<lparr>am_jwks := Some c1\<rparr>"
    using out k p by (auto simp: validateTokenString_def Let_def split: option.splits if_splits)
  show "middleware_ok trusted am' \<and> am_cfg am' = am_cfg am" using am' pc(1) k1(2) by (simp add: middleware_ok_def)
  show "signed_call env (am_cfg am) (published trusted) (''Bearer '' @ tok)" if accepted: "res = None"
  proof -
    obtain t where "p = Some t" "claims_ok (am_cfg am) t"
      using out k p accepted k1(2)
      by (auto simp: validateTokenString_def claims_ok_def Let_def split: option.splits if_splits)
    then show ?thesis using pc(2) by (fastforce simp: signed_call_def)
  qed
qed

lemma validateAuthHeader_safe:
  assumes "endpoint_published trusted (endpoint_of env)" and "middleware_ok trusted am"
    and out: "validateAuthHeader env h am = (res, am')"
  shows "middleware_ok trusted am' \<and> am_cfg am' = am_cfg am"
    and "res = None \<Longrightarrow> signed_call env (am_cfg am) (published trusted) h"
proof -
  have "middleware_ok trusted am' \<and> am_cfg am' = am_cfg am \<and>
    (res = None \<longrightarrow> signed_call env (am_cfg am) (published trusted) h)"
  proof (cases "strip_prefix ''Bearer '' h")
    case None
    then show ?thesis using out assms(2) by (auto simp: validateAuthHeader_def TrimPrefix_def split: if_splits)
  next
    case (Some tok)
    then have h: "h = ''Bearer '' @ tok" by (simp add: strip_prefix_Some)
    then have "validateTokenString env tok am = (res, am')"
      using out Some by (simp add: validateAuthHeader_def TrimPrefix_def)
    from validateTokenString_safe [OF assms(1,2) this] show ?thesis using h by auto
  qed
  then show "middleware_ok trusted am' \<and> am_cfg am' = am_cfg am"
    and "res = None \<Longrightarrow> signed_call env (am_cfg am) (published trusted) h" by blast+
qed

text \<open>With a fresh, non-empty cache the keys in it decide, whatever the endpoint would say.\<close>

lemma get_key_fresh:
  assumes "is_fresh now c" and "jc_keys c \<noteq> []"
  shows "get_key endpoint now kid c =
    (case map_of (jc_keys c) kid of Some key \<Rightarrow> Inr key | None \<Rightarrow> Inl (''key not found for kid: '' @ kid), c)"
  using assms by (auto simp: get_key_def refresh_def split: option.splits)

lemma ParseWithClaims_fresh:
  assumes "is_fresh (auth_now env) c" and "jc_keys c \<noteq> []"
  shows "fst (ParseWithClaims env tok (cache_key env) c) = Some t \<longleftrightarrow> decode env tok = Some t \<and> alg t = ''RS256'' \<and> is_rsa t \<and>
    (\<exists>pub. map_of (jc_keys c) (claim_string (kid_header t)) = Some pub \<and> verifies env tok pub)"
proof (cases "decode env tok")
  case (Some u)
  show ?thesis
    using get_key_fresh [OF assms, of "endpoint_of env" "claim_string (kid_header u)"]
    by (cases "map_of (jc_keys c) (claim_string (kid_header u))") (auto simp: ParseWithClaims_def cache_key_def token_key_def Some)
qed (simp add: ParseWithClaims_def)

lemma validateTokenString_fresh:
  assumes "am_jwks am = Some c" and "is_fresh (auth_now env) c" and "jc_keys c \<noteq> []"
  shows "fst (validateTokenString env tok am) = None \<longleftrightarrow> (\<exists>t pub. decode env tok = Some t \<and> alg t = ''RS256'' \<and> is_rsa t \<and>
        map_of (jc_keys c) (claim_string (kid_header t)) = Some pub \<and> verifies env tok pub \<and> claims_ok (am_cfg am) t)"
proof -
  obtain p c1 where p: "ParseWithClaims env tok (cache_key env) c = (p, c1)" by fastforce
  have "fst (validateTokenString env tok am) = None \<longleftrightarrow> (\<exists>t. p = Some t \<and> claims_ok (am_cfg am) t)"
    by (cases p) (auto simp: validateTokenString_def keyFunc_def assms(1) p claims_ok_def Let_def)
  then show ?thesis using ParseWithClaims_fresh [OF assms(2,3), of tok] p by auto
qed

lemma validateAuthHeader_fresh:
  assumes "am_jwks am = Some c" and "is_fresh (auth_now env) c" and "jc_keys c \<noteq> []"
  shows "fst (validateAuthHeader env h am) = None \<longleftrightarrow>
    signed_call env (am_cfg am) (\<lambda>kid pub. map_of (jc_keys c) kid = Some pub) h"
proof (cases "strip_prefix ''Bearer '' h")
  case None
  then have "\<nexists>tok. h = ''Bearer '' @ tok" by (metis option.distinct(1) strip_prefix_Some)
  then show ?thesis using None by (auto simp: validateAuthHeader_def TrimPrefix_def signed_call_def)
next
  case (Some tok)
  then have h: "h = ''Bearer '' @ tok" by (simp add: strip_prefix_Some)
  have "fst (validateAuthHeader env h am) = fst (validateTokenString env tok am)"
    using h Some by (simp add: validateAuthHeader_def TrimPrefix_def)
  then show ?thesis
    using validateTokenString_fresh [OF assms] by (auto simp: signed_call_def h)
qed

subsection \<open>Asking twice\<close>

text \<open>The middleware as the code creates it never holds a cache that expires at once.\<close>

definition ttl_positive :: "AuthMiddleware \<Rightarrow> bool" where
  "ttl_positive am \<longleftrightarrow> (\<forall>c. am_jwks am = Some c \<longrightarrow> 0 < jc_ttl c)"

lemma ttl_positive_new: "ttl_positive (NewAuthMiddleware cfg)"
  by (simp add: ttl_positive_def NewAuthMiddleware_def)

lemma refresh_ttl: "refresh endpoint now c = (res, c') \<Longrightarrow> jc_ttl c' = jc_ttl c"
  by (auto simp: refresh_def Let_def split: if_splits jwks_reply.splits)

lemma get_key_ttl: "get_key endpoint now kid c = (res, c') \<Longrightarrow> jc_ttl c' = jc_ttl c"
  by (auto simp: get_key_def dest: refresh_ttl split: option.splits if_splits prod.splits)

text \<open>A key that was given is in the cache, and the cache is fresh, so at the same instant it is given again.\<close>

lemma get_key_again:
  assumes "get_key endpoint now kid c = (Inr pub, c')" and "0 < jc_ttl c"
  shows "get_key endpoint now kid c' = (Inr pub, c')"
proof -
  have "map_of (jc_keys c') kid = Some pub \<and> is_fresh now c'"
    using assms
    by (auto simp: get_key_def refresh_def is_fresh_def Let_def split: option.splits if_splits prod.splits jwks_reply.splits)
  then show ?thesis by (simp add: get_key_def)
qed

lemma ParseWithClaims_again:
  assumes "ParseWithClaims env tok (cache_key env) c = (Some t, c')" and "0 < jc_ttl c"
  shows "ParseWithClaims env tok (cache_key env) c' = (Some t, c')"
  using assms get_key_again
  by (fastforce simp: ParseWithClaims_def cache_key_def token_key_def split: option.splits if_splits prod.splits sum.splits)

lemma keyFunc_ttl: "keyFunc am = (c, am1) \<Longrightarrow> ttl_positive am \<Longrightarrow> 0 < jc_ttl c \<and> am_cfg am1 = am_cfg am"
  by (auto simp: keyFunc_def ttl_positive_def newJWKSCache_def minute_def Let_def split: option.splits)

lemma ParseWithClaims_ttl:
  "ParseWithClaims env tok (cache_key env) c = (res, c') \<Longrightarrow> jc_ttl c' = jc_ttl c"
  using get_key_ttl
  by (fastforce simp: ParseWithClaims_def cache_key_def token_key_def split: option.splits if_splits prod.splits sum.splits)

lemma validateTokenString_again:
  assumes "validateTokenString env tok am = (None, am')" and "ttl_positive am"
  shows "validateTokenString env tok am' = (None, am')"
proof -
  obtain c am1 where k: "keyFunc am = (c, am1)" by fastforce
  note ttl = keyFunc_ttl [OF k assms(2)]
  obtain p c1 where p: "ParseWithClaims env tok (cache_key env) c = (p, c1)" by fastforce
  then obtain t where t: "p = Some t" "am' = am1\<lparr>am_jwks := Some c1\<rparr>"
    "\<not> (Issuer (am_cfg am1) \<noteq> [] \<and> claim_string (map_of (claims t) ''iss'') \<noteq> Issuer (am_cfg am1))"
    "\<not> (Audience (am_cfg am1) \<noteq> [] \<and> \<not> audienceContains (map_of (claims t) ''aud'') (Audience (am_cfg am1)))"
    using assms(1) k by (auto simp: validateTokenString_def Let_def split: option.splits if_splits)
  have "ParseWithClaims env tok (cache_key env) c1 = (Some t, c1)"
    using ParseWithClaims_again [OF p [unfolded t(1)]] ttl by blast
  then show ?thesis using t(2-4) by (simp add: validateTokenString_def keyFunc_def Let_def)
qed

lemma validateAuthHeader_again:
  assumes "validateAuthHeader env h am = (None, am')" and "ttl_positive am"
  shows "validateAuthHeader env h am' = (None, am')"
  using assms validateTokenString_again [OF _ assms(2)] by (auto simp: validateAuthHeader_def Let_def split: if_splits)

lemma validateTokenString_ttl:
  assumes "validateTokenString env tok am = (res, am')" and "ttl_positive am"
  shows "ttl_positive am' \<and> am_cfg am' = am_cfg am"
proof -
  obtain c am1 where k: "keyFunc am = (c, am1)" by fastforce
  obtain p c1 where p: "ParseWithClaims env tok (cache_key env) c = (p, c1)" by fastforce
  have "am' = am1\<lparr>am_jwks := Some c1\<rparr>"
    using assms(1) k p by (auto simp: validateTokenString_def Let_def split: option.splits if_splits)
  then show ?thesis using keyFunc_ttl [OF k assms(2)] ParseWithClaims_ttl [OF p] by (simp add: ttl_positive_def)
qed

lemma validateAuthHeader_ttl:
  "validateAuthHeader env h am = (res, am') \<Longrightarrow> ttl_positive am \<Longrightarrow> ttl_positive am' \<and> am_cfg am' = am_cfg am"
  using validateTokenString_ttl by (auto simp: validateAuthHeader_def Let_def split: if_splits)

end
