(* ===== verification/Gateway.thy ===== *)
theory Gateway
  imports Auth
begin

section \<open>The two entrances: REST gateway and gRPC server\<close>

text \<open>
  \<open>internal/server/gateway.go\<close>, \<open>internal/middleware/auth.go\<close> and \<open>internal/middleware/logging.go\<close>: the chain of
  handlers in front of the generated gateway, and the interceptor in front of the service. What lies behind is a
  function on the shared middleware and a state \<open>'s\<close> of its own; \<open>None\<close> is a panic. The redirects with which
  \<open>http.ServeMux\<close> answers paths that are not in canonical form are left out.
\<close>

record request =
  rq_Method :: string
  rq_Path :: string
  rq_Authorization :: string
  rq_Body :: string

record reply =
  rp_Status :: int
  rp_Headers :: "(string \<times> string) list"
  rp_Body :: string

definition cors_headers :: "(string \<times> string) list" where
  "cors_headers =
    [(''Access-Control-Allow-Origin'', ''*''),
     (''Access-Control-Allow-Methods'', ''GET, POST, PUT, DELETE, OPTIONS''),
     (''Access-Control-Allow-Headers'', ''Accept, Authorization, Content-Type, X-CSRF-Token'')]"

text \<open>The headers the gateway's mux lets through to the service.\<close>

definition incomingHeaderMatcher :: "string \<Rightarrow> string \<times> bool" where
  "incomingHeaderMatcher key =
     (key, key \<in> set [''authorization'', ''content-type'', ''accept'', ''x-csrf-token'', ''x-request-id''])"

type_synonym 's backend = "request \<Rightarrow> AuthMiddleware \<times> 's \<Rightarrow> (reply \<times> AuthMiddleware \<times> 's) option"

text \<open>\<open>http.Error\<close>.\<close>

definition http_Error :: "error \<Rightarrow> int \<Rightarrow> reply" where
  "http_Error e code =
     \<lparr>rp_Status = code,
      rp_Headers = [(''Content-Type'', ''text/plain; charset=utf-8''), (''X-Content-Type-Options'', ''nosniff'')],
      rp_Body = e @ [newline]\<rparr>"

definition jwt_handler :: "auth_env \<Rightarrow> 's backend \<Rightarrow> 's backend" where
  "jwt_handler env backend rq st =
     (case JWT env (rq_Authorization rq) (fst st) of
        (Inl e, am) \<Rightarrow> Some (http_Error e 401, am, snd st)
      | (Inr _, am) \<Rightarrow> backend rq (am, snd st))"

definition corsMiddleware :: "'s backend \<Rightarrow> 's backend" where
  "corsMiddleware h rq st =
     (if rq_Method rq = ''OPTIONS'' then Some (\<lparr>rp_Status = 200, rp_Headers = cors_headers, rp_Body = []\<rparr>, st)
      else map_option (\<lambda>(rp, st). (rp\<lparr>rp_Headers := cors_headers @ rp_Headers rp\<rparr>, st)) (h rq st))"

definition health_reply :: reply where
  "health_reply =
     \<lparr>rp_Status = 200, rp_Headers = [(''Content-Type'', ''application/json'')],
      rp_Body = ''{'' @ [quote] @ ''status'' @ [quote] @ '':'' @ [quote] @ ''healthy'' @ [quote] @ ''}''\<rparr>"

text \<open>The root handler that \<open>NewGatewayServer\<close> installs.\<close>

definition gateway :: "auth_env \<Rightarrow> 's backend \<Rightarrow> 's backend" where
  "gateway env backend rq st =
     (if rq_Path rq = ''/health'' then Some (health_reply, st)
      else corsMiddleware (jwt_handler env backend) rq st)"

text \<open>\<open>Logging\<close> records the status code and passes the reply on unchanged.\<close>

definition Logging :: "(request \<Rightarrow> 'a \<Rightarrow> (reply \<times> 'a) option) \<Rightarrow> request \<Rightarrow> 'a \<Rightarrow> (string \<times> string \<times> int) list \<Rightarrow>
    ((reply \<times> 'a) \<times> (string \<times> string \<times> int) list) option" where
  "Logging h rq st log =
     map_option (\<lambda>(rp, st). ((rp, st), log @ [(rq_Method rq, rq_Path rq, rp_Status rp)])) (h rq st)"

text \<open>A unary call behind the interceptor.\<close>

definition grpc_call ::
  "auth_env \<Rightarrow> ('s \<Rightarrow> ('r \<times> 's) option) \<Rightarrow> string list option \<Rightarrow> AuthMiddleware \<times> 's \<Rightarrow>
   ((error + 'r) \<times> AuthMiddleware \<times> 's) option" where
  "grpc_call env service md st =
     (case GRPCUnaryInterceptor env md (fst st) of
        (Inl e, am) \<Rightarrow> Some (Inl e, am, snd st)
      | (Inr _, am) \<Rightarrow> map_option (\<lambda>(r, s). (Inr r, am, s)) (service (snd st)))"

subsection \<open>Nothing passes unsigned\<close>

lemma JWT_safe:
  assumes "endpoint_published trusted (endpoint_of env)" and "middleware_ok trusted am"
    and "JWT env h am = (res, am')"
  shows "middleware_ok trusted am' \<and> am_cfg am' = am_cfg am \<and>
    (Enabled (am_cfg am) \<and> res = Inr () \<longrightarrow> signed_call env (am_cfg am) (published trusted) h)"
proof -
  obtain e am1 where v: "validateAuthHeader env h am = (e, am1)" by fastforce
  show ?thesis
    using assms(2,3) v validateAuthHeader_safe [OF assms(1,2) v] by (auto simp: JWT_def split: if_splits option.splits)
qed

lemma interceptor_safe:
  assumes "endpoint_published trusted (endpoint_of env)" and "middleware_ok trusted am"
    and "GRPCUnaryInterceptor env md am = (res, am')"
  shows "middleware_ok trusted am' \<and> am_cfg am' = am_cfg am \<and>
    (Enabled (am_cfg am) \<and> res = Inr () \<longrightarrow>
      (\<exists>v vs. md = Some (v # vs) \<and> signed_call env (am_cfg am) (published trusted) v))"
proof (cases md)
  case (Some vs)
  show ?thesis
  proof (cases vs)
    case Nil
    then show ?thesis using assms(2,3) Some by (auto simp: GRPCUnaryInterceptor_def split: if_splits)
  next
    case (Cons v ws)
    obtain e am1 where v: "validateAuthHeader env v am = (e, am1)" by fastforce
    show ?thesis
      using assms(2,3) Some Cons v validateAuthHeader_safe [OF assms(1,2) v]
      by (auto simp: GRPCUnaryInterceptor_def split: if_splits option.splits)
  qed
qed (use assms(2,3) in \<open>auto simp: GRPCUnaryInterceptor_def split: if_splits\<close>)

text \<open>What the guards do with a request they refuse, for every backend.\<close>

lemma gateway_refuses:
  assumes "JWT env (rq_Authorization rq) am = (Inl e, am')" and "rq_Path rq \<noteq> ''/health''" and "rq_Method rq \<noteq> ''OPTIONS''"
  shows "gateway env backend rq (am, s) =
    Some ((http_Error e 401)\<lparr>rp_Headers := cors_headers @ rp_Headers (http_Error e 401)\<rparr>, am', s)"
  using assms by (simp add: gateway_def corsMiddleware_def jwt_handler_def)

lemma gateway_open:
  assumes "rq_Path rq = ''/health'' \<or> rq_Method rq = ''OPTIONS''"
  shows "\<exists>rp. \<forall>backend st. gateway env backend rq st = Some (rp, st)"
  using assms by (cases "rq_Path rq = ''/health''") (simp_all add: gateway_def corsMiddleware_def)

lemma gateway_unsigned:
  assumes "endpoint_published trusted (endpoint_of env)" and "middleware_ok trusted am" and "Enabled (am_cfg am)"
    and "\<not> signed_call env (am_cfg am) (published trusted) (rq_Authorization rq)"
  shows "\<exists>rp am'. middleware_ok trusted am' \<and> (\<forall>backend (s :: 's). gateway env backend rq (am, s) = Some (rp, am', s))"
proof (cases "rq_Path rq = ''/health'' \<or> rq_Method rq = ''OPTIONS''")
  case True
  obtain rp where "\<forall>backend (st :: AuthMiddleware \<times> 's). gateway env backend rq st = Some (rp, st)" using gateway_open [OF True] by metis
  then show ?thesis using assms(2) by (intro exI [of _ rp] exI [of _ am]) simp
next
  case False
  obtain res am' where j: "JWT env (rq_Authorization rq) am = (res, am')" by fastforce
  note safe = JWT_safe [OF assms(1,2) j]
  then obtain e where "res = Inl e" using assms(3,4) by (cases res) auto
  with j have "JWT env (rq_Authorization rq) am = (Inl e, am')" by simp
  then have "\<forall>backend (s :: 's). gateway env backend rq (am, s) =
      Some ((http_Error e 401)\<lparr>rp_Headers := cors_headers @ rp_Headers (http_Error e 401)\<rparr>, am', s)"
    using gateway_refuses False by metis
  with safe show ?thesis by blast
qed

lemma grpc_unsigned:
  assumes "endpoint_published trusted (endpoint_of env)" and "middleware_ok trusted am" and "Enabled (am_cfg am)"
    and "\<not> (\<exists>v vs. md = Some (v # vs) \<and> signed_call env (am_cfg am) (published trusted) v)"
  shows "\<exists>e am'. middleware_ok trusted am' \<and> (\<forall>service s. grpc_call env service md (am, s) = Some (Inl e, am', s))"
proof -
  obtain res am' where i: "GRPCUnaryInterceptor env md am = (res, am')" by fastforce
  note safe = interceptor_safe [OF assms(1,2) i]
  then obtain e where "res = Inl e" using assms(3,4) by (cases res) auto
  then show ?thesis using i safe by (auto simp: grpc_call_def)
qed

subsection \<open>Properties\<close>

text \<open>C10: With authentication enabled, no call reaches what lies behind the guards unless it carries a bearer token that
  decodes, names RS256, verifies with a signing key the realm has published under the token's key id, and has the
  configured issuer and audience. The REST gateway and the gRPC server answer every other call by themselves: neither
  the answer nor what the guards remember depends on what lies behind, whose state is not touched; and the key cache
  goes on holding published keys only.\<close>

theorem guards_require_signature:
  assumes "endpoint_published trusted (endpoint_of env)" and "middleware_ok trusted am" and "Enabled (am_cfg am)"
  shows "(signed_call env (am_cfg am) (published trusted) (rq_Authorization rq) \<or>
      (\<exists>rp am'. middleware_ok trusted am' \<and> (\<forall>backend s. gateway env backend rq (am, s) = Some (rp, am', s)))) \<and>
    ((\<exists>v vs. md = Some (v # vs) \<and> signed_call env (am_cfg am) (published trusted) v) \<or>
      (\<exists>e am'. middleware_ok trusted am' \<and> (\<forall>service s. grpc_call env service md (am, s) = Some (Inl e, am', s))))"
  using gateway_unsigned [OF assms] grpc_unsigned [OF assms] by blast

text \<open>A realm with one key, \<open>e = 65537\<close>, and a library that accepts one token.\<close>

definition sample_key :: jwksKey where
  "sample_key = \<lparr>Kty = ''RSA'', Kid = ''k1'', Use = ''sig'', key_N = ''qrs'', key_E = ''AQAB''\<rparr>"

definition sample_token :: token where
  "sample_token = \<lparr>alg = ''RS256'', is_rsa = True, kid_header = Some (CStr ''k1''),
     claims = [(''aud'', CList [CStr ''account'', CStr ''statistiloto-ui''])]\<rparr>"

definition sample_env :: auth_env where
  "sample_env = \<lparr>endpoint_of = (\<lambda>_. Keys [sample_key]), auth_now = 10 ^ 18,
     decode = (\<lambda>s. if s = ''tok'' then Some sample_token else None), verifies = (\<lambda>s key. exponent key = 65537)\<rparr>"

definition sample_auth :: AuthMiddleware where
  "sample_auth = NewAuthMiddleware (cfg_Auth (Load (\<lambda>_. [])))"

lemma sample_published: "endpoint_published {sample_key} (endpoint_of sample_env)" "middleware_ok {sample_key} sample_auth"
  "Enabled (am_cfg sample_auth)"
  by (simp_all add: endpoint_published_def sample_env_def middleware_ok_def sample_auth_def NewAuthMiddleware_def
      Load_defaults)

theorem guards_require_signature_witness:
  "\<exists>e am. middleware_ok {sample_key} am \<and>
     (\<forall>service s. grpc_call sample_env service (Some [''Bearer forged'']) (sample_auth, s :: int) = Some (Inl e :: error + int, am, s))"
proof -
  have "\<not> signed_call sample_env (am_cfg sample_auth) (published {sample_key}) ''Bearer forged''"
    by (simp add: signed_call_def sample_env_def)
  then show ?thesis
    using guards_require_signature [OF sample_published, where md = "Some [''Bearer forged'']"] by auto
qed

text \<open>C33: While the key cache is fresh and not empty, the guards decide by its keys alone: an \<open>Authorization\<close> header is
  accepted exactly if it carries a token that verifies with the cached key of its id and has the configured claims.
  In particular a key id the cache does not hold is refused without asking the endpoint again, although the comment
  on \<open>get\<close> promises a refresh for unknown ids.\<close>

theorem fresh_cache_decides:
  assumes "am_jwks am = Some c" and "is_fresh (auth_now env) c" and "jc_keys c \<noteq> []"
  shows "fst (validateAuthHeader env h am) = None \<longleftrightarrow>
    signed_call env (am_cfg am) (\<lambda>kid pub. map_of (jc_keys c) kid = Some pub) h"
  by (rule validateAuthHeader_fresh [OF assms])

theorem fresh_cache_decides_witness:
  "fst (validateAuthHeader sample_env ''Bearer tok''
      (sample_auth\<lparr>am_jwks := Some ((newJWKSCache [])\<lparr>jc_keys := [(''old'', \<lparr>modulus = 1, exponent = 3\<rparr>)], fetchedAt := 10 ^ 18\<rparr>)\<rparr>)) \<noteq> None"
proof -
  let ?c = "(newJWKSCache [])\<lparr>jc_keys := [(''old'', \<lparr>modulus = 1, exponent = 3\<rparr>)], fetchedAt := 10 ^ 18\<rparr>"
  let ?am = "sample_auth\<lparr>am_jwks := Some ?c\<rparr>"
  have "am_jwks ?am = Some ?c" "is_fresh (auth_now sample_env) ?c" "jc_keys ?c \<noteq> []"
    by (simp_all add: is_fresh_def sample_env_def newJWKSCache_def minute_def)
  from fresh_cache_decides [OF this, of "''Bearer tok''"] show ?thesis
    by (auto simp: signed_call_def sample_env_def sample_token_def claim_string_def split: if_splits)
qed

end
