(* ===== verification/Rest.thy ===== *)
theory Rest
  imports End_to_End Simulate Gateway
begin

section \<open>A REST call from the socket to the service\<close>

text \<open>
  The generated gateway \<open>pkg/gen/lottery.pb.gw.go\<close> between the guards of \<open>Gateway\<close>: a REST request passes the JWT
  handler, is routed and decoded, and is sent over a loopback gRPC connection through the interceptor to the service.
  Both guards use the one \<open>AuthMiddleware\<close> and its key cache.

  For a request the JWT handler accepts, the interceptor accepts too, and the whole chain is the direct call of the
  service; and any HTTP request, signed or not, is answered unless it is an accepted one that makes the service panic.

  The gateway's runtime is third-party code: decoding and encoding of messages, the metadata of a call, the answers for
  errors and for unrouted paths are the fields of \<open>gateway_runtime\<close>. The request of a call crosses the loopback
  connection unchanged. Routing is by method and path; the header with which grpc-gateway lets a client override the
  method is left out.
\<close>

subsection \<open>The service\<close>

datatype rpc_request =
    HealthCheckCall
  | GenerateFormCall GenerateFormRequest
  | GetStatisticsCall GetStatisticsRequest
  | AnalyzeCall AnalyzeRequest
  | ScoreFormCall ScoreFormRequest
  | SimulateCall SimulateRequest

datatype rpc_reply =
    HealthCheckReply HealthCheckResponse
  | GenerateFormReply "NumberSet list"
  | GetStatisticsReply GetStatisticsResponse
  | AnalyzeReply AnalyzeResponse
  | ScoreFormReply ScoreFormResponse
  | SimulateReply SimulateResponse

definition answer_as :: "('a \<Rightarrow> rpc_reply) \<Rightarrow> ((error + 'a) \<times> world) option \<Rightarrow> ((error + rpc_reply) \<times> world) option" where
  "answer_as reply out = map_option (\<lambda>(res, s). (map_sum id reply res, s)) out"

text \<open>The methods of the service on the running server; \<open>HealthCheck\<close> counts the rows.\<close>

fun service :: "rpc_request \<Rightarrow> world \<Rightarrow> ((error + rpc_reply) \<times> world) option" where
  "service HealthCheckCall s =
     (case Count (w_db s) of (n, db) \<Rightarrow> Some (Inr (HealthCheckReply (HealthCheck (Some n))), s\<lparr>w_db := db\<rparr>))"
| "service (GenerateFormCall q) s = answer_as GenerateFormReply (on_cache (GenerateForm (table_query s) q) s)"
| "service (GetStatisticsCall q) s = answer_as GetStatisticsReply (on_cache (GetStatistics (table_query s) q) s)"
| "service (AnalyzeCall q) s = answer_as AnalyzeReply (on_cache (Analyze (table_query s) q) s)"
| "service (ScoreFormCall q) s = answer_as ScoreFormReply (on_cache (handle_ScoreForm (table_query s) q) s)"
| "service (SimulateCall q) s = answer_as SimulateReply (on_cache (Simulate (table_query s) q) s)"

text \<open>A call of the client's stub: the interceptor, then the method; a refusal and an error of the method look alike.\<close>

definition invoke ::
  "auth_env \<Rightarrow> rpc_request \<Rightarrow> string list option \<Rightarrow> AuthMiddleware \<times> world \<Rightarrow>
   ((error + rpc_reply) \<times> AuthMiddleware \<times> world) option" where
  "invoke env q md st =
     map_option (\<lambda>(res, st). (case res of Inl e \<Rightarrow> Inl e | Inr r \<Rightarrow> r, st)) (grpc_call env (service q) md st)"

subsection \<open>The generated gateway\<close>

datatype 'a decoded = Decoded 'a | EndOfBody | Malformed error

record gateway_runtime =
  decode_GenerateForm :: "string \<Rightarrow> GenerateFormRequest decoded"
  decode_GetStatistics :: "string \<Rightarrow> GetStatisticsRequest decoded"
  decode_Analyze :: "string \<Rightarrow> AnalyzeRequest decoded"
  decode_ScoreForm :: "string \<Rightarrow> ScoreFormRequest decoded"
  decode_Simulate :: "string \<Rightarrow> SimulateRequest decoded"
  AnnotateContext :: "request \<Rightarrow> error + string list option"
  AnnotateIncomingContext :: "request \<Rightarrow> error option"
  HTTPError :: "error \<Rightarrow> reply"
  ForwardResponseMessage :: "rpc_reply \<Rightarrow> reply"
  unrouted :: "request \<Rightarrow> reply"
  swagger_file :: reply

text \<open>The zero messages, which an empty body leaves in place.\<close>

definition zero_GenerateForm :: GenerateFormRequest where
  "zero_GenerateForm = \<lparr>gf_HowMany = 0, gf_FormType = 0, gf_WillBe = [], gf_Window = None, gf_Strength = STRENGTH_UNSPECIFIED\<rparr>"

definition zero_GetStatistics :: GetStatisticsRequest where
  "zero_GetStatistics = \<lparr>gs_HowMany = 0, gs_FormType = 0, gs_Window = None, gs_Strength = STRENGTH_UNSPECIFIED\<rparr>"

definition zero_Analyze :: AnalyzeRequest where
  "zero_Analyze = \<lparr>an_Form = [], an_Window = None\<rparr>"

definition zero_ScoreForm :: ScoreFormRequest where
  "zero_ScoreForm = \<lparr>sc_Form = [], sc_Window = None\<rparr>"

definition zero_Simulate :: SimulateRequest where
  "zero_Simulate = \<lparr>sm_Form = [], sm_Strong = 0, sm_ArchiveWindow = None, sm_TicketCost = Fin 0, sm_PrizeAmounts = [],
     sm_SimulateWindow = None\<rparr>"

definition request_message :: "'q \<Rightarrow> 'q decoded \<Rightarrow> error + 'q" where
  "request_message zero d =
     (case d of Decoded q \<Rightarrow> Inr q | EndOfBody \<Rightarrow> Inr zero | Malformed e \<Rightarrow> Inl (InvalidArgument e))"

text \<open>The functions \<open>request_LotteryService_*_0\<close>; \<open>client\<close> is the stub.\<close>

type_synonym 's stub = "rpc_request \<Rightarrow> string list option \<Rightarrow> 's \<Rightarrow> ((error + rpc_reply) \<times> 's) option"

definition send_message ::
  "'s stub \<Rightarrow> ('q \<Rightarrow> rpc_request) \<Rightarrow> error + 'q \<Rightarrow> string list option \<Rightarrow> 's \<Rightarrow> ((error + rpc_reply) \<times> 's) option" where
  "send_message client call msg md st =
     (case msg of Inl e \<Rightarrow> Some (Inl e, st) | Inr q \<Rightarrow> client (call q) md st)"

definition request_HealthCheck where
  "request_HealthCheck (rt :: gateway_runtime) client (rq :: request) md st = client HealthCheckCall md st"

definition request_GenerateForm where
  "request_GenerateForm rt client rq md st = send_message client GenerateFormCall
     (request_message zero_GenerateForm (decode_GenerateForm rt (rq_Body rq))) md st"

definition request_GetStatistics where
  "request_GetStatistics rt client rq md st = send_message client GetStatisticsCall
     (request_message zero_GetStatistics (decode_GetStatistics rt (rq_Body rq))) md st"

definition request_Analyze where
  "request_Analyze rt client rq md st = send_message client AnalyzeCall
     (request_message zero_Analyze (decode_Analyze rt (rq_Body rq))) md st"

definition request_ScoreForm where
  "request_ScoreForm rt client rq md st = send_message client ScoreFormCall
     (request_message zero_ScoreForm (decode_ScoreForm rt (rq_Body rq))) md st"

definition request_Simulate where
  "request_Simulate rt client rq md st = send_message client SimulateCall
     (request_message zero_Simulate (decode_Simulate rt (rq_Body rq))) md st"

lemmas request_defs = request_HealthCheck_def request_GenerateForm_def request_GetStatistics_def request_Analyze_def
  request_ScoreForm_def request_Simulate_def

text \<open>The handler that each route registers: annotate, request, and forward the message or the error.\<close>

definition route_handler ::
  "gateway_runtime \<Rightarrow> (request \<Rightarrow> string list option \<Rightarrow> 's \<Rightarrow> ((error + rpc_reply) \<times> 's) option) \<Rightarrow>
   request \<Rightarrow> 's \<Rightarrow> (reply \<times> 's) option" where
  "route_handler rt send rq st =
     (case AnnotateContext rt rq of
        Inl e \<Rightarrow> Some (HTTPError rt e, st)
      | Inr md \<Rightarrow> map_option (\<lambda>(res, st). (case res of Inl e \<Rightarrow> HTTPError rt e | Inr r \<Rightarrow> ForwardResponseMessage rt r, st))
          (send rq md st))"

text \<open>The patterns, lists of literal path components.\<close>

definition pattern_HealthCheck :: "string list" where "pattern_HealthCheck = [''health'']"
definition pattern_GenerateForm :: "string list" where "pattern_GenerateForm = [''api'', ''generate'', ''form'']"
definition pattern_GetStatistics :: "string list" where "pattern_GetStatistics = [''api'', ''generate'', ''pares'']"
definition pattern_Analyze :: "string list" where "pattern_Analyze = [''api'', ''generate'', ''analyze'']"
definition pattern_ScoreForm :: "string list" where "pattern_ScoreForm = [''api'', ''score'', ''form'']"
definition pattern_Simulate :: "string list" where "pattern_Simulate = [''api'', ''generate'', ''simulate'']"

lemmas pattern_defs = pattern_HealthCheck_def pattern_GenerateForm_def pattern_GetStatistics_def pattern_Analyze_def
  pattern_ScoreForm_def pattern_Simulate_def

definition matches :: "string \<Rightarrow> string list \<Rightarrow> request \<Rightarrow> bool" where
  "matches meth pattern rq \<longleftrightarrow> rq_Method rq = meth \<and> rq_Path rq = concat (map (\<lambda>c. ''/'' @ c) pattern)"

definition RegisterLotteryServiceHandlerClient ::
  "gateway_runtime \<Rightarrow> 's stub \<Rightarrow> request \<Rightarrow> 's \<Rightarrow> (reply \<times> 's) option" where
  "RegisterLotteryServiceHandlerClient rt client rq st =
     (if matches ''GET'' pattern_HealthCheck rq then route_handler rt (request_HealthCheck rt client) rq st
      else if matches ''POST'' pattern_GenerateForm rq then route_handler rt (request_GenerateForm rt client) rq st
      else if matches ''POST'' pattern_GetStatistics rq then route_handler rt (request_GetStatistics rt client) rq st
      else if matches ''POST'' pattern_Analyze rq then route_handler rt (request_Analyze rt client) rq st
      else if matches ''POST'' pattern_ScoreForm rq then route_handler rt (request_ScoreForm rt client) rq st
      else if matches ''POST'' pattern_Simulate rq then route_handler rt (request_Simulate rt client) rq st
      else Some (unrouted rt rq, st))"

text \<open>The mux of \<open>NewGatewayServer\<close>, with the swagger file, behind the guards.\<close>

definition mux :: "auth_env \<Rightarrow> gateway_runtime \<Rightarrow> world backend" where
  "mux env rt rq st =
     (if matches ''GET'' [''swagger''] rq then Some (swagger_file rt, st)
      else RegisterLotteryServiceHandlerClient rt (invoke env) rq st)"

definition rest_server :: "auth_env \<Rightarrow> gateway_runtime \<Rightarrow> world backend" where
  "rest_server env rt = gateway env (mux env rt)"

subsection \<open>What a route calls\<close>

definition answer :: "gateway_runtime \<Rightarrow> error + rpc_reply \<Rightarrow> reply" where
  "answer rt res = (case res of Inl e \<Rightarrow> HTTPError rt e | Inr r \<Rightarrow> ForwardResponseMessage rt r)"

definition with_cors :: "reply \<Rightarrow> reply" where
  "with_cors rp = rp\<lparr>rp_Headers := cors_headers @ rp_Headers rp\<rparr>"

text \<open>The call a request asks for, from the paths of the API's description: none when there is no such path, an error
  when its body cannot be decoded.\<close>

definition rpc_of :: "gateway_runtime \<Rightarrow> request \<Rightarrow> (error + rpc_request) option" where
  "rpc_of rt rq =
     (if rq_Method rq = ''GET'' \<and> rq_Path rq = ''/health'' then Some (Inr HealthCheckCall)
      else if rq_Method rq = ''POST'' \<and> rq_Path rq = ''/api/generate/form'' then
        Some (map_sum id GenerateFormCall (request_message zero_GenerateForm (decode_GenerateForm rt (rq_Body rq))))
      else if rq_Method rq = ''POST'' \<and> rq_Path rq = ''/api/generate/pares'' then
        Some (map_sum id GetStatisticsCall (request_message zero_GetStatistics (decode_GetStatistics rt (rq_Body rq))))
      else if rq_Method rq = ''POST'' \<and> rq_Path rq = ''/api/generate/analyze'' then
        Some (map_sum id AnalyzeCall (request_message zero_Analyze (decode_Analyze rt (rq_Body rq))))
      else if rq_Method rq = ''POST'' \<and> rq_Path rq = ''/api/score/form'' then
        Some (map_sum id ScoreFormCall (request_message zero_ScoreForm (decode_ScoreForm rt (rq_Body rq))))
      else if rq_Method rq = ''POST'' \<and> rq_Path rq = ''/api/generate/simulate'' then
        Some (map_sum id SimulateCall (request_message zero_Simulate (decode_Simulate rt (rq_Body rq))))
      else None)"

lemma send_message_map:
  "send_message client call msg md st =
     (case map_sum id call msg of Inl e \<Rightarrow> Some (Inl e, st) | Inr q \<Rightarrow> client q md st)"
  by (cases msg) (simp_all add: send_message_def)

lemma routed:
  "RegisterLotteryServiceHandlerClient rt client rq st =
     (case rpc_of rt rq of
        None \<Rightarrow> Some (unrouted rt rq, st)
      | Some msg \<Rightarrow> (case AnnotateContext rt rq of
          Inl e \<Rightarrow> Some (HTTPError rt e, st)
        | Inr md \<Rightarrow> map_option (\<lambda>(res, st). (answer rt res, st))
            (case msg of Inl e \<Rightarrow> Some (Inl e, st) | Inr q \<Rightarrow> client q md st)))"
  by (cases "AnnotateContext rt rq")
    (simp_all add: RegisterLotteryServiceHandlerClient_def rpc_of_def matches_def pattern_defs route_handler_def
      request_defs send_message_map answer_def [abs_def])

lemma swagger_unrouted: "matches ''GET'' [''swagger''] rq \<Longrightarrow> rpc_of rt rq = None"
  by (simp add: matches_def rpc_of_def pattern_defs)

text \<open>The calls of the routes behind the guards; the health check's own route is never reached.\<close>

lemma rpc_of_health: "rq_Path rq = ''/health'' \<Longrightarrow> rpc_of rt rq = None \<or> rpc_of rt rq = Some (Inr HealthCheckCall)"
  by (simp add: matches_def rpc_of_def pattern_defs)

lemma rpc_of_method: "rpc_of rt rq = Some msg \<Longrightarrow> rq_Method rq = ''GET'' \<or> rq_Method rq = ''POST''"
  by (auto simp: matches_def rpc_of_def split: if_splits)

lemma rpc_of_protected:
  assumes "rpc_of rt rq = Some (Inr q)" and "q \<noteq> HealthCheckCall"
  shows "rq_Path rq \<noteq> ''/health''" and "rq_Method rq \<noteq> ''OPTIONS''" and "\<not> matches ''GET'' [''swagger''] rq"
  using assms rpc_of_health [of rq rt] rpc_of_method [OF assms(1)] swagger_unrouted [of rq rt] by auto

subsection \<open>Registration without a connection\<close>

text \<open>\<open>RegisterLotteryServiceHandlerServer\<close>, which the server does not use: the routes call the methods directly, and
  the metadata is kept in a context that no method reads.\<close>

type_synonym 's server_impl = "rpc_request \<Rightarrow> 's \<Rightarrow> ((error + rpc_reply) \<times> 's) option"

definition local_message ::
  "'s server_impl \<Rightarrow> ('q \<Rightarrow> rpc_request) \<Rightarrow> error + 'q \<Rightarrow> 's \<Rightarrow> ((error + rpc_reply) \<times> 's) option" where
  "local_message server call msg st = (case msg of Inl e \<Rightarrow> Some (Inl e, st) | Inr q \<Rightarrow> server (call q) st)"

definition local_request_HealthCheck where
  "local_request_HealthCheck (rt :: gateway_runtime) server (rq :: request) st = server HealthCheckCall st"

definition local_request_GenerateForm where
  "local_request_GenerateForm rt server rq st = local_message server GenerateFormCall
     (request_message zero_GenerateForm (decode_GenerateForm rt (rq_Body rq))) st"

definition local_request_GetStatistics where
  "local_request_GetStatistics rt server rq st = local_message server GetStatisticsCall
     (request_message zero_GetStatistics (decode_GetStatistics rt (rq_Body rq))) st"

definition local_request_Analyze where
  "local_request_Analyze rt server rq st = local_message server AnalyzeCall
     (request_message zero_Analyze (decode_Analyze rt (rq_Body rq))) st"

definition local_request_ScoreForm where
  "local_request_ScoreForm rt server rq st = local_message server ScoreFormCall
     (request_message zero_ScoreForm (decode_ScoreForm rt (rq_Body rq))) st"

definition local_request_Simulate where
  "local_request_Simulate rt server rq st = local_message server SimulateCall
     (request_message zero_Simulate (decode_Simulate rt (rq_Body rq))) st"

lemmas local_request_defs = local_request_HealthCheck_def local_request_GenerateForm_def local_request_GetStatistics_def
  local_request_Analyze_def local_request_ScoreForm_def local_request_Simulate_def

definition local_route ::
  "gateway_runtime \<Rightarrow> (request \<Rightarrow> 's \<Rightarrow> ((error + rpc_reply) \<times> 's) option) \<Rightarrow> request \<Rightarrow> 's \<Rightarrow> (reply \<times> 's) option" where
  "local_route rt send rq st =
     (case AnnotateIncomingContext rt rq of
        Some e \<Rightarrow> Some (HTTPError rt e, st)
      | None \<Rightarrow> map_option (\<lambda>(res, st). (case res of Inl e \<Rightarrow> HTTPError rt e | Inr r \<Rightarrow> ForwardResponseMessage rt r, st))
          (send rq st))"

definition RegisterLotteryServiceHandlerServer ::
  "gateway_runtime \<Rightarrow> 's server_impl \<Rightarrow> request \<Rightarrow> 's \<Rightarrow> (reply \<times> 's) option" where
  "RegisterLotteryServiceHandlerServer rt server rq st =
     (if matches ''GET'' pattern_HealthCheck rq then local_route rt (local_request_HealthCheck rt server) rq st
      else if matches ''POST'' pattern_GenerateForm rq then local_route rt (local_request_GenerateForm rt server) rq st
      else if matches ''POST'' pattern_GetStatistics rq then local_route rt (local_request_GetStatistics rt server) rq st
      else if matches ''POST'' pattern_Analyze rq then local_route rt (local_request_Analyze rt server) rq st
      else if matches ''POST'' pattern_ScoreForm rq then local_route rt (local_request_ScoreForm rt server) rq st
      else if matches ''POST'' pattern_Simulate rq then local_route rt (local_request_Simulate rt server) rq st
      else Some (unrouted rt rq, st))"

lemma local_message_map:
  "local_message server call msg st = (case map_sum id call msg of Inl e \<Rightarrow> Some (Inl e, st) | Inr q \<Rightarrow> server q st)"
  by (cases msg) (simp_all add: local_message_def)

text \<open>Both registrations serve the same routes; the one without a connection is the other over a stub that ignores the
  metadata, so no interceptor of the gRPC server is passed.\<close>

lemma registrations_agree:
  assumes "AnnotateContext rt rq = Inr md" and "AnnotateIncomingContext rt rq = None"
  shows "RegisterLotteryServiceHandlerServer rt server rq st =
    RegisterLotteryServiceHandlerClient rt (\<lambda>q _. server q) rq st"
  unfolding routed rpc_of_def
  by (simp add: RegisterLotteryServiceHandlerServer_def matches_def pattern_defs local_route_def local_request_defs
      local_message_map assms answer_def [abs_def])

subsection \<open>The two guards agree\<close>

text \<open>The runtime hands the token on under the name the interceptor looks for.\<close>

definition passes_token :: "gateway_runtime \<Rightarrow> bool" where
  "passes_token rt \<longleftrightarrow>
     (\<forall>rq. rq_Authorization rq \<noteq> [] \<longrightarrow> AnnotateContext rt rq = Inr (Some [rq_Authorization rq]))"

lemma JWT_accepts:
  assumes "JWT env h am = (Inr (), am')" and "Enabled (am_cfg am)" and "ttl_positive am"
  shows "h \<noteq> []" and "Enabled (am_cfg am')" and "validateAuthHeader env h am' = (None, am')"
proof -
  have v: "validateAuthHeader env h am = (None, am')"
    using assms(1,2) by (auto simp: JWT_def split: prod.splits option.splits)
  show "h \<noteq> []" using v by (auto simp: validateAuthHeader_def)
  show "Enabled (am_cfg am')" using validateAuthHeader_ttl [OF v assms(3)] assms(2) by simp
  show "validateAuthHeader env h am' = (None, am')" using validateAuthHeader_again [OF v assms(3)] .
qed

lemma rest_accepted:
  assumes "Enabled (am_cfg am)" and "ttl_positive am" and "passes_token rt"
    and "JWT env (rq_Authorization rq) am = (Inr (), am')" and "rpc_of rt rq = Some (Inr q)" and "q \<noteq> HealthCheckCall"
  shows "rest_server env rt rq (am, s) =
    map_option (\<lambda>(res, s'). (with_cors (answer rt res), am', s')) (service q s)"
proof -
  note ok = JWT_accepts [OF assms(4,1,2)]
  have md: "AnnotateContext rt rq = Inr (Some [rq_Authorization rq])" using assms(3) ok(1) by (simp add: passes_token_def)
  have guard: "GRPCUnaryInterceptor env (Some [rq_Authorization rq]) am' = (Inr (), am')"
    using ok(2,3) by (simp add: GRPCUnaryInterceptor_def)
  have "rest_server env rt rq (am, s) = map_option (\<lambda>(rp, st). (with_cors rp, st)) (mux env rt rq (am', s))"
    using rpc_of_protected [OF assms(5,6)] assms(4)
    by (simp add: rest_server_def gateway_def corsMiddleware_def jwt_handler_def with_cors_def)
  also have "mux env rt rq (am', s) = map_option (\<lambda>(res, st). (answer rt res, st)) (invoke env q (Some [rq_Authorization rq]) (am', s))"
    using rpc_of_protected(3) [OF assms(5,6)] by (simp add: mux_def routed assms(5) md)
  also have "invoke env q (Some [rq_Authorization rq]) (am', s) = map_option (\<lambda>(res, s). (res, am', s)) (service q s)"
    by (cases "service q s") (auto simp: invoke_def grpc_call_def guard)
  finally show ?thesis by (simp add: option.map_comp comp_def case_prod_unfold)
qed

subsection \<open>Every request is answered\<close>

text \<open>The call that panics: more wanted numbers than a form has places.\<close>

fun overfull :: "rpc_request \<Rightarrow> bool" where
  "overfull (GenerateFormCall q) \<longleftrightarrow> 0 < gf_HowMany q \<and> nat (max 6 (gf_FormType q)) < card (set (gf_WillBe q))"
| "overfull _ = False"

lemma on_cache_db: "on_cache h s = Some (res, s') \<Longrightarrow> w_db s' = w_db s"
  by (auto simp: on_cache_def)

lemma simulated_coherent:
  assumes "coherent s"
  shows "\<exists>res s'. on_cache (Simulate (table_query s) q) s = Some (res, s') \<and> coherent s'"
proof -
  have "\<exists>res. simulate_with q a = Some res \<and> (\<forall>r. res = Inr r \<longrightarrow> True)" if "built a" for a
    using simulate_with_total by blast
  from running.served [OF assms, where k = "simulate_with q" and P = "\<lambda>_. True", OF this]
  show ?thesis unfolding Simulate_def on_cache_served by blast
qed

lemma generated_coherent:
  assumes "coherent s" and "\<not> overfull (GenerateFormCall q)"
  shows "\<exists>res s'. on_cache (GenerateForm (table_query s) q) s = Some (res, s') \<and> coherent s'"
proof (cases "gf_HowMany q \<le> 0")
  case True
  then show ?thesis using assms(1) by (auto simp: GenerateForm_def on_cache_def Let_def)
next
  case False
  let ?n = "if 50 < gf_HowMany q then 50 else gf_HowMany q"
  have "GenerateForm (table_query s) q = with_archive (table_query s) (gf_Window q) (generate_with ?n q)"
    using False by (auto simp: GenerateForm_def Let_def)
  then have "on_cache (GenerateForm (table_query s) q) s = serve_with (table_archive (gf_Window q)) (generate_with ?n q) s"
    by (simp only: on_cache_served)
  then show ?thesis using running.generated [OF assms(1), of q "gf_Window q" ?n] assms(2) False by auto
qed

lemma service_total:
  assumes "coherent s" and "\<not> overfull q"
  shows "\<exists>res s'. service q s = Some (res, s') \<and> coherent s' \<and> rows (w_db s') = rows (w_db s)"
proof -
  have call: "\<exists>res s'. answer_as reply (on_cache h s) = Some (res, s') \<and> coherent s' \<and> rows (w_db s') = rows (w_db s)"
    if "\<exists>res s'. on_cache h s = Some (res, s') \<and> coherent s'" for reply :: "'a \<Rightarrow> rpc_reply" and h
  proof -
    from that obtain res s' where h: "on_cache h s = Some (res, s')" "coherent s'" by blast
    then show ?thesis using on_cache_db [OF h(1)] by (cases res) (auto simp: answer_as_def)
  qed
  show ?thesis
  proof (cases q)
    case HealthCheckCall
    obtain n db where c: "Count (w_db s) = (n, db)" by fastforce
    have "rows db = rows (w_db s)" "table_ok db"
      using Count_state [OF c] table_ok_cong [of db "w_db s"] assms(1) by (simp_all add: coherent_def)
    then show ?thesis using HealthCheckCall c coherent_same_rows [OF assms(1)] by simp
  next
    case (GenerateFormCall r)
    then show ?thesis using call [OF generated_coherent [OF assms(1)]] assms(2) by simp
  next
    case (SimulateCall r)
    then show ?thesis using call [OF simulated_coherent [OF assms(1)]] by simp
  qed (use call [OF handlers_coherent(1) [OF assms(1)]] call [OF handlers_coherent(2) [OF assms(1)]]
      call [OF handlers_coherent(3) [OF assms(1)]] in simp_all)
qed

lemma invoke_total:
  assumes "endpoint_published trusted (endpoint_of env)" and "middleware_ok trusted am" and "coherent s"
    and "Enabled (am_cfg am) \<longrightarrow> (\<exists>v vs. md = Some (v # vs) \<and> signed_call env (am_cfg am) (published trusted) v) \<Longrightarrow> \<not> overfull q"
  shows "\<exists>res am' s'. invoke env q md (am, s) = Some (res, am', s') \<and> middleware_ok trusted am' \<and> am_cfg am' = am_cfg am \<and>
    coherent s' \<and> rows (w_db s') = rows (w_db s)"
proof -
  obtain g am' where g: "GRPCUnaryInterceptor env md am = (g, am')" by fastforce
  note safe = interceptor_safe [OF assms(1,2) g]
  show ?thesis
  proof (cases g)
    case (Inl e)
    then show ?thesis using safe g assms(3) by (auto simp: invoke_def grpc_call_def)
  next
    case (Inr u)
    then have "\<not> overfull q" using safe assms(4) by simp
    then obtain res s' where "service q s = Some (res, s')" "coherent s'" "rows (w_db s') = rows (w_db s)"
      using service_total [OF assms(3)] by blast
    then show ?thesis using safe g Inr by (auto simp: invoke_def grpc_call_def)
  qed
qed

lemma mux_total:
  assumes "endpoint_published trusted (endpoint_of env)" and "middleware_ok trusted am" and "coherent s"
    and "\<And>q. rpc_of rt rq = Some (Inr q) \<Longrightarrow> \<not> overfull q"
  shows "\<exists>rp am' s'. mux env rt rq (am, s) = Some (rp, am', s') \<and> middleware_ok trusted am' \<and> am_cfg am' = am_cfg am \<and>
    coherent s' \<and> rows (w_db s') = rows (w_db s)"
proof (cases "\<exists>md q. AnnotateContext rt rq = Inr md \<and> rpc_of rt rq = Some (Inr q)")
  case True
  then obtain md q where q: "AnnotateContext rt rq = Inr md" "rpc_of rt rq = Some (Inr q)" by blast
  then show ?thesis
    using invoke_total [OF assms(1-3) assms(4) [OF q(2)], of md] swagger_unrouted [of rq rt]
    by (auto simp: mux_def routed)
next
  case False
  then show ?thesis using assms(2,3) by (auto simp: mux_def routed split: option.splits sum.splits)
qed

lemma rest_answered:
  assumes "endpoint_published trusted (endpoint_of env)" and "middleware_ok trusted am" and "coherent s"
    and "\<And>q. Enabled (am_cfg am) \<longrightarrow> signed_call env (am_cfg am) (published trusted) (rq_Authorization rq) \<Longrightarrow>
      rpc_of rt rq = Some (Inr q) \<Longrightarrow> \<not> overfull q"
  shows "\<exists>rp am' s'. rest_server env rt rq (am, s) = Some (rp, am', s') \<and> middleware_ok trusted am' \<and> am_cfg am' = am_cfg am \<and>
    coherent s' \<and> rows (w_db s') = rows (w_db s)"
proof (cases "rq_Path rq = ''/health'' \<or> rq_Method rq = ''OPTIONS''")
  case True
  then show ?thesis using gateway_open [OF True, of env] assms(2,3) unfolding rest_server_def by blast
next
  case False
  obtain res am1 where j: "JWT env (rq_Authorization rq) am = (res, am1)" by fastforce
  note safe = JWT_safe [OF assms(1,2) j]
  show ?thesis
  proof (cases res)
    case (Inl e)
    then show ?thesis using False gateway_refuses j safe assms(3) unfolding rest_server_def by metis
  next
    case (Inr u)
    then have "Enabled (am_cfg am) \<longrightarrow> signed_call env (am_cfg am) (published trusted) (rq_Authorization rq)" using safe by simp
    then have "\<And>q. rpc_of rt rq = Some (Inr q) \<Longrightarrow> \<not> overfull q" by (rule assms(4))
    then obtain rp am' s' where "mux env rt rq (am1, s) = Some (rp, am', s')" "middleware_ok trusted am'" "am_cfg am' = am_cfg am1"
      "coherent s'" "rows (w_db s') = rows (w_db s)"
      using mux_total [OF assms(1) _ assms(3), of am1 rt rq] safe by blast
    then show ?thesis using False j Inr safe by (auto simp: rest_server_def gateway_def corsMiddleware_def jwt_handler_def)
  qed
qed

subsection \<open>A request that takes the server down\<close>

definition seven_wanted :: "DateWindow option \<Rightarrow> GenerateFormRequest" where
  "seven_wanted w = \<lparr>gf_HowMany = 2, gf_FormType = 6, gf_WillBe = [1..7], gf_Window = w, gf_Strength = STRONG\<rparr>"

lemma seven_wanted_panics:
  "Option.bind (NewLotteryArchive Lottery lo hi []) (generate_with 2 (seven_wanted w)) = None"
  by code_simp

lemma seven_wanted_served:
  assumes "coherent s" and "rows (w_db s) = []"
  shows "service (GenerateFormCall (seven_wanted w)) s = None"
proof -
  obtain a s' draws lo hi where h:
    "\<And>k. on_cache (with_archive (table_query s) w k) s = map_option (\<lambda>r. (r :: error + NumberSet list, s')) (k a)"
    "answer_draws s w draws" "NewLotteryArchive Lottery lo hi draws = Some a"
    using handler_fresh [OF assms(1), of w] by metis
  have "draws = []" using h(2) assms(2) by (auto simp: answer_draws_def select_range_def)
  then have "generate_with 2 (seven_wanted w) a = None" using seven_wanted_panics [of lo hi w] h(3) by simp
  moreover have "GenerateForm (table_query s) (seven_wanted w) = with_archive (table_query s) w (generate_with 2 (seven_wanted w))"
    by (auto simp: GenerateForm_def seven_wanted_def)
  ultimately show ?thesis by (simp add: h(1) answer_as_def)
qed

subsection \<open>Properties\<close>

text \<open>C11: A REST call is the call of the service. A request that the JWT handler lets through, whose path and method have a
  route and whose body decodes, passes the interceptor of the loopback connection as well: the whole chain of guards,
  routes and connection answers exactly what the method of the service answers, wrapped by the runtime with the CORS
  headers in front; the server is left in the state the method leaves, and the key cache in the one the first of the
  two token checks left.\<close>

theorem rest_call:
  assumes "Enabled (am_cfg am)" and "ttl_positive am" and "passes_token rt"
    and "JWT env (rq_Authorization rq) am = (Inr (), am')" and "rpc_of rt rq = Some (Inr q)" and "q \<noteq> HealthCheckCall"
  shows "rest_server env rt rq (am, s) =
    map_option (\<lambda>(res, s'). (with_cors (answer rt res), am', s')) (service q s)"
  by (rule rest_accepted [OF assms])

text \<open>A runtime that can decode \<open>{}\<close>, and \<open>7\<close> as the request above.\<close>

definition empty_body :: "'q \<Rightarrow> string \<Rightarrow> 'q decoded" where
  "empty_body zero b = (if b = ''{}'' then Decoded zero else EndOfBody)"

definition sample_runtime :: gateway_runtime where
  "sample_runtime = \<lparr>decode_GenerateForm = (\<lambda>b. if b = ''7'' then Decoded (seven_wanted None) else empty_body zero_GenerateForm b),
     decode_GetStatistics = empty_body zero_GetStatistics, decode_Analyze = empty_body zero_Analyze,
     decode_ScoreForm = empty_body zero_ScoreForm, decode_Simulate = empty_body zero_Simulate,
     AnnotateContext = (\<lambda>rq. Inr (if rq_Authorization rq = [] then None else Some [rq_Authorization rq])),
     AnnotateIncomingContext = (\<lambda>_. None), HTTPError = (\<lambda>e. http_Error e 500), ForwardResponseMessage = (\<lambda>_. \<lparr>rp_Status = 200, rp_Headers = [], rp_Body = ''{}''\<rparr>),
     unrouted = (\<lambda>_. http_Error ''Not Found'' 404), swagger_file = \<lparr>rp_Status = 200, rp_Headers = [], rp_Body = ''{}''\<rparr>\<rparr>"

definition sample_request :: "string \<Rightarrow> string \<Rightarrow> request" where
  "sample_request path body = \<lparr>rq_Method = ''POST'', rq_Path = path, rq_Authorization = ''Bearer tok'', rq_Body = body\<rparr>"

lemma sample_passes: "passes_token sample_runtime"
  by (simp add: passes_token_def sample_runtime_def)

lemma sample_ttl: "ttl_positive sample_auth"
  by (simp add: sample_auth_def ttl_positive_new)

lemma sample_accepted: "fst (JWT sample_env ''Bearer tok'' sample_auth) = Inr ()"
  by code_simp

theorem rest_call_witness:
  "\<exists>am'. rest_server sample_env sample_runtime (sample_request ''/api/score/form'' []) (sample_auth, new_world) =
     map_option (\<lambda>(res, s'). (with_cors (answer sample_runtime res), am', s')) (service (ScoreFormCall zero_ScoreForm) new_world)"
proof -
  let ?rq = "sample_request ''/api/score/form'' []"
  obtain am' where "JWT sample_env (rq_Authorization ?rq) sample_auth = (Inr (), am')"
    using sample_accepted by (metis prod.collapse request.select_convs(3) sample_request_def)
  moreover have "rpc_of sample_runtime ?rq = Some (Inr (ScoreFormCall zero_ScoreForm))"
    by (simp add: rpc_of_def matches_def pattern_defs sample_request_def sample_runtime_def empty_body_def request_message_def)
  ultimately show ?thesis
    using rest_call [OF sample_published(3) sample_ttl sample_passes] by blast
qed



text \<open>C40: One signed request takes the server down: while the table holds no draws, asking for two strong forms of six
  numbers that contain 1 to 7 makes the search index past its candidates, in a goroutine of
  the gRPC server, where nothing recovers the panic.\<close>

theorem rest_crash:
  assumes "Enabled (am_cfg am)" and "ttl_positive am" and "passes_token rt"
    and "JWT env (rq_Authorization rq) am = (Inr (), am')" and "rpc_of rt rq = Some (Inr (GenerateFormCall (seven_wanted w)))"
    and "coherent s" and "rows (w_db s) = []"
  shows "rest_server env rt rq (am, s) = None"
  using rest_accepted [OF assms(1-5)] seven_wanted_served [OF assms(6,7)] by simp

theorem rest_crash_witness:
  "rest_server sample_env sample_runtime (sample_request ''/api/generate/form'' ''7'') (sample_auth, new_world) = None"
proof -
  let ?rq = "sample_request ''/api/generate/form'' ''7''"
  obtain am' where "JWT sample_env (rq_Authorization ?rq) sample_auth = (Inr (), am')"
    using sample_accepted by (metis prod.collapse request.select_convs(3) sample_request_def)
  moreover have "rpc_of sample_runtime ?rq = Some (Inr (GenerateFormCall (seven_wanted None)))"
    by (simp add: rpc_of_def matches_def pattern_defs sample_request_def sample_runtime_def empty_body_def request_message_def)
  moreover have "rows (w_db new_world) = []" by (simp add: new_world_def empty_db_def)
  ultimately show ?thesis
    using rest_crash [OF sample_published(3) sample_ttl sample_passes] new_world_coherent by blast
qed


end
