(* ===== verification/Clients.thy ===== *)
theory Clients
  imports Gateway
begin

section \<open>The HTTP client library\<close>

text \<open>
  \<open>pkg/clients/http/client.go\<close>: the requests the client sends and how it reads the answers. \<open>protojson\<close> is the
  pair of functions \<open>marshal\<close> and \<open>unmarshal\<close>; whether a URL is accepted by \<open>http.NewRequest\<close> is \<open>bad_url\<close>; the
  network is a function on a state. The lemmas put the client in front of the server's gateway.
\<close>

record http_call =
  hc_Method :: string
  hc_URL :: string
  hc_Headers :: "(string \<times> string) list"
  hc_Body :: string

text \<open>\<open>io.ReadAll\<close> gives the bytes it has read also when it fails.\<close>

record http_answer =
  ha_Status :: int
  ha_Body :: string
  ha_ReadError :: "error option"

type_synonym 's network = "http_call \<Rightarrow> 's \<Rightarrow> (error + http_answer) \<times> 's"

record Client =
  baseURL :: string

definition NewClient :: "string \<Rightarrow> Client" where
  "NewClient base = \<lparr>baseURL = base\<rparr>"

definition read_answer :: "(string \<Rightarrow> error + 'r) \<Rightarrow> http_answer \<Rightarrow> error + 'r" where
  "read_answer unmarshal a =
     (if ha_Status a \<noteq> 200 then Inl (''request failed with status '' @ Itoa (ha_Status a) @ '': '' @ ha_Body a)
      else case ha_ReadError a of
        Some e \<Rightarrow> Inl (''failed to read response body: '' @ e)
      | None \<Rightarrow> (case unmarshal (ha_Body a) of
          Inl e \<Rightarrow> Inl (''failed to unmarshal response: '' @ e)
        | Inr r \<Rightarrow> Inr r))"

definition perform_call ::
  "(string \<Rightarrow> error option) \<Rightarrow> (string \<Rightarrow> error + 'r) \<Rightarrow> 's network \<Rightarrow> http_call \<Rightarrow> 's \<Rightarrow> (error + 'r) \<times> 's" where
  "perform_call bad_url unmarshal net call s =
     (case bad_url (hc_URL call) of
        Some e \<Rightarrow> (Inl (''failed to create request: '' @ e), s)
      | None \<Rightarrow> (case net call s of
          (Inl e, s) \<Rightarrow> (Inl (''failed to perform request: '' @ e), s)
        | (Inr a, s) \<Rightarrow> (read_answer unmarshal a, s)))"

definition doRequest ::
  "(string \<Rightarrow> error option) \<Rightarrow> ('q \<Rightarrow> error + string) \<Rightarrow> (string \<Rightarrow> error + 'r) \<Rightarrow> 's network \<Rightarrow> Client \<Rightarrow> string \<Rightarrow> 'q \<Rightarrow>
   's \<Rightarrow> (error + 'r) \<times> 's" where
  "doRequest bad_url marshal unmarshal net c path req s =
     (case marshal req of
        Inl e \<Rightarrow> (Inl (''failed to marshal request: '' @ e), s)
      | Inr body \<Rightarrow> perform_call bad_url unmarshal net
          \<lparr>hc_Method = ''POST'', hc_URL = baseURL c @ path, hc_Headers = [(''Content-Type'', ''application/json'')],
           hc_Body = body\<rparr> s)"

definition doGetRequest ::
  "(string \<Rightarrow> error option) \<Rightarrow> (string \<Rightarrow> error + 'r) \<Rightarrow> 's network \<Rightarrow> Client \<Rightarrow> string \<Rightarrow> 's \<Rightarrow> (error + 'r) \<times> 's" where
  "doGetRequest bad_url unmarshal net c path s =
     perform_call bad_url unmarshal net
       \<lparr>hc_Method = ''GET'', hc_URL = baseURL c @ path, hc_Headers = [], hc_Body = []\<rparr> s"

text \<open>The methods; the request of \<open>HealthCheck\<close> is not sent.\<close>

definition Client_HealthCheck where
  "Client_HealthCheck bad_url unmarshal net c s = doGetRequest bad_url unmarshal net c ''/health'' s"

definition Client_GenerateForm where
  "Client_GenerateForm bad_url marshal unmarshal net c req s =
     doRequest bad_url marshal unmarshal net c ''/api/generate/form'' req s"

definition Client_GetStatistics where
  "Client_GetStatistics bad_url marshal unmarshal net c req s =
     doRequest bad_url marshal unmarshal net c ''/api/generate/pares'' req s"

definition Client_Analyze where
  "Client_Analyze bad_url marshal unmarshal net c req s =
     doRequest bad_url marshal unmarshal net c ''/api/generate/analyze'' req s"

lemmas client_defs = Client_HealthCheck_def Client_GenerateForm_def Client_GetStatistics_def Client_Analyze_def

subsection \<open>The client in front of the gateway\<close>

text \<open>When the server panics the connection breaks: the client sees the error \<open>lost\<close>.\<close>

definition through_gateway :: "error \<Rightarrow> string \<Rightarrow> auth_env \<Rightarrow> 's backend \<Rightarrow> (AuthMiddleware \<times> 's) network" where
  "through_gateway lost base env backend call st =
     (case gateway env backend
        \<lparr>rq_Method = hc_Method call, rq_Path = drop (length base) (hc_URL call),
         rq_Authorization = (case map_of (hc_Headers call) ''Authorization'' of None \<Rightarrow> [] | Some v \<Rightarrow> v),
         rq_Body = hc_Body call\<rparr> st of
        None \<Rightarrow> (Inl lost, st)
      | Some (rp, st) \<Rightarrow> (Inr \<lparr>ha_Status = rp_Status rp, ha_Body = rp_Body rp, ha_ReadError = None\<rparr>, st))"

lemma Itoa_401: "Itoa 401 = ''401''"
  by code_simp

text \<open>The client sends no token, so a server with authentication enabled refuses every method but \<open>HealthCheck\<close>, before
  the service is reached.\<close>

theorem client_refused:
  assumes "Enabled (am_cfg am)" and "bad_url (baseURL c @ path) = None" and "marshal req = Inr body" and "path \<noteq> ''/health''"
  shows "doRequest bad_url marshal unmarshal (through_gateway lost (baseURL c) env backend) c path req (am, s) =
    (Inl (''request failed with status 401: Authorization header required'' @ [newline]), am, s)"
  using assms
  by (simp add: doRequest_def perform_call_def through_gateway_def gateway_def corsMiddleware_def jwt_handler_def JWT_def
      validateAuthHeader_def read_answer_def http_Error_def Itoa_401)

text \<open>With authentication disabled one \<open>POST\<close> with the encoded request reaches the service, and its answer is decoded.\<close>

theorem client_delivers:
  assumes "\<not> Enabled (am_cfg am)" and "bad_url (baseURL c @ path) = None" and "marshal req = Inr body" and "path \<noteq> ''/health''"
    and "backend \<lparr>rq_Method = ''POST'', rq_Path = path, rq_Authorization = [], rq_Body = body\<rparr> (am, s) = Some (rp, am, s')"
    and "rp_Status rp = 200" and "unmarshal (rp_Body rp) = Inr r"
  shows "doRequest bad_url marshal unmarshal (through_gateway lost (baseURL c) env backend) c path req (am, s) = (Inr r, am, s')"
  using assms
  by (simp add: doRequest_def perform_call_def through_gateway_def gateway_def corsMiddleware_def jwt_handler_def JWT_def
      read_answer_def)

text \<open>\<open>HealthCheck\<close> is answered by the route \<open>/health\<close> of the root handler, whatever the service would say: it reports
  neither the version nor the number of draws.\<close>

theorem client_health_static:
  assumes "bad_url (baseURL c @ ''/health'') = None"
  shows "\<exists>text. \<forall>backend am s. Client_HealthCheck bad_url Inr (through_gateway lost (baseURL c) env backend) c (am, s) =
    (Inr text, am, s)"
  using assms
  by (simp add: client_defs doGetRequest_def perform_call_def through_gateway_def gateway_def health_reply_def read_answer_def)

end
