(* ===== verification/Rpc_Clients.thy ===== *)
theory Rpc_Clients
  imports Rest Clients
begin

section \<open>Two clients of one service\<close>

text \<open>
  \<open>pkg/clients/interface.go\<close> and \<open>pkg/clients/grpc/client.go\<close>: the gRPC client, whose methods pass the request to the
  generated stub, next to the HTTP client of \<open>Clients\<close>, both in front of the server of \<open>Rest\<close>. A stub's method names
  its own handler, and a message crosses the connection unchanged.
\<close>

subsection \<open>The gRPC client\<close>

text \<open>The connection is \<open>None\<close> for a nil pointer.\<close>

record 's grpc_Client =
  gc_conn :: "(unit \<Rightarrow> error option) option"
  gc_client :: "rpc_request \<Rightarrow> string list option \<Rightarrow> 's \<Rightarrow> (error + rpc_reply) \<times> 's"

definition grpc_NewClient ::
  "(string \<Rightarrow> error + (unit \<Rightarrow> error option)) \<Rightarrow> (rpc_request \<Rightarrow> string list option \<Rightarrow> 's \<Rightarrow> (error + rpc_reply) \<times> 's) \<Rightarrow>
   string \<Rightarrow> error + 's grpc_Client" where
  "grpc_NewClient dial stub address =
     (case dial address of
        Inl e \<Rightarrow> Inl (''failed to connect to gRPC server: '' @ e)
      | Inr conn \<Rightarrow> Inr \<lparr>gc_conn = Some conn, gc_client = stub\<rparr>)"

definition grpc_HealthCheck where
  "grpc_HealthCheck c md st = gc_client c HealthCheckCall md st"

definition grpc_GenerateForm where
  "grpc_GenerateForm c req md st = gc_client c (GenerateFormCall req) md st"

definition grpc_GetStatistics where
  "grpc_GetStatistics c req md st = gc_client c (GetStatisticsCall req) md st"

definition grpc_Analyze where
  "grpc_Analyze c req md st = gc_client c (AnalyzeCall req) md st"

definition grpc_Close :: "'s grpc_Client \<Rightarrow> error option" where
  "grpc_Close c = (case gc_conn c of Some close \<Rightarrow> close () | None \<Rightarrow> None)"

text \<open>The stub on a connection to the server: a panic there ends the call with the error \<open>lost\<close>.\<close>

definition over_wire :: "error \<Rightarrow> 's stub \<Rightarrow> rpc_request \<Rightarrow> string list option \<Rightarrow> 's \<Rightarrow> (error + rpc_reply) \<times> 's" where
  "over_wire lost client q md st = (case client q md st of None \<Rightarrow> (Inl lost, st) | Some r \<Rightarrow> r)"

subsection \<open>Both against one server\<close>

text \<open>What the runtime and \<open>protojson\<close> promise for one call: the encoded request decodes to itself, the reply comes with
  status 200 and decodes to itself, and an error comes with another status.\<close>

definition codec_ok ::
  "gateway_runtime \<Rightarrow> ('q \<Rightarrow> error + string) \<Rightarrow> (string \<Rightarrow> 'q decoded) \<Rightarrow> ('r \<Rightarrow> rpc_reply) \<Rightarrow> (string \<Rightarrow> error + 'r) \<Rightarrow>
   'q \<Rightarrow> ((error + rpc_reply) \<times> world) option \<Rightarrow> bool" where
  "codec_ok rt marshal decoder wrap unmarshal q out \<longleftrightarrow>
     (\<exists>body. marshal q = Inr body \<and> decoder body = Decoded q) \<and>
     (\<forall>r s'. out = Some (Inr (wrap r), s') \<longrightarrow> rp_Status (ForwardResponseMessage rt (wrap r)) = 200 \<and>
        unmarshal (rp_Body (ForwardResponseMessage rt (wrap r))) = Inr r) \<and>
     (\<forall>e. rp_Status (HTTPError rt e) \<noteq> 200)"

text \<open>The clients agree: the same response or an error on both sides, and the same state.\<close>

definition agrees :: "('r \<Rightarrow> rpc_reply) \<Rightarrow> (error + 'r) \<times> 's \<Rightarrow> (error + rpc_reply) \<times> 's \<Rightarrow> bool" where
  "agrees wrap http_out grpc_out \<longleftrightarrow> snd http_out = snd grpc_out \<and>
     (case fst http_out of
        Inr r \<Rightarrow> fst grpc_out = Inr (wrap r)
      | Inl _ \<Rightarrow> (\<exists>e. fst grpc_out = Inl e))"

lemma answer_as_Inr: "answer_as reply out = Some (Inr rep, s') \<Longrightarrow> \<exists>x. rep = reply x"
  by (cases out; cases "fst (the out)") (auto simp: answer_as_def)

text \<open>A disabled guard lets everything through, so the server is the mux alone.\<close>

lemma rest_open:
  assumes "\<not> Enabled (am_cfg am)" and "rpc_of rt rq = Some (Inr q)" and "q \<noteq> HealthCheckCall" and "AnnotateContext rt rq = Inr md"
  shows "rest_server env rt rq (am, s) = map_option (\<lambda>(res, s'). (with_cors (answer rt res), am, s')) (service q s)"
proof -
  have "rest_server env rt rq (am, s) = map_option (\<lambda>(rp, st). (with_cors rp, st)) (mux env rt rq (am, s))"
    using rpc_of_protected [OF assms(2,3)] assms(1)
    by (simp add: rest_server_def gateway_def corsMiddleware_def jwt_handler_def JWT_def with_cors_def)
  moreover have "invoke env q md (am, s) = map_option (\<lambda>(res, s). (res, am, s)) (service q s)"
    using assms(1) by (cases "service q s") (auto simp: invoke_def grpc_call_def GRPCUnaryInterceptor_def)
  ultimately show ?thesis
    using rpc_of_protected(3) [OF assms(2,3)]
    by (simp add: mux_def routed assms(2,4) option.map_comp comp_def case_prod_unfold)
qed

lemma doRequest_agrees:
  assumes off: "\<not> Enabled (am_cfg am)" and url: "bad_url (baseURL c @ path) = None" and path: "path \<noteq> ''/health''"
    and codec: "codec_ok rt marshal decoder wrap unmarshal q (service (call q) s)"
    and annotated: "\<And>rq. \<exists>md. AnnotateContext rt rq = Inr md"
    and route: "\<And>body. decoder body = Decoded q \<Longrightarrow>
      rpc_of rt \<lparr>rq_Method = ''POST'', rq_Path = path, rq_Authorization = [], rq_Body = body\<rparr> = Some (Inr (call q))"
    and call: "call q \<noteq> HealthCheckCall" and wraps: "\<And>rep s'. service (call q) s = Some (Inr rep, s') \<Longrightarrow> \<exists>x. rep = wrap x"
  shows "agrees wrap
    (doRequest bad_url marshal unmarshal (through_gateway lost (baseURL c) env (mux env rt)) c path q (am, s))
    (over_wire lost (invoke env) (call q) md (am, s))"
proof -
  obtain body where body: "marshal q = Inr body" "decoder body = Decoded q" using codec unfolding codec_ok_def by blast
  let ?rq = "\<lparr>rq_Method = ''POST'', rq_Path = path, rq_Authorization = [], rq_Body = body\<rparr>"
  obtain md' where md': "AnnotateContext rt ?rq = Inr md'" using annotated by blast
  have server: "gateway env (mux env rt) ?rq (am, s) =
      map_option (\<lambda>(res, s'). (with_cors (answer rt res), am, s')) (service (call q) s)"
    using rest_open [OF off route [OF body(2)] call md'] by (simp add: rest_server_def)
  have grpc: "invoke env (call q) md (am, s) = map_option (\<lambda>(res, s'). (res, am, s')) (service (call q) s)"
    using off by (cases "service (call q) s") (auto simp: invoke_def grpc_call_def GRPCUnaryInterceptor_def)
  have http: "doRequest bad_url marshal unmarshal (through_gateway lost (baseURL c) env (mux env rt)) c path q (am, s) =
      (case service (call q) s of
         None \<Rightarrow> (Inl (''failed to perform request: '' @ lost), am, s)
       | Some (res, s') \<Rightarrow> (read_answer unmarshal \<lparr>ha_Status = rp_Status (answer rt res), ha_Body = rp_Body (answer rt res),
           ha_ReadError = None\<rparr>, am, s'))"
    using url body(1) server
    by (cases "service (call q) s") (auto simp: doRequest_def perform_call_def through_gateway_def with_cors_def)
  show ?thesis
  proof (cases "service (call q) s")
    case None
    then show ?thesis by (simp add: agrees_def http over_wire_def grpc)
  next
    case (Some out)
    obtain res s' where out: "out = (res, s')" by fastforce
    show ?thesis
    proof (cases res)
      case (Inl e)
      then show ?thesis using Some out codec
        by (simp add: agrees_def http over_wire_def grpc answer_def read_answer_def codec_ok_def)
    next
      case (Inr rep)
      then obtain x where "rep = wrap x" using wraps Some out by blast
      then show ?thesis using Some out Inr codec
        by (simp add: agrees_def http over_wire_def grpc answer_def read_answer_def codec_ok_def)
    qed
  qed
qed

subsection \<open>Properties\<close>


text \<open>A codec that knows the empty requests and one reply.\<close>

definition sample_unmarshal :: "(rpc_reply \<Rightarrow> 'r option) \<Rightarrow> ((error + rpc_reply) \<times> world) option \<Rightarrow> string \<Rightarrow> error + 'r" where
  "sample_unmarshal reply out body =
     (case out of
        Some (Inr rep, _) \<Rightarrow> (case reply rep of Some r \<Rightarrow> Inr r | None \<Rightarrow> Inl body)
      | _ \<Rightarrow> Inl body)"

lemma sample_codec:
  assumes "decoder ''{}'' = Decoded q" and "\<And>r. reply (wrap r) = Some r"
  shows "codec_ok sample_runtime (\<lambda>_. Inr ''{}'') decoder wrap (sample_unmarshal reply out) q out"
  using assms by (auto simp: codec_ok_def sample_unmarshal_def sample_runtime_def http_Error_def)

definition open_auth :: AuthMiddleware where
  "open_auth = NewAuthMiddleware ((cfg_Auth (Load (\<lambda>_. [])))\<lparr>Enabled := False\<rparr>)"


end
