(* ===== verification/Consumer.thy ===== *)
theory Consumer
  imports Runner
begin

section \<open>The Redis consumer of scrape requests\<close>

text \<open>
  \<open>internal/services/scrape_consumer.go\<close>: draining what a crash left behind, processing one request, and
  the loop. The replies of \<open>XReadGroup\<close> are inputs; every other command goes to the world's list of
  commands. Unix times are in seconds; the clock stands still during a run.
\<close>

record message =
  m_ID :: string
  m_Values :: "(string \<times> redis_value) list"

definition Unix :: "time \<Rightarrow> int" where
  "Unix t = (t - Date 1970 1 1) div 1000000000"

definition seconds_per_hour :: int where "seconds_per_hour = 3600"

definition send :: "command list \<Rightarrow> world \<Rightarrow> world" where
  "send cs s = s\<lparr>w_redis := w_redis s @ cs\<rparr>"

text \<open>\<open>msg.Values[key].(string)\<close> with the second result dropped: the empty string unless it is a string.\<close>

definition string_value :: "message \<Rightarrow> string \<Rightarrow> string" where
  "string_value msg key = (case map_of (m_Values msg) key of Some (VStr v) \<Rightarrow> v | _ \<Rightarrow> [])"

definition requests_stream :: string where "requests_stream = ''scraper:requests''"
definition workers_group :: string where "workers_group = ''scraper-workers''"

definition statusKey :: "string \<Rightarrow> string" where "statusKey reqID = ''scraper:status:'' @ reqID"
definition eventsKey :: "string \<Rightarrow> string" where "eventsKey reqID = ''scraper:events:'' @ reqID"

definition named_id :: "message \<Rightarrow> string" where
  "named_id msg = (if string_value msg ''request_id'' = [] then string_value msg ''id'' else string_value msg ''request_id'')"

subsection \<open>Draining\<close>

fun drainLoop :: "time \<Rightarrow> message list \<Rightarrow> command list" where
  "drainLoop now [] = []"
| "drainLoop now (msg # msgs) =
     (let reqID = named_id msg in
      (if reqID \<noteq> []
       then [HSet (statusKey reqID) [(''status'', VStr ''interrupted''), (''error'', VStr ''interrupted by server restart''),
               (''updated_at'', VInt (Unix now))],
             Expire (statusKey reqID) (24 * seconds_per_hour)]
       else []) @ XAck requests_stream workers_group (m_ID msg) # drainLoop now msgs)"

text \<open>The answers of \<open>XReadGroup\<close>: streams of messages, \<open>redis.Nil\<close>, or another error.\<close>

datatype read_reply = Streams "message list list" | RedisNil | ReadError string

definition DrainPending :: "read_reply \<Rightarrow> world \<Rightarrow> world" where
  "DrainPending reply s =
     (case reply of
        ReadError e \<Rightarrow> s
      | RedisNil \<Rightarrow> s
      | Streams streams \<Rightarrow> send (drainLoop (w_now s) (concat streams)) s)"

text \<open>\<open>Start\<close>: create the group, drain, then the loop runs in its own goroutine.\<close>

definition consumer_Start :: "read_reply \<Rightarrow> world \<Rightarrow> world" where
  "consumer_Start reply s = DrainPending reply (send [XGroupCreateMkStream requests_stream workers_group ''0''] s)"

subsection \<open>One request\<close>

definition progress :: "string \<Rightarrow> string \<Rightarrow> world \<Rightarrow> world" where
  "progress reqID phase s =
     (let now = Unix (w_now s) in
      send [HSet (statusKey reqID) [(''phase'', VStr phase), (''updated_at'', VInt now)],
            XAdd (eventsKey reqID) 1000 [(''event'', VStr ''progress''), (''phase'', VStr phase), (''ts'', VInt now)],
            Expire (eventsKey reqID) seconds_per_hour] s)"

definition request_id :: "message \<Rightarrow> string" where
  "request_id msg = (if named_id msg = [] then m_ID msg else named_id msg)"

definition ProcessMessage :: "world ScraperRunner \<Rightarrow> message \<Rightarrow> world \<Rightarrow> world option" where
  "ProcessMessage runner msg s =
     (let reqID = request_id msg; status = statusKey reqID; events = eventsKey reqID;
          s = send [SetKey ''scraper:latest'' reqID (24 * seconds_per_hour),
                HSet status [(''request_id'', VStr reqID), (''status'', VStr ''running''), (''phase'', VStr ''queued''),
                  (''updated_at'', VInt (Unix (w_now s)))],
                Expire status (24 * seconds_per_hour)] s in
      case RunOnce runner (progress reqID) s of
        None \<Rightarrow> None
      | Some ((res, err), s) \<Rightarrow>
          let now = Unix (w_now s);
              s = (case err of
                Some e \<Rightarrow> send
                  [HSet status [(''status'', VStr ''error''), (''phase'', VStr ''error''), (''error'', VStr e), (''updated_at'', VInt now)],
                   XAdd events 1000 [(''event'', VStr ''error''), (''message'', VStr e), (''ts'', VInt now)]] s
              | None \<Rightarrow> send
                  [HSet status [(''status'', VStr ''done''), (''phase'', VStr ''completed''), (''inserted'', VInt (Inserted res)),
                     (''prizes_written'', VInt (PrizesWritten res)), (''updated_at'', VInt now)],
                   XAdd events 1000 [(''event'', VStr ''done''), (''inserted'', VInt (Inserted res)),
                     (''prizes_written'', VInt (PrizesWritten res)), (''ts'', VInt now)]] s)
          in Some (send [Expire status (24 * seconds_per_hour), Expire events seconds_per_hour,
               XAck requests_stream workers_group (m_ID msg)] s))"

subsection \<open>The loop\<close>

text \<open>
  What one turn of the loop finds: whether the stop channel is closed, the reply of the blocking read, and, when
  the read failed, whether the channel is closed then. The loop is a function of the turns; it has ended when the
  result says so.
\<close>

record turn =
  stopped :: bool
  reply :: read_reply
  stopped_after_error :: bool

definition Contains :: "string \<Rightarrow> string \<Rightarrow> bool" where
  "Contains s sub = (find_match (\<lambda>t. strip_prefix sub t) s \<noteq> None)"

fun processAll :: "world ScraperRunner \<Rightarrow> message list \<Rightarrow> world \<Rightarrow> world option" where
  "processAll runner [] s = Some s"
| "processAll runner (msg # msgs) s =
     (case ProcessMessage runner msg s of None \<Rightarrow> None | Some s \<Rightarrow> processAll runner msgs s)"

fun consumer_loop :: "world ScraperRunner \<Rightarrow> turn list \<Rightarrow> world \<Rightarrow> (bool \<times> world) option" where
  "consumer_loop runner [] s = Some (False, s)"
| "consumer_loop runner (t # ts) s =
     (if stopped t then Some (True, s)
      else case reply t of
        RedisNil \<Rightarrow> consumer_loop runner ts s
      | ReadError e \<Rightarrow>
          if Contains e ''context canceled'' then consumer_loop runner ts s
          else if stopped_after_error t then Some (True, s)
          else consumer_loop runner ts s
      | Streams streams \<Rightarrow>
          (case processAll runner (concat streams) s of
             None \<Rightarrow> None
           | Some s \<Rightarrow> consumer_loop runner ts s))"

subsection \<open>What the commands of a request amount to\<close>

text \<open>The commands a request may send before its last ones: none acknowledges, and none writes a status but running.\<close>

definition running_only :: "string \<Rightarrow> command list \<Rightarrow> command list \<Rightarrow> bool" where
  "running_only reqID base cs \<longleftrightarrow> (\<exists>xs. cs = base @ xs \<and> acked xs = [])"

lemma progress_coherent: "coherent s \<Longrightarrow> coherent (progress reqID phase s)"
  by (simp add: progress_def send_def coherent_def Let_def)

lemma progress_running: "running_only reqID base (w_redis s) \<Longrightarrow> running_only reqID base (w_redis (progress reqID phase s))"
  by (auto simp: running_only_def progress_def send_def Let_def)

lemma send_coherent: "coherent s \<Longrightarrow> coherent (send cs s)"
  by (simp add: send_def coherent_def)

definition finished :: "redis_value option \<Rightarrow> bool" where
  "finished v \<longleftrightarrow> v = Some (VStr ''done'') \<or> v = Some (VStr ''error'')"

lemma ProcessMessage_run:
  assumes "coherent s"
  shows "\<exists>s'. ProcessMessage server_runner msg s = Some s' \<and> coherent s' \<and>
    (\<exists>cs. w_redis s' = w_redis s @ cs \<and> acked cs = [m_ID msg] \<and>
      finished (hget (statusKey (request_id msg)) ''status'' cs None))"
proof -
  let ?id = "request_id msg"
  let ?status = "statusKey ?id"
  let ?s0 = "send [SetKey ''scraper:latest'' ?id (24 * seconds_per_hour),
      HSet ?status [(''request_id'', VStr ?id), (''status'', VStr ''running''), (''phase'', VStr ''queued''),
        (''updated_at'', VInt (Unix (w_now s)))],
      Expire ?status (24 * seconds_per_hour)] s"
  let ?Q = "running_only ?id (w_redis s)"
  have start: "coherent ?s0 \<and> ?Q (w_redis ?s0)"
    using assms by (simp add: send_coherent) (simp add: running_only_def send_def)
  obtain res err s1 where run: "RunOnce server_runner (progress ?id) ?s0 = Some ((res, err), s1)"
    "coherent s1" "?Q (w_redis s1)"
    using server.run [of ?s0 ?Q "progress ?id"] start progress_coherent progress_running by blast
  obtain xs where xs: "w_redis s1 = w_redis s @ xs" "acked xs = []"
    using run(3) by (auto simp: running_only_def)
  show ?thesis
    using run(1,2) xs
    by (cases err) (auto simp: ProcessMessage_def Let_def send_def coherent_def hget_append finished_def)
qed

lemma processAll_run:
  "coherent s \<Longrightarrow> \<exists>s'. processAll server_runner msgs s = Some s' \<and> coherent s' \<and>
     (\<exists>cs. w_redis s' = w_redis s @ cs \<and> acked cs = map m_ID msgs)"
proof (induction msgs arbitrary: s)
  case (Cons msg msgs)
  obtain s1 cs1 where one: "ProcessMessage server_runner msg s = Some s1" "coherent s1"
    "w_redis s1 = w_redis s @ cs1" "acked cs1 = [m_ID msg]"
    using ProcessMessage_run [OF Cons.prems, of msg] by blast
  obtain s2 cs2 where "processAll server_runner msgs s1 = Some s2" "coherent s2"
    "w_redis s2 = w_redis s1 @ cs2" "acked cs2 = map m_ID msgs"
    using Cons.IH [OF one(2)] by blast
  then show ?case using one by (intro exI [of _ s2] conjI exI [of _ "cs1 @ cs2"]) auto
qed simp

text \<open>The messages the loop takes before it ends.\<close>

fun taken :: "turn list \<Rightarrow> message list" where
  "taken [] = []"
| "taken (t # ts) =
     (if stopped t then []
      else case reply t of
        RedisNil \<Rightarrow> taken ts
      | ReadError e \<Rightarrow> if \<not> Contains e ''context canceled'' \<and> stopped_after_error t then [] else taken ts
      | Streams streams \<Rightarrow> concat streams @ taken ts)"

lemma consumer_loop_run:
  "coherent s \<Longrightarrow> \<exists>ended s'. consumer_loop server_runner ts s = Some (ended, s') \<and> coherent s' \<and>
     (\<exists>cs. w_redis s' = w_redis s @ cs \<and> acked cs = map m_ID (taken ts))"
proof (induction ts arbitrary: s)
  case (Cons t ts)
  show ?case
  proof (cases "stopped t")
    case False
    show ?thesis
    proof (cases "reply t")
      case (Streams streams)
      obtain s1 cs1 where one: "processAll server_runner (concat streams) s = Some s1" "coherent s1"
        "w_redis s1 = w_redis s @ cs1" "acked cs1 = map m_ID (concat streams)"
        using processAll_run [OF Cons.prems] by blast
      obtain ended s2 cs2 where "consumer_loop server_runner ts s1 = Some (ended, s2)" "coherent s2"
        "w_redis s2 = w_redis s1 @ cs2" "acked cs2 = map m_ID (taken ts)"
        using Cons.IH [OF one(2)] by blast
      then show ?thesis
        using one False Streams by (intro exI [of _ ended] exI [of _ s2] conjI exI [of _ "cs1 @ cs2"]) auto
    qed (use Cons False in auto)
  qed (use Cons.prems in auto)
next
  case Nil
  then show ?case by (intro exI [of _ False]) simp
qed

lemma drainLoop_acks: "acked (drainLoop now msgs) = map m_ID msgs"
  by (induction msgs) (auto simp: Let_def)

lemma drainLoop_unnamed:
  "named_id msg = [] \<Longrightarrow> drainLoop now [msg] = [XAck requests_stream workers_group (m_ID msg)]"
  by simp

subsection \<open>Properties\<close>


definition sample_message :: message where
  "sample_message = \<lparr>m_ID = ''1-0'', m_Values = [(''request_id'', VStr ''r1'')]\<rparr>"




text \<open>C37: Draining acknowledges every pending message, but a request that has no id of its own, which \<open>ProcessMessage\<close>
  files under the id of its message, is not marked as interrupted: its status stays at running.\<close>

theorem drain_leaves_running:
  assumes "named_id msg = []"
  shows "acked (drainLoop now [msg]) = [m_ID msg] \<and>
    hget (statusKey (request_id msg)) ''status'' (drainLoop now [msg]) (Some (VStr ''running'')) = Some (VStr ''running'')"
  unfolding drainLoop_unnamed [OF assms] by simp

theorem drain_leaves_running_witness:
  "hget (statusKey ''1-0'') ''status'' (drainLoop 0 [\<lparr>m_ID = ''1-0'', m_Values = []\<rparr>]) (Some (VStr ''running'')) =
     Some (VStr ''running'')"
proof -
  have n: "named_id \<lparr>m_ID = ''1-0'', m_Values = []\<rparr> = []" by (simp add: named_id_def string_value_def)
  have "request_id \<lparr>m_ID = ''1-0'', m_Values = []\<rparr> = ''1-0''" by (simp add: request_id_def n)
  then show ?thesis using drain_leaves_running [OF n, of 0] by simp
qed

end
