(* ===== verification/Startup.thy ===== *)
theory Startup
  imports Consumer Gateway
begin

section \<open>Starting, refreshing and stopping the server\<close>

text \<open>
  \<open>internal/startup/server.go\<close>: what \<open>NewServer\<close> does to the table and the cache before the first request, the
  scheduled refresh, and the order in which \<open>Stop\<close> takes the parts down. Opening the database and creating the
  gateway are outcomes (the error, if any); whether the Redis URL parses and what its stream has pending are
  parameters. \<open>None\<close> is a panic of the draws' parser.
\<close>

definition hour :: int where "hour = 60 * minute"

definition parseCronAsInterval :: "string \<Rightarrow> int" where
  "parseCronAsInterval cronSpec =
     (if cronSpec = ''0 3 * * *'' then 24 * hour
      else if cronSpec = ''0 * * * *'' then hour
      else if cronSpec = ''*/15 * * * *'' then 15 * minute
      else 24 * hour)"

record Server =
  srv_consumer :: bool
  srv_interval :: "int option"
  srv_auth :: AuthMiddleware

text \<open>\<open>startScraperScheduler\<close>: the ticker's interval, or none.\<close>

definition startScraperScheduler :: "string \<Rightarrow> int option" where
  "startScraperScheduler cronSpec =
     (let interval = parseCronAsInterval cronSpec in if interval \<le> 0 then None else Some interval)"

definition seed_on_boot :: "world \<Rightarrow> world option" where
  "seed_on_boot s =
     (case SeedLotteryData (w_web s) (w_now s) (w_db s) of
        None \<Rightarrow> None
      | Some (_, db) \<Rightarrow>
          let s = s\<lparr>w_db := db, w_cache := InvalidateAll (w_cache s)\<rparr>;
              (_, db) = SeedMissingPrizes (FetchPrizeAmounts (w_web s) (w_parse s)) 50 (w_db s)
          in Some (s\<lparr>w_db := db\<rparr>))"

definition NewServer ::
  "Configuration \<Rightarrow> error option \<Rightarrow> error option \<Rightarrow> (string \<Rightarrow> bool) \<Rightarrow> read_reply \<Rightarrow> world \<Rightarrow>
   ((error + Server) \<times> world) option" where
  "NewServer cfg db_error gateway_error url_ok pending s =
     (case db_error of
        Some e \<Rightarrow> Some (Inl e, s)
      | None \<Rightarrow>
          let s = s\<lparr>w_cache := NewLotteryManager\<rparr> in
          case (if SeedOnBoot (cfg_Scraper cfg) then seed_on_boot s else Some s) of
            None \<Rightarrow> None
          | Some s \<Rightarrow>
              (case gateway_error of
                 Some e \<Rightarrow> Some (Inl e, s)
               | None \<Rightarrow>
                   let consumer = (cfg_RedisURL cfg \<noteq> [] \<and> url_ok (cfg_RedisURL cfg));
                       s = (if consumer then consumer_Start pending s else s)
                   in Some (Inr \<lparr>srv_consumer = consumer,
                        srv_interval = (if Cron (cfg_Scraper cfg) \<noteq> [] then startScraperScheduler (Cron (cfg_Scraper cfg)) else None),
                        srv_auth = NewAuthMiddleware (cfg_Auth cfg)\<rparr>, s)))"

text \<open>The scheduler's goroutine as a function of what its \<open>select\<close> receives: a tick (\<open>True\<close>) or the stop. The result of
  a run is only logged.\<close>

fun scheduler :: "bool list \<Rightarrow> world \<Rightarrow> world option" where
  "scheduler [] s = Some s"
| "scheduler (tick # ticks) s =
     (if tick
      then (case RunOnce server_runner (\<lambda>p s. s) s of None \<Rightarrow> None | Some (_, s) \<Rightarrow> scheduler ticks s)
      else Some s)"

datatype stop_step = CloseScraperStop | StopConsumer | StopGRPC | StopGateway | CloseDatabase

text \<open>\<open>Stop\<close>: closing a closed channel panics, so a second call is \<open>None\<close>.\<close>

definition Server_Stop :: "Server \<Rightarrow> bool \<Rightarrow> (stop_step list \<times> bool) option" where
  "Server_Stop srv was_closed =
     (if was_closed then None
      else Some ([CloseScraperStop] @ (if srv_consumer srv then [StopConsumer] else []) @
             [StopGRPC, StopGateway, CloseDatabase], True))"

subsection \<open>The state the server starts in\<close>

lemma cache_ok_InvalidateAll: "cache_ok (InvalidateAll m) []"
  by (simp add: cache_ok_def InvalidateAll_def lru_list_def keyed_def)

lemma SeedLotteryData_ok:
  assumes "table_ok db" and "SeedLotteryData get now db = Some (res, db')"
  shows "table_ok db'"
proof -
  obtain c db1 where c: "Count db = (c, db1)" by fastforce
  have ok1: "table_ok db1" using Count_state [OF c] table_ok_cong [of db1 db] assms(1) by simp
  show ?thesis
    using assms(2) c ok1 CreateBatch_ok [OF ok1]
    by (auto simp: SeedLotteryData_def split: sum.splits if_splits option.splits)
qed

lemma seed_on_boot_ok:
  assumes "table_ok (w_db s)" and "seed_on_boot s = Some s'"
  shows "table_ok (w_db s') \<and> cache_ok (w_cache s') [] \<and> w_web s' = w_web s \<and> w_now s' = w_now s \<and> w_order s' = w_order s"
proof -
  obtain r1 db1 where one: "SeedLotteryData (w_web s) (w_now s) (w_db s) = Some (r1, db1)"
    using assms(2) by (auto simp: seed_on_boot_def split: option.splits)
  have ok1: "table_ok db1" using SeedLotteryData_ok [OF assms(1) one] .
  obtain r2 db2 where two: "SeedMissingPrizes (FetchPrizeAmounts (w_web s) (w_parse s)) 50 db1 = (r2, db2)" by fastforce
  have "table_ok db2" using same_draws_table_ok [OF SeedMissingPrizes_effect(1) [OF ok1 two] ok1] .
  then show ?thesis using assms(2) one two by (auto simp: seed_on_boot_def cache_ok_InvalidateAll)
qed

lemma start_coherent:
  assumes "good_web (w_web s) (w_now s)" and "good_order (w_order s)" and "table_ok (w_db s)"
    and "NewServer cfg db_error gateway_error url_ok pending s = Some (Inr srv, s')"
  shows "coherent s'"
proof -
  have fresh: "coherent t"
    if "good_web (w_web t) (w_now t)" "good_order (w_order t)" "table_ok (w_db t)" "cache_ok (w_cache t) []" for t
    using that by (auto simp: coherent_def windows_def intro!: exI [of _ "[]"])
  have drained: "coherent (consumer_Start pending t)" if "coherent t" for t
    using that by (simp add: consumer_Start_def DrainPending_def send_coherent split: read_reply.splits)
  let ?s = "s\<lparr>w_cache := NewLotteryManager\<rparr>"
  obtain t where t: "(if SeedOnBoot (cfg_Scraper cfg) then seed_on_boot ?s else Some ?s) = Some t"
    "s' = (if srv_consumer srv then consumer_Start pending t else t)"
    using assms(4) by (auto simp: NewServer_def Let_def split: option.splits)
  have "coherent t"
  proof (cases "SeedOnBoot (cfg_Scraper cfg)")
    case True
    then have "seed_on_boot ?s = Some t" using t(1) by simp
    from seed_on_boot_ok [OF _ this] show ?thesis using assms(1-3) fresh by simp
  next
    case False
    then show ?thesis using t(1) assms(1-3) fresh [of ?s] cache_ok_new by auto
  qed
  then show ?thesis using t(2) drained by simp
qed

lemma scheduler_coherent: "coherent s \<Longrightarrow> \<exists>s'. scheduler ticks s = Some s' \<and> coherent s'"
proof (induction ticks arbitrary: s)
  case (Cons tick ticks)
  obtain out s1 where "RunOnce server_runner (\<lambda>p s. s) s = Some (out, s1)" "coherent s1"
    using RunOnce_coherent [OF Cons.prems] by blast
  then show ?case using Cons by auto
qed simp

subsection \<open>Properties\<close>

text \<open>Whatever the configuration, and whatever fails while seeding, a server that starts is in a coherent state: the
  table's draw numbers and ids are unique and no stale archive is cached; every scheduled refresh then ends and
  keeps it so.\<close>

theorem server_starts_coherent:
  assumes "good_web (w_web s) (w_now s)" and "good_order (w_order s)" and "table_ok (w_db s)"
    and "NewServer cfg db_error gateway_error url_ok pending s = Some (Inr srv, s')"
  shows "coherent s' \<and> (\<exists>s''. scheduler ticks s' = Some s'' \<and> coherent s'')"
  using start_coherent [OF assms] scheduler_coherent by blast

theorem server_starts_coherent_witness:
  "\<exists>srv s'. NewServer (Load (\<lambda>_. [])) None None (\<lambda>_. True) RedisNil new_world = Some (Inr srv, s') \<and>
     srv_interval srv = Some (24 * hour) \<and> coherent s' \<and> (\<exists>s''. scheduler [True, False] s' = Some s'')"
proof -
  have "good_web (w_web new_world) (w_now new_world)" "good_order (w_order new_world)" "table_ok (w_db new_world)"
    using new_world_coherent by (simp_all add: coherent_def)
  note start = server_starts_coherent [OF this]
  have cfg: "Cron (cfg_Scraper (Load (\<lambda>_. []))) = ''0 3 * * *''" "cfg_RedisURL (Load (\<lambda>_. [])) = []"
    "SeedOnBoot (cfg_Scraper (Load (\<lambda>_. [])))"
    by (simp_all add: Load_def GetEnv_def GetEnvAsBool_def)
  have "SeedLotteryData (w_web new_world) (w_now new_world) (w_db new_world) \<noteq> None"
    by (cases "Count (w_db new_world)")
      (simp add: SeedLotteryData_def FetchLotteryData_def new_world_def split: sum.splits)
  then obtain r db1 where "SeedLotteryData (w_web new_world) (w_now new_world) (w_db new_world) = Some (r, db1)"
    by auto
  then have "seed_on_boot (new_world\<lparr>w_cache := NewLotteryManager\<rparr>) \<noteq> None"
    by (simp add: seed_on_boot_def Let_def split: prod.splits)
  then obtain srv s' where ns: "NewServer (Load (\<lambda>_. [])) None None (\<lambda>_. True) RedisNil new_world = Some (Inr srv, s')"
    "srv_interval srv = startScraperScheduler ''0 3 * * *''"
    by (auto simp: NewServer_def cfg Let_def split: option.splits)
  have "0 < 24 * hour" by (simp add: hour_def minute_def)
  then show ?thesis
    using ns start [OF ns(1), of "[True, False]"] by (auto simp: startScraperScheduler_def parseCronAsInterval_def)
qed

end
