(* ===== verification/Process.thy ===== *)
theory Process
  imports Startup
begin

section \<open>The process: database, listeners, exit code\<close>

text \<open>
  \<open>cmd/server/main.go\<close> with what it reaches for on its way: opening the database (\<open>internal/database/postgres.go\<close>),
  creating, starting and stopping the two servers (\<open>internal/server\<close>), and \<open>Start\<close> of \<open>internal/startup/server.go\<close>.
  What pgx, gRPC and \<open>net/http\<close> answer are outcomes. \<open>None\<close> is a panic.
\<close>

subsection \<open>The database\<close>

record pool_config =
  conn_string :: string
  RuntimeParams :: "string \<rightharpoonup> string"

record pgx =
  ParseConfig :: "string \<Rightarrow> error + pool_config"
  NewWithConfig :: "pool_config \<Rightarrow> error option"
  Ping :: "pool_config \<Rightarrow> error option"

definition with_search_path :: "DatabaseConfig \<Rightarrow> pool_config \<Rightarrow> pool_config" where
  "with_search_path cfg pc =
     (if Schema cfg \<noteq> [] then pc\<lparr>RuntimeParams := (RuntimeParams pc)(''search_path'' \<mapsto> Schema cfg)\<rparr> else pc)"

definition NewDatabase :: "pgx \<Rightarrow> DatabaseConfig \<Rightarrow> error + pool_config" where
  "NewDatabase pg cfg =
     (case ParseConfig pg (buildConnectionString cfg) of
        Inl e \<Rightarrow> Inl (''unable to parse connection config: '' @ e)
      | Inr pc \<Rightarrow>
          let pc = with_search_path cfg pc in
          (case NewWithConfig pg pc of
             Some e \<Rightarrow> Inl (''unable to create connection pool: '' @ e)
           | None \<Rightarrow> (case Ping pg pc of
               Some e \<Rightarrow> Inl (''unable to ping database: '' @ e)
             | None \<Rightarrow> Inr pc)))"

text \<open>An open database is always in the configured schema.\<close>

lemma NewDatabase_schema:
  "NewDatabase pg cfg = Inr pc \<Longrightarrow> Schema cfg \<noteq> [] \<Longrightarrow> RuntimeParams pc ''search_path'' = Some (Schema cfg)"
  by (auto simp: NewDatabase_def with_search_path_def Let_def split: sum.splits option.splits)

text \<open>Values are not quoted in the connection string: a password with a space in it can set another key, and two
  configurations with different databases are the same connection.\<close>

lemma connection_string_ambiguous:
  "buildConnectionString (cfg\<lparr>Password := ''p dbname=a'', DBName := ''b''\<rparr>) =
     ''host='' @ Host cfg @ '' port='' @ db_Port cfg @ '' user='' @ User cfg @ '' password=p dbname=a dbname=b sslmode='' @ SSLMode cfg"
  "buildConnectionString (cfg\<lparr>Password := ''p dbname=a'', DBName := ''b''\<rparr>) =
   buildConnectionString (cfg\<lparr>Password := ''p'', DBName := ''a dbname=b''\<rparr>)"
  by (simp_all add: buildConnectionString_def)

subsection \<open>The two servers\<close>

text \<open>\<open>NewGatewayServer\<close>: the outcomes of \<open>grpc.NewClient\<close> and of registering the routes; the second component tells
  whether the loopback connection is left open.\<close>

definition NewGatewayServer :: "(string \<Rightarrow> error option) \<Rightarrow> error option \<Rightarrow> string \<Rightarrow> error option \<times> bool" where
  "NewGatewayServer dial register grpcPort =
     (case dial (''localhost:'' @ grpcPort) of
        Some e \<Rightarrow> (Some (''failed to connect to gRPC server: '' @ e), False)
      | None \<Rightarrow> (case register of
          Some e \<Rightarrow> (Some (''failed to register lottery service handler: '' @ e), False)
        | None \<Rightarrow> (None, True)))"

text \<open>\<open>RegisterLotteryServiceHandlerFromEndpoint\<close>, the generated alternative that dials itself: the connection is closed
  when registering fails, and when the context is done.\<close>

definition RegisterLotteryServiceHandlerFromEndpoint ::
  "(string \<Rightarrow> error option) \<Rightarrow> error option \<Rightarrow> bool \<Rightarrow> string \<Rightarrow> error option \<times> bool" where
  "RegisterLotteryServiceHandlerFromEndpoint dial register ctx_done endpoint =
     (case dial endpoint of
        Some e \<Rightarrow> (Some e, False)
      | None \<Rightarrow> (case register of Some e \<Rightarrow> (Some e, False) | None \<Rightarrow> (None, \<not> ctx_done)))"

definition GRPCServer_Start :: "(string \<Rightarrow> error option) \<Rightarrow> error option \<Rightarrow> string \<Rightarrow> error option" where
  "GRPCServer_Start listen serve port =
     (case listen ('':'' @ port) of
        Some e \<Rightarrow> Some (''failed to listen on port '' @ port @ '': '' @ e)
      | None \<Rightarrow> serve)"

text \<open>\<open>GatewayServer.Stop\<close>: the connection is closed first, then the outcome of \<open>Shutdown\<close> is filtered.\<close>

definition GatewayServer_Stop :: "bool \<Rightarrow> error option \<Rightarrow> error option \<times> bool" where
  "GatewayServer_Stop conn shutdown =
     ((case shutdown of None \<Rightarrow> None | Some e \<Rightarrow> if e \<noteq> ''http: Server closed'' then Some e else None), False)"

text \<open>\<open>Server.Start\<close>: \<open>None\<close> is the nil error it returns; the list is what its third goroutine logs of the errors with
  which the listeners end, in the order they arrive. It reads the channel once.\<close>

datatype listener_error = GRPCListener error | RESTListener error

definition listener_text :: "listener_error \<Rightarrow> error" where
  "listener_text le = (case le of GRPCListener e \<Rightarrow> ''gRPC server error: '' @ e | RESTListener e \<Rightarrow> ''REST gateway error: '' @ e)"

definition Server_Start :: "listener_error list \<Rightarrow> error option \<times> error list" where
  "Server_Start arrivals = (None, map listener_text (take 1 arrivals))"

subsection \<open>\<open>main\<close>\<close>

text \<open>The exit code, the steps of \<open>Stop\<close>, what \<open>Start\<close> logged, and the world. The signal arrives after all
  errors in \<open>arrivals\<close>.\<close>

definition main_process ::
  "environment \<Rightarrow> pgx \<Rightarrow> (string \<Rightarrow> error option) \<Rightarrow> error option \<Rightarrow> (string \<Rightarrow> bool) \<Rightarrow> read_reply \<Rightarrow> listener_error list \<Rightarrow> world \<Rightarrow>
   (int \<times> stop_step list \<times> error list \<times> world) option" where
  "main_process env pg dial register url_ok pending arrivals s =
     (let cfg = Load env;
          db_error = (case NewDatabase pg (cfg_Database cfg) of Inl e \<Rightarrow> Some e | Inr _ \<Rightarrow> None);
          gateway_error = fst (NewGatewayServer dial register (GRPCPort (cfg_Server cfg)))
      in case NewServer cfg db_error gateway_error url_ok pending s of
           None \<Rightarrow> None
         | Some (Inl _, s) \<Rightarrow> Some (1, [], [], s)
         | Some (Inr srv, s) \<Rightarrow>
             (case Server_Start arrivals of
                (Some _, logged) \<Rightarrow> Some (1, [], logged, s)
              | (None, logged) \<Rightarrow>
                  (case Server_Stop srv False of
                     None \<Rightarrow> None
                   | Some (steps, _) \<Rightarrow> Some (0, steps, logged, s))))"

text \<open>Without a database the process exits with 1 and has changed nothing.\<close>

lemma no_database_no_change:
  assumes "NewDatabase pg (cfg_Database (Load env)) = Inl e"
  shows "main_process env pg dial register url_ok pending arrivals s = Some (1, [], [], s)"
  using assms by (simp add: main_process_def NewServer_def)

text \<open>Servers that cannot listen are not noticed: with both ports taken the process runs on until a signal and exits with
  0, and of the two errors one is logged.\<close>

lemma taken_ports_unnoticed:
  assumes "main_process env pg dial register url_ok pending [] s = Some (0, steps, [], s')"
  shows "main_process env pg dial register url_ok pending [GRPCListener e1, RESTListener e2] s =
    Some (0, steps, [''gRPC server error: '' @ e1], s')"
  using assms
  by (auto simp: main_process_def Server_Start_def listener_text_def Let_def split: option.splits sum.splits)

text \<open>Whatever happens while starting, the process that runs on has a coherent cache over a well-formed table; it ends
  with exit code 0 by taking all parts down in one order, the database last.\<close>

lemma main_outcome:
  assumes "good_web (w_web s) (w_now s)" and "good_order (w_order s)" and "table_ok (w_db s)"
    and "main_process env pg dial register url_ok pending arrivals s = Some (code, steps, logged, s')"
  shows "(code = 0 \<and> coherent s' \<and> steps \<noteq> [] \<and> hd steps = CloseScraperStop \<and> last steps = CloseDatabase) \<or> (code = 1 \<and> steps = [])"
proof -
  define cfg where "cfg = Load env"
  define db_error where "db_error = (case NewDatabase pg (cfg_Database cfg) of Inl e \<Rightarrow> Some e | Inr _ \<Rightarrow> None)"
  define gateway_error where "gateway_error = fst (NewGatewayServer dial register (GRPCPort (cfg_Server cfg)))"
  show ?thesis
  proof (cases "NewServer cfg db_error gateway_error url_ok pending s")
    case None
    then show ?thesis using assms(4) by (simp add: main_process_def Let_def cfg_def db_error_def gateway_error_def)
  next
    case (Some out)
    obtain r s1 where out: "out = (r, s1)" by fastforce
    have run: "main_process env pg dial register url_ok pending arrivals s =
        (case r of Inl _ \<Rightarrow> Some (1, [], [], s1)
         | Inr srv \<Rightarrow> Some (0, fst (the (Server_Stop srv False)), map listener_text (take 1 arrivals), s1))"
      using Some out
      by (simp add: main_process_def Let_def Server_Start_def Server_Stop_def cfg_def db_error_def gateway_error_def
          split: sum.splits)
    show ?thesis
    proof (cases r)
      case (Inl e)
      then show ?thesis using assms(4) run by simp
    next
      case (Inr srv)
      have "coherent s1" using start_coherent [OF assms(1-3)] Some out Inr by blast
      then show ?thesis using assms(4) run Inr by (auto simp: Server_Stop_def)
    qed
  qed
qed

end
