(* ===== verification/Sessions.thy ===== *)
theory Sessions
  imports Rest Process Transitions
begin

section \<open>The life of a server\<close>

text \<open>
  Everything the running process reacts to, in one order: HTTP and gRPC requests, ticks of the scheduler, messages of the
  Redis stream, and what changes around it. The state is the shared \<open>AuthMiddleware\<close> and the world. The locale
  \<open>attended\<close> is the contract that carries a single answer over to all sequences of them.
\<close>

datatype activity =
    HTTPRequest auth_env request
  | GRPCRequest auth_env rpc_request "string list option"
  | ScheduledRun
  | StreamMessage message
  | Elsewhere web time "(string \<times> nat) list \<Rightarrow> (string \<times> nat) list"

fun attend :: "gateway_runtime \<Rightarrow> activity \<Rightarrow> AuthMiddleware \<times> world \<Rightarrow> (AuthMiddleware \<times> world) option" where
  "attend rt (HTTPRequest env rq) st = map_option snd (rest_server env rt rq st)"
| "attend rt (GRPCRequest env q md) st = map_option snd (invoke env q md st)"
| "attend rt ScheduledRun st = map_option (\<lambda>s. (fst st, s)) (scheduler [True] (snd st))"
| "attend rt (StreamMessage msg) st = map_option (\<lambda>s. (fst st, s)) (ProcessMessage server_runner msg (snd st))"
| "attend rt (Elsewhere get now order) st = Some (fst st, (snd st)\<lparr>w_web := get, w_now := now, w_order := order\<rparr>)"

text \<open>What is asked of the outside: the realm's endpoint serves published keys, a caller with an accepted token does not
  ask for more wanted numbers than a form has places, and the web and the order of a map's entries are as in \<open>coherent\<close>.\<close>

fun harmless :: "gateway_runtime \<Rightarrow> AuthConfig \<Rightarrow> jwksKey set \<Rightarrow> activity \<Rightarrow> bool" where
  "harmless rt cfg trusted (HTTPRequest env rq) \<longleftrightarrow> endpoint_published trusted (endpoint_of env) \<and>
     ((Enabled cfg \<longrightarrow> signed_call env cfg (published trusted) (rq_Authorization rq)) \<longrightarrow>
      (\<forall>q. rpc_of rt rq = Some (Inr q) \<longrightarrow> \<not> overfull q))"
| "harmless rt cfg trusted (GRPCRequest env q md) \<longleftrightarrow> endpoint_published trusted (endpoint_of env) \<and>
     ((Enabled cfg \<longrightarrow> (\<exists>v vs. md = Some (v # vs) \<and> signed_call env cfg (published trusted) v)) \<longrightarrow> \<not> overfull q)"
| "harmless rt cfg trusted (Elsewhere get now order) \<longleftrightarrow> good_web get now \<and> good_order order"
| "harmless rt cfg trusted _ = True"

locale attended =
  fixes step :: "'e \<Rightarrow> 's \<Rightarrow> 's option" and inv :: "'s \<Rightarrow> bool" and safe :: "'e \<Rightarrow> bool"
  assumes answered: "inv s \<Longrightarrow> safe e \<Longrightarrow> \<exists>s'. step e s = Some s' \<and> inv s'"
begin

lemma goes_on: "inv s \<Longrightarrow> list_all safe es \<Longrightarrow> \<exists>s'. steps step es s = Some s' \<and> inv s'"
proof (induction es arbitrary: s)
  case (Cons e es)
  then obtain s1 where "step e s = Some s1" "inv s1" using answered [of s e] by auto
  then show ?case using Cons by (simp add: steps.simps)
qed (simp add: steps.simps)

end

definition in_service :: "AuthConfig \<Rightarrow> jwksKey set \<Rightarrow> AuthMiddleware \<times> world \<Rightarrow> bool" where
  "in_service cfg trusted st \<longleftrightarrow> middleware_ok trusted (fst st) \<and> am_cfg (fst st) = cfg \<and> coherent (snd st)"

lemma attend_in_service:
  assumes "in_service cfg trusted st" and "harmless rt cfg trusted e"
  shows "\<exists>st'. attend rt e st = Some st' \<and> in_service cfg trusted st'"
proof -
  obtain am s where st: "st = (am, s)" "middleware_ok trusted am" "am_cfg am = cfg" "coherent s"
    using assms(1) by (cases st) (simp add: in_service_def)
  show ?thesis
  proof (cases e)
    case (HTTPRequest env rq)
    then show ?thesis using rest_answered [of trusted env am s rq rt] assms(2) st by (auto simp: in_service_def)
  next
    case (GRPCRequest env q md)
    then show ?thesis using invoke_total [of trusted env am s md q] assms(2) st by (auto simp: in_service_def)
  next
    case ScheduledRun
    obtain s' where "scheduler [True] s = Some s'" "coherent s'" using scheduler_coherent [OF st(4)] by blast
    then show ?thesis using ScheduledRun st by (simp add: in_service_def del: scheduler.simps)
  next
    case (StreamMessage msg)
    then show ?thesis using ProcessMessage_run [OF st(4), of msg] st by (auto simp: in_service_def)
  next
    case (Elsewhere get now order)
    then show ?thesis using assms(2) st by (auto simp: in_service_def coherent_def)
  qed
qed

interpretation server_life: attended "attend rt" "in_service cfg trusted" "harmless rt cfg trusted"
  for rt :: gateway_runtime and cfg :: AuthConfig and trusted :: "jwksKey set"
  by unfold_locales (rule attend_in_service)

lemma NewServer_auth:
  "NewServer cfg db_error gateway_error url_ok pending s = Some (Inr srv, s') \<Longrightarrow> srv_auth srv = NewAuthMiddleware (cfg_Auth cfg)"
  by (auto simp: NewServer_def Let_def split: option.splits)

lemma NewAuthMiddleware_ok: "middleware_ok trusted (NewAuthMiddleware cfg)" "am_cfg (NewAuthMiddleware cfg) = cfg"
  by (simp_all add: middleware_ok_def NewAuthMiddleware_def cache_published_def newJWKSCache_def)

subsection \<open>Properties\<close>



end
