(* ===== verification/Spec2Isabelle.thy ===== *)
theory Spec2Isabelle
  imports Cache_Freshness Scraper_Properties Rpc_Clients Sessions
begin

text \<open>
  \<^bold>\<open>The program.\<close> \<open>stat-tree-server\<close> is a Go service that answers statistical questions about the draws of a
  lottery. It scrapes the draws from pais.co.il into one PostgreSQL table, builds from the draws of a date window
  an immutable archive (a counting tree and derived tables), keeps the last eight archives in an LRU cache, and
  answers gRPC and REST requests from them: statistics, form generation, analysis, scores and backtests. A
  scheduler and a Redis stream trigger scrape runs, which write new draws and prizes and invalidate the affected
  windows of the cache. Requests pass a guard that checks Keycloak tokens. All paths below are under
  \<open>src/internal/\<close>.

  \<^bold>\<open>Conventions.\<close> A Go \<open>int\<close> is an \<open>int\<close> where the code cannot overflow (the bounds lemmas say why) and is
  wrapped explicitly where it is converted (\<open>int32\<close>); a bit mask is a \<open>64 word\<close>. A struct is a record, an error
  is \<open>Inl\<close> of its text, a panic is \<open>None\<close>, a nil pointer or an unset message field is an option. A loop whose end
  is not structural is a \<open>function\<close> with a measure or a \<open>partial_function (option)\<close> whose end is then proved.
  A time is the number of nanoseconds since the zero time; a \<open>float64\<close> is a rational with explicit rounding.
  A map is an association list, and code that ranges over one is proved for every order.

  \<^bold>\<open>Theories, bottom up.\<close>
  \<^item> \<open>Prelude\<close>: arithmetic of Go, groups of numbers (\<open>combs\<close>, \<open>occs\<close>) and the facts on lists that the
    components share. \<open>Go_Float\<close>, \<open>Go_Time\<close>, \<open>Go_Strings\<close>: the parts of the standard library that the
    source uses: rounding, the calendar, number and date parsing, leftmost matches, the CSV reader.
    \<open>Transitions\<close>: systems that take steps, with the locale \<open>kept_invariant\<close> that the interleaved models interpret.
  \<^item> \<open>Lo_Node\<close>, \<open>Lo_Tree\<close> (\<open>lottery-tree/node.go\<close>, \<open>tree.go\<close>): the counting tree. \<open>Build_count\<close> says what
    one draw adds to every path; \<open>CollectNodes_spec\<close> what the collection returns.
  \<^item> \<open>Combos\<close>, \<open>Archive\<close>, \<open>Analysis\<close>, \<open>Archive_Properties\<close> (\<open>lottery-tree/lottery_archive.go\<close>): masks,
    enumeration of combinations, rankings, analysis and score; the archive answers exactly what counting the draws
    would give.
  \<^item> \<open>Form_Generator\<close> (\<open>lottery-tree/form_generator.go\<close>): the permuting search with its state. \<open>search_False\<close>:
    a failed search restores the order; \<open>search_True\<close>: a successful one stops at a form that passes; forms are well formed
    and distinct.
  \<^item> \<open>Manager\<close> (\<open>services/lottery_manager.go\<close>): the cache with its doubly linked list in an explicit heap. It refines
    an abstract list of windows (\<open>lru_archive\<close>): \<open>Archive_step\<close> and \<open>invalidateLoop_step\<close> are the simulation steps.
  \<^item> \<open>Manager_Concurrent\<close>: the same operations interleaved, one step per critical section or unlocked read. Its
    invariant gives single flight and the key of a returned archive; four reachable states show what the
    unlocked reads allow. \<open>Cache_Freshness\<close> lets the table change between the steps: a resident archive is that of the
    current table unless its window meets a written date whose invalidation is still to come.
  \<^item> \<open>Service\<close> (\<open>services/lottery_service.go\<close>), \<open>Simulate\<close> (\<open>services/simulate.go\<close>): the handlers on the cache
    state; totality, the shape of generated forms, and the exact totals of a backtest. The locale \<open>archive_source\<close> states
    what a handler needs of the cache; it is interpreted on the cache and, in \<open>End_to_End\<close>, on the running server.
  \<^item> \<open>Repository\<close> (\<open>repository/lottery_result_repository.go\<close>): each SQL statement as a function on the table, with an
    injected outcome per statement; the table's invariant, atomicity, the reported date range.
  \<^item> \<open>Scraper\<close>, \<open>Scraper_Properties\<close> (\<open>scraper/pais_scraper.go\<close>): CSV file and prize page; printing then reading.
  \<^item> \<open>Seeder\<close> (\<open>seeder/\<close>), \<open>Runner\<close> (\<open>services/scrape_runner.go\<close>): the writes of a run and what they leave
    untouched. The locale \<open>scrape_ports\<close> states what the runner needs of its four interfaces; it is
    interpreted on the repository, the seeder and the cache, and gives that no stale archive is served.
  \<^item> \<open>End_to_End\<close>: handler, cache, repository and scrape runs composed: what a request is answered about the table.
  \<^item> \<open>Redis\<close>, \<open>Consumer\<close> (\<open>services/scrape_consumer.go\<close>): the commands of a request; acknowledgement and final status.
  \<^item> \<open>Config\<close> (\<open>config/config.go\<close>, \<open>database/postgres.go\<close>), \<open>Auth\<close> (\<open>middleware/auth.go\<close>), \<open>Gateway\<close>
    (\<open>server/gateway.go\<close>, \<open>server/grpc.go\<close>, \<open>middleware/logging.go\<close>): defaults, key cache, claims, and the two entrances;
    nothing passes without a signature of a published key. The locale \<open>key_source\<close> is what the validation of a token
    needs of the key cache.
  \<^item> \<open>Rest\<close> (\<open>pkg/gen/lottery.pb.gw.go\<close> beside \<open>internal\<close>, \<open>server/gateway.go\<close>): the generated gateway between the two
    guards, which share one \<open>AuthMiddleware\<close>, and the service behind them: HTTP request to HTTP reply. \<open>routed\<close> gives the
    routes in one equation, \<open>rest_accepted\<close> removes the guards from an accepted call, \<open>service_total\<close> and \<open>mux_total\<close>
    follow a request that cannot panic.
  \<^item> \<open>Clients\<close>, \<open>Rpc_Clients\<close> (\<open>pkg/clients/\<close>): the HTTP client in front of the gateway, the gRPC client in front of the
    interceptor, and their agreement.
  \<^item> \<open>Startup\<close> (\<open>startup/server.go\<close>): seeding, wiring, the scheduler and the shutdown order. \<open>Process\<close>
    (\<open>cmd/server/main.go\<close>, \<open>database/postgres.go\<close>): opening the database, the two servers and the exit code;
    \<open>main_outcome\<close> says how a process can end. \<open>Sessions\<close>: everything a running server reacts to, in any order; the
    locale \<open>attended\<close> carries one answer over to all sequences and is interpreted on the composed server.

  \<^bold>\<open>Bounds and fuel.\<close> The CSV loop takes one unit of fuel per line, and every round reads a line (\<open>csvLoop_fuel\<close>);
  trimming takes one unit per byte. The backfill loop is partial: it ends because every further round has written
  rows (\<open>backfill\<close> in \<open>scrape_ports\<close>); the combination loop because each step is the successor in the enumeration
  (\<open>combLoop_combs\<close>). Totals are exact for integer amounts below \<open>2 ^ 53\<close>, counts for fewer than \<open>2 ^ 31\<close> draws.

  \<^bold>\<open>Parameters.\<close> Code outside the repository is an argument: the answers of the web, \<open>html.Parse\<close>, the parsing and
  signature check of \<open>golang-jwt\<close>, the runtime of grpc-gateway, \<open>protojson\<close>, the JWKS endpoint, the failures of PostgreSQL, the replies of Redis, the clock
  and the order in which Go visits a map.

  \<^bold>\<open>Not modelled.\<close> What sockets and pools do once open, and log lines (I/O without a result that the code uses);
  \<open>pkg/gen/lottery.pb.go\<close> and \<open>lottery_grpc.pb.go\<close> (tables generated by protoc for the protobuf and gRPC runtimes: the
  messages appear as the records of the handlers, a method as a constructor of \<open>rpc_request\<close>);
  \<open>repository/repository.go\<close> (an interface without behaviour that nothing implements). Contexts and deadlines appear
  only where they choose a branch.
\<close>

end
